(* ===== verification/Ccat_Prelude.thy ===== *)
theory Ccat_Prelude
  imports Main "HOL-Library.Word"
begin

text \<open>
  Prelude of the CCAT driver development: machine integers, little-endian codecs, byte-addressed
  memory with its read-over-write laws, the interface to memory-mapped I/O, and the values that
  stand for kernel error codes and for undefined behaviour.

  The driver is modelled on an LP64 little-endian machine (the x86-64 targets CX20xx and CX51xx):
  \<open>size_t\<close>, \<open>loff_t\<close> and \<open>unsigned long\<close> are 64 bits wide, \<open>int\<close> and \<open>unsigned\<close> 32 bits.
  Addresses (C pointers) are natural numbers, 0 is the null pointer; pointer arithmetic that
  leaves the address space is undefined in C and does not occur in the model's runs.
\<close>

unbundle bit_operations_syntax

type_synonym u8 = "8 word"
type_synonym u16 = "16 word"
type_synonym u32 = "32 word"
type_synonym u64 = "64 word"
type_synonym addr = nat

named_theorems mem_simps \<open>read-over-write laws of byte-addressed memory\<close>
named_theorems codec_simps \<open>laws of the little-endian codecs\<close>

section \<open>Error codes and faults\<close>

text \<open>The kernel's error numbers as the driver returns them (negated).\<close>

abbreviation EIO :: int where "EIO \<equiv> 5"
abbreviation ENOMEM :: int where "ENOMEM \<equiv> 12"
abbreviation EFAULT :: int where "EFAULT \<equiv> 14"
abbreviation EBUSY :: int where "EBUSY \<equiv> 16"
abbreviation ENODEV :: int where "ENODEV \<equiv> 19"
abbreviation EADDRNOTAVAIL :: int where "EADDRNOTAVAIL \<equiv> 99"

text \<open>
  Undefined behaviour and kernel faults are values: an operation that can dereference a null or
  error pointer, shift a 32-bit integer out of range or overflow a signed one, returns \<open>Inl\<close> of the fault.
\<close>

datatype fault = NullDeref | BadPointer | ShiftOutOfRange | SignedOverflow

type_synonym 'a exec = "fault + 'a"

text \<open>What a kernel constructor returns: a null pointer, an error pointer, or an object.\<close>

datatype kptr = KNull | KErr int | KObj

section \<open>Little-endian codecs\<close>

fun le_nat :: "u8 list \<Rightarrow> nat" where
  "le_nat [] = 0"
| "le_nat (b # bs) = unat b + 256 * le_nat bs"

fun nat_bytes :: "nat \<Rightarrow> nat \<Rightarrow> u8 list" where
  "nat_bytes 0 v = []"
| "nat_bytes (Suc n) v = of_nat v # nat_bytes n (v div 256)"

definition le_word :: "u8 list \<Rightarrow> 'a::len word" where
  "le_word bs = of_nat (le_nat bs)"

definition le_bytes :: "nat \<Rightarrow> 'a::len word \<Rightarrow> u8 list" where
  "le_bytes n w = nat_bytes n (unat w)"

text \<open>\<open>field bs o n\<close> is the \<open>n\<close>-byte member at offset \<open>o\<close> of a struct laid out as \<open>bs\<close>.\<close>

definition field :: "u8 list \<Rightarrow> nat \<Rightarrow> nat \<Rightarrow> u8 list" where
  "field bs off n = take n (drop off bs)"

lemma length_nat_bytes [simp]: "length (nat_bytes n v) = n"
  by (induction n arbitrary: v) auto

lemma length_le_bytes [simp]: "length (le_bytes n w) = n"
  by (simp add: le_bytes_def)

lemma unat_u8_less: "unat (b :: u8) < 256"
proof -
  have "unat b < 2 ^ LENGTH(8)" by (rule unsigned_less)
  then show ?thesis by simp
qed

lemma le_nat_bound: "le_nat bs < 256 ^ length bs"
proof (induction bs)
  case (Cons b bs)
  have "unat b < 256" by (rule unat_u8_less)
  with Cons.IH show ?case by simp
qed simp

lemma unat_of_nat_u8 [simp]: "unat (of_nat v :: u8) = v mod 256"
  by (simp add: unat_of_nat)

lemma unat_of_nat_small:
  "n < 2 ^ LENGTH('a) \<Longrightarrow> unat (of_nat n :: 'a::len word) = n"
  by (simp add: unat_of_nat)

lemma sint_small:
  fixes w :: "'a::len word"
  assumes "unat w < 2 ^ (LENGTH('a) - Suc 0)"
  shows "sint w = int (unat w)"
proof -
  have u: "uint w = int (unat w)" by simp
  have "uint w < 2 ^ (LENGTH('a) - Suc 0)" unfolding u using assms by (simp only: of_nat_less_numeral_power_cancel_iff)
  moreover have "- (2 ^ (LENGTH('a) - Suc 0)) \<le> uint w" by (rule order_trans [OF _ uint_ge_0]) simp
  ultimately have "signed_take_bit (LENGTH('a) - Suc 0) (uint w) = uint w" by (intro signed_take_bit_int_eq_self)
  then show ?thesis by (simp add: sint_uint)
qed

lemma tested_bit:
  fixes v :: "'a::len word"
  assumes "k < LENGTH('a)"
  shows "v AND push_bit k 1 \<noteq> 0 \<longleftrightarrow> bit v k"
proof
  assume "v AND push_bit k 1 \<noteq> 0"
  then obtain i where "bit (v AND push_bit k 1) i" by (metis bit_eqI bit_0_eq bot_apply bot_bool_def)
  then show "bit v k" by (auto simp: bit_and_iff bit_push_bit_iff bit_exp_iff)
next
  assume "bit v k"
  then have "bit (v AND push_bit k 1) k" using assms by (simp add: bit_and_iff bit_push_bit_iff bit_exp_iff)
  then show "v AND push_bit k 1 \<noteq> 0" by auto
qed

lemma le_nat_bytes [codec_simps]: "le_nat (nat_bytes n v) = v mod 256 ^ n"
proof (induction n arbitrary: v)
  case (Suc n)
  show ?case
    by (simp add: Suc.IH mod_mult2_eq)
qed simp

lemma nat_bytes_le_nat [codec_simps]: "nat_bytes (length bs) (le_nat bs) = bs"
proof (induction bs)
  case (Cons b bs)
  have b: "unat b < 256" by (rule unat_u8_less)
  have "(unat b + 256 * le_nat bs) div 256 = le_nat bs" using b by simp
  moreover have "(of_nat (unat b + 256 * le_nat bs) :: u8) = b"
  proof -
    have z: "(256 :: u8) = 0" by simp
    have "(256 :: u8) * of_nat (le_nat bs) = 0" by (simp only: z mult_zero_left)
    then show ?thesis by simp
  qed
  ultimately show ?case using Cons.IH by simp
qed simp

lemma le_word_bytes [codec_simps]:
  fixes w :: "'a::len word"
  assumes "LENGTH('a) \<le> 8 * n"
  shows "le_word (le_bytes n w) = w"
proof -
  have "unat w < 2 ^ LENGTH('a)" by (rule unsigned_less)
  also have "(2::nat) ^ LENGTH('a) \<le> 2 ^ (8 * n)" using assms by (simp add: power_increasing)
  also have "(2::nat) ^ (8 * n) = 256 ^ n" by (simp add: power_mult)
  finally show ?thesis by (simp add: le_word_def le_bytes_def le_nat_bytes)
qed

lemma le_bytes_word [codec_simps]:
  assumes "length bs = n" and "8 * n \<le> LENGTH('a::len)"
  shows "le_bytes n (le_word bs :: 'a word) = bs"
proof -
  have "le_nat bs < 256 ^ n" using le_nat_bound [of bs] assms(1) by simp
  also have "(256::nat) ^ n = 2 ^ (8 * n)" by (simp add: power_mult)
  also have "(2::nat) ^ (8 * n) \<le> 2 ^ LENGTH('a)" using assms(2) by (simp add: power_increasing)
  finally have "unat (le_word bs :: 'a word) = le_nat bs"
    by (simp add: le_word_def unat_of_nat)
  with assms(1) show ?thesis by (auto simp: le_bytes_def nat_bytes_le_nat)
qed

lemma field_append_skip [simp]: "length xs \<le> off \<Longrightarrow> field (xs @ ys) off n = field ys (off - length xs) n"
  by (simp add: field_def)

lemma field_append_here [simp]: "length xs = n \<Longrightarrow> field (xs @ ys) 0 n = xs"
  by (simp add: field_def)

lemma field_all [simp]: "length xs = n \<Longrightarrow> field xs 0 n = xs"
  by (simp add: field_def)

lemma length_field [simp]: "off + n \<le> length bs \<Longrightarrow> length (field bs off n) = n"
  by (simp add: field_def)

section \<open>Counting list elements across an update\<close>

lemma length_filter_update:
  assumes "i < length xs"
  shows "length (filter P (xs[i := v])) + (if P (xs ! i) then 1 else 0) =
         length (filter P xs) + (if P v then 1 else 0)"
  using assms
proof (induction xs arbitrary: i)
  case (Cons x xs)
  then show ?case by (cases i) auto
qed simp

section \<open>Byte-addressed memory\<close>

type_synonym memory = "addr \<Rightarrow> u8"

definition mem_read :: "memory \<Rightarrow> addr \<Rightarrow> nat \<Rightarrow> u8 list" where
  "mem_read m a n = map m [a..<a + n]"

definition mem_write :: "memory \<Rightarrow> addr \<Rightarrow> u8 list \<Rightarrow> memory" where
  "mem_write m a bs = (\<lambda>x. if a \<le> x \<and> x < a + length bs then bs ! (x - a) else m x)"

lemma length_mem_read [simp]: "length (mem_read m a n) = n"
  by (simp add: mem_read_def)

lemma mem_read_0 [simp]: "mem_read m a 0 = []"
  by (simp add: mem_read_def)

lemma mem_write_Nil [simp]: "mem_write m a [] = m"
  by (rule ext) (auto simp: mem_write_def)

lemma mem_write_outside [mem_simps]: "x < a \<or> a + length bs \<le> x \<Longrightarrow> mem_write m a bs x = m x"
  by (auto simp: mem_write_def)

lemma mem_write_inside [mem_simps]: "a \<le> x \<Longrightarrow> x < a + length bs \<Longrightarrow> mem_write m a bs x = bs ! (x - a)"
  by (simp add: mem_write_def)

lemma mem_read_write_same [mem_simps]:
  "n = length bs \<Longrightarrow> mem_read (mem_write m a bs) a n = bs"
  by (auto simp: mem_read_def mem_write_def intro: nth_equalityI)

lemma mem_read_write_disjoint [mem_simps]:
  "a + n \<le> b \<or> b + length bs \<le> a \<Longrightarrow> mem_read (mem_write m b bs) a n = mem_read m a n"
  by (auto simp: mem_read_def mem_write_def)

lemma mem_read_cong:
  "(\<And>x. a \<le> x \<Longrightarrow> x < a + n \<Longrightarrow> m x = m' x) \<Longrightarrow> mem_read m a n = mem_read m' a n"
  by (simp add: mem_read_def)

lemma mem_read_write_sub:
  "a \<le> b \<Longrightarrow> b + n \<le> a + length bs \<Longrightarrow> mem_read (mem_write m a bs) b n = take n (drop (b - a) bs)"
  by (auto simp: mem_read_def mem_write_def intro: nth_equalityI)

lemma mem_read_append: "mem_read m a (n + k) = mem_read m a n @ mem_read m (a + n) k"
proof -
  have "[a..<a + (n + k)] = [a..<a + n] @ [a + n..<a + n + k]"
    using upt_add_eq_append [of a "a + n" k] by (simp add: add.assoc)
  then show ?thesis by (simp add: mem_read_def)
qed

lemma take_mem_read: "take k (mem_read m a n) = mem_read m a (min k n)"
  by (simp add: mem_read_def take_map min_def take_upt)

lemma drop_mem_read: "drop k (mem_read m a n) = mem_read m (a + k) (n - k)"
  by (cases "k \<le> n") (auto simp: mem_read_def drop_map)

section \<open>Memory-mapped I/O\<close>

text \<open>
  The CCAT FPGA and the kernel's accessors are not part of the source: they are a parameter of
  every operation that touches the device. \<open>'h\<close> is the device's state. A read may change it (the
  device advances while the driver polls), a write hands it a value; \<open>schedule\<close> lets time pass.
  \<open>memcpy_fromio\<close> and \<open>memcpy_toio\<close> transfer a block.
\<close>

record 'h mmio =
  ioread8 :: "addr \<Rightarrow> 'h \<Rightarrow> u8 \<times> 'h"
  ioread16 :: "addr \<Rightarrow> 'h \<Rightarrow> u16 \<times> 'h"
  ioread32 :: "addr \<Rightarrow> 'h \<Rightarrow> u32 \<times> 'h"
  memcpy_fromio :: "addr \<Rightarrow> nat \<Rightarrow> 'h \<Rightarrow> u8 list \<times> 'h"
  iowrite8 :: "u8 \<Rightarrow> addr \<Rightarrow> 'h \<Rightarrow> 'h"
  iowrite16 :: "u16 \<Rightarrow> addr \<Rightarrow> 'h \<Rightarrow> 'h"
  iowrite32 :: "u32 \<Rightarrow> addr \<Rightarrow> 'h \<Rightarrow> 'h"
  memcpy_toio :: "addr \<Rightarrow> u8 list \<Rightarrow> 'h \<Rightarrow> 'h"
  schedule :: "'h \<Rightarrow> 'h"

text \<open>
  What the driver relies on of a device region that is plain storage: a block read returns the
  region's bytes and leaves them, a block write stores its bytes and nothing else of the region.
\<close>

definition io_storage :: "'h mmio \<Rightarrow> ('h \<Rightarrow> memory) \<Rightarrow> addr \<Rightarrow> nat \<Rightarrow> bool" where
  "io_storage hw cells base len \<longleftrightarrow>
     (\<forall>h a n. base \<le> a \<longrightarrow> a + n \<le> base + len \<longrightarrow>
        fst (memcpy_fromio hw a n h) = mem_read (cells h) a n \<and>
        (\<forall>x. base \<le> x \<longrightarrow> x < base + len \<longrightarrow> cells (snd (memcpy_fromio hw a n h)) x = cells h x)) \<and>
     (\<forall>h a bs. base \<le> a \<longrightarrow> a + length bs \<le> base + len \<longrightarrow>
        (\<forall>x. base \<le> x \<longrightarrow> x < base + len \<longrightarrow> cells (memcpy_toio hw a bs h) x = mem_write (cells h) a bs x))"

text \<open>
  A bus on which every address is a byte of storage: the instance that shows the storage laws
  can hold, and on which closed examples are evaluated.
\<close>

definition ram_bus :: "memory mmio" where
  "ram_bus = \<lparr>ioread8 = (\<lambda>a h. (h a, h)),
     ioread16 = (\<lambda>a h. (le_word (mem_read h a 2), h)),
     ioread32 = (\<lambda>a h. (le_word (mem_read h a 4), h)),
     memcpy_fromio = (\<lambda>a n h. (mem_read h a n, h)),
     iowrite8 = (\<lambda>v a h. h(a := v)),
     iowrite16 = (\<lambda>v a h. mem_write h a (le_bytes 2 v)),
     iowrite32 = (\<lambda>v a h. mem_write h a (le_bytes 4 v)),
     memcpy_toio = (\<lambda>a bs h. mem_write h a bs),
     schedule = (\<lambda>h. h)\<rparr>"

lemma ram_bus_storage: "io_storage ram_bus (\<lambda>h. h) base len"
  by (simp add: io_storage_def ram_bus_def)

lemma io_storage_read:
  assumes "io_storage hw cells base len" and "base \<le> a" and "a + n \<le> base + len"
  shows "fst (memcpy_fromio hw a n h) = mem_read (cells h) a n"
    and "base \<le> x \<Longrightarrow> x < base + len \<Longrightarrow> cells (snd (memcpy_fromio hw a n h)) x = cells h x"
  using assms by (simp_all add: io_storage_def)

lemma io_storage_write:
  assumes "io_storage hw cells base len" and "base \<le> a" and "a + length bs \<le> base + len"
    and "base \<le> x" and "x < base + len"
  shows "cells (memcpy_toio hw a bs h) x = mem_write (cells h) a bs x"
  using assms by (simp add: io_storage_def)

end
