(* ===== verification/Ccat_Types.thy ===== *)
theory Ccat_Types
  imports Ccat_Prelude
begin

text \<open>
  The data of \<^verbatim>\<open>src/module.h\<close>: the CCAT function types, the 16-byte information block that
  describes one function of the FPGA (with its union of per-function configuration), the device
  and the function record that the module hands to each function driver.
\<close>

section \<open>Function types\<close>

datatype ccat_info_t =
    CCATINFO_NOTUSED
  | CCATINFO_ETHERCAT_NODMA
  | CCATINFO_GPIO
  | CCATINFO_EPCS_PROM
  | CCATINFO_SYSTEMTIME
  | CCATINFO_ETHERCAT_MASTER_DMA
  | CCATINFO_SRAM

primrec ccat_info_code :: "ccat_info_t \<Rightarrow> u16" where
  "ccat_info_code CCATINFO_NOTUSED = 0"
| "ccat_info_code CCATINFO_ETHERCAT_NODMA = 0x3"
| "ccat_info_code CCATINFO_GPIO = 0xd"
| "ccat_info_code CCATINFO_EPCS_PROM = 0xf"
| "ccat_info_code CCATINFO_SYSTEMTIME = 0x10"
| "ccat_info_code CCATINFO_ETHERCAT_MASTER_DMA = 0x14"
| "ccat_info_code CCATINFO_SRAM = 0x16"

lemma ccat_info_code_inject [simp]: "ccat_info_code s = ccat_info_code t \<longleftrightarrow> s = t"
  by (cases s; cases t) simp_all

text \<open>The types are ordered by their hardware code.\<close>

instantiation ccat_info_t :: linorder
begin

definition less_eq_ccat_info_t :: "ccat_info_t \<Rightarrow> ccat_info_t \<Rightarrow> bool" where
  "less_eq_ccat_info_t s t \<longleftrightarrow> ccat_info_code s \<le> ccat_info_code t"

definition less_ccat_info_t :: "ccat_info_t \<Rightarrow> ccat_info_t \<Rightarrow> bool" where
  "less_ccat_info_t s t \<longleftrightarrow> ccat_info_code s < ccat_info_code t"

instance
  by standard (auto simp: less_eq_ccat_info_t_def less_ccat_info_t_def order_less_le)

end

section \<open>The information block\<close>

text \<open>
  The union of the block is the 32-bit word \<open>config\<close>; its other members are views of it in the
  little-endian layout of the struct.
\<close>

record ccat_info_block =
  info_type :: u16
  info_rev :: u16
  info_config :: u32
  info_addr :: u32
  info_size :: u32

definition num_gpios :: "ccat_info_block \<Rightarrow> u8" where
  "num_gpios i = ucast (info_config i)"

definition tx_size :: "ccat_info_block \<Rightarrow> u16" where
  "tx_size i = ucast (info_config i)"

definition rx_size :: "ccat_info_block \<Rightarrow> u16" where
  "rx_size i = ucast (drop_bit 16 (info_config i))"

definition tx_dma_chan :: "ccat_info_block \<Rightarrow> u8" where
  "tx_dma_chan i = ucast (info_config i)"

definition rx_dma_chan :: "ccat_info_block \<Rightarrow> u8" where
  "rx_dma_chan i = ucast (drop_bit 8 (info_config i))"

definition sram_width :: "ccat_info_block \<Rightarrow> u8" where
  "sram_width i = ucast (info_config i)"

definition sram_size :: "ccat_info_block \<Rightarrow> u8" where
  "sram_size i = ucast (drop_bit 8 (info_config i))"

text \<open>\<open>sizeof(struct ccat_info_block)\<close> and the block as \<open>memcpy_fromio\<close> fills it.\<close>

definition info_block_size :: nat where
  "info_block_size = 16"

definition info_block_of_bytes :: "u8 list \<Rightarrow> ccat_info_block" where
  "info_block_of_bytes bs =
     \<lparr>info_type = le_word (field bs 0 2), info_rev = le_word (field bs 2 2),
      info_config = le_word (field bs 4 4), info_addr = le_word (field bs 8 4),
      info_size = le_word (field bs 12 4)\<rparr>"

definition info_block_bytes :: "ccat_info_block \<Rightarrow> u8 list" where
  "info_block_bytes i =
     le_bytes 2 (info_type i) @ le_bytes 2 (info_rev i) @ le_bytes 4 (info_config i) @
     le_bytes 4 (info_addr i) @ le_bytes 4 (info_size i)"

lemma length_info_block_bytes [simp]: "length (info_block_bytes i) = info_block_size"
  by (simp add: info_block_bytes_def info_block_size_def)

lemma info_block_of_bytes_inverse [codec_simps]: "info_block_of_bytes (info_block_bytes i) = i"
  by (simp add: info_block_of_bytes_def info_block_bytes_def codec_simps)

section \<open>Devices and functions\<close>

text \<open>A null \<open>bar_2\<close> is 0. The \<open>private_data\<close> of a function belongs to its driver.\<close>

record ccat_device =
  bar_0 :: addr
  bar_2 :: addr

record ccat_function =
  func_ccat :: ccat_device
  func_info :: ccat_info_block

text \<open>\<open>func->ccat->bar_0 + func->info.addr\<close>: where a function's registers start.\<close>

definition func_base :: "ccat_function \<Rightarrow> addr" where
  "func_base f = bar_0 (func_ccat f) + unat (info_addr (func_info f))"

end
