(* ===== verification/Ccat_Fifo.thy ===== *)
theory Ccat_Fifo
  imports Ccat_Types
begin

text \<open>
  The frame fifos of \<^verbatim>\<open>src/netdev.c\<close> (lines 38 to 443): the frame layout, the ring with its
  cursor, and the four tables of fifo operations (DMA and EIM, receive and transmit).

  A DMA fifo lives in host memory (\<open>ram\<close>), which the driver reads and writes byte by byte at the
  offsets of \<open>struct ccat_dma_frame\<close>; an EIM fifo lives in the device and is reached through the
  bus. The function pointers of \<open>struct ccat_eth_fifo_operations\<close> are two enumerations, one for the
  receive and one for the transmit tables, so that the union member that is called always is the
  one the table sets; every table sets \<open>add\<close>.
\<close>

section \<open>Frame layout\<close>

definition sizeof_eth_frame :: nat where
  "sizeof_eth_frame = 0x800"

text \<open>\<open>struct ccat_dma_frame_hdr\<close>: offsets of its members and its size.\<close>

definition dma_rx_flags :: nat where "dma_rx_flags = 4"
definition dma_length :: nat where "dma_length = 8"
definition dma_tx_flags :: nat where "dma_tx_flags = 12"
definition sizeof_dma_hdr :: nat where "sizeof_dma_hdr = 24"

text \<open>\<open>struct ccat_eim_frame_hdr\<close>.\<close>

definition eim_length :: nat where "eim_length = 0"
definition sizeof_eim_hdr :: nat where "sizeof_eim_hdr = 16"

lemmas layout = sizeof_eth_frame_def dma_rx_flags_def dma_length_def dma_tx_flags_def
  sizeof_dma_hdr_def eim_length_def sizeof_eim_hdr_def

definition CCAT_FRAME_RECEIVED :: u32 where "CCAT_FRAME_RECEIVED = 0x1"
definition CCAT_FRAME_SENT :: u32 where "CCAT_FRAME_SENT = 0x1"

definition MAX_PAYLOAD_SIZE :: nat where
  "MAX_PAYLOAD_SIZE = sizeof_eth_frame - max sizeof_dma_hdr sizeof_eim_hdr"

definition FIFO_LENGTH :: nat where "FIFO_LENGTH = 64"
definition CCAT_ALIGNMENT :: nat where "CCAT_ALIGNMENT = 128 * 1024"

section \<open>The machine\<close>

text \<open>Host memory and the state of the device behind the bus.\<close>

record 'h machine =
  ram :: memory
  dev :: 'h

abbreviation ram_read16 :: "'h machine \<Rightarrow> addr \<Rightarrow> u16" where
  "ram_read16 m a \<equiv> le_word (mem_read (ram m) a 2)"

abbreviation ram_read32 :: "'h machine \<Rightarrow> addr \<Rightarrow> u32" where
  "ram_read32 m a \<equiv> le_word (mem_read (ram m) a 4)"

definition ram_store :: "addr \<Rightarrow> u8 list \<Rightarrow> 'h machine \<Rightarrow> 'h machine" where
  "ram_store a bs m = m\<lparr>ram := mem_write (ram m) a bs\<rparr>"

definition io_write32 :: "'h mmio \<Rightarrow> u32 \<Rightarrow> addr \<Rightarrow> 'h machine \<Rightarrow> 'h machine" where
  "io_write32 hw v a m = m\<lparr>dev := iowrite32 hw v a (dev m)\<rparr>"

lemma machine_simps [simp]:
  "ram (ram_store a bs m) = mem_write (ram m) a bs" "dev (ram_store a bs m) = dev m"
  "ram (io_write32 hw v a m) = ram m" "dev (io_write32 hw v a m) = iowrite32 hw v a (dev m)"
  by (simp_all add: ram_store_def io_write32_def)

section \<open>Socket buffers\<close>

text \<open>
  The bytes of an \<open>sk_buff\<close>: its linear part (what \<open>skb->data\<close> points to) and what sits in page
  fragments. \<open>skb->len\<close> counts both.
\<close>

record sk_buff =
  skb_data :: "u8 list"
  skb_paged :: "u8 list"

definition skb_len :: "sk_buff \<Rightarrow> nat" where
  "skb_len skb = length (skb_data skb) + length (skb_paged skb)"

definition skb_is_nonlinear :: "sk_buff \<Rightarrow> bool" where
  "skb_is_nonlinear skb \<longleftrightarrow> skb_paged skb \<noteq> []"

section \<open>Fifos\<close>

datatype rx_ops = Dma_Rx | Eim_Rx
datatype tx_ops = Dma_Tx | Eim_Tx

record ccat_dma_mem =
  dm_size :: nat
  dm_phys :: u64
  dm_dev :: addr
  dm_base :: addr

record 'o ccat_eth_fifo =
  f_ops :: 'o
  f_end :: addr
  f_reg :: addr
  f_bytes :: u64
  f_dropped :: u64
  f_dma_mem :: ccat_dma_mem
  f_next :: addr
  f_start :: addr

definition ccat_eth_fifo_inc :: "'o ccat_eth_fifo \<Rightarrow> 'o ccat_eth_fifo" where
  "ccat_eth_fifo_inc f =
     (let f = f\<lparr>f_next := f_next f + sizeof_eth_frame\<rparr>
      in if f_end f < f_next f then f\<lparr>f_next := f_start f\<rparr> else f)"

definition ccat_eth_fifo_hw_reset :: "'h mmio \<Rightarrow> 'o ccat_eth_fifo \<Rightarrow> 'h machine \<Rightarrow> 'h machine" where
  "ccat_eth_fifo_hw_reset hw f m = (if f_reg f \<noteq> 0 then io_write32 hw 0 (f_reg f + 0x8) m else m)"

text \<open>The \<open>do ... while\<close> of \<open>ccat_eth_fifo_reset\<close>: add the frame at the cursor, advance, until the
  cursor is back at the start. The distance from the cursor to the end shrinks with every round.\<close>

function fifo_reset_loop ::
  "('o ccat_eth_fifo \<Rightarrow> 'h machine \<Rightarrow> 'h machine) \<Rightarrow> 'o ccat_eth_fifo \<Rightarrow> 'h machine \<Rightarrow>
     'o ccat_eth_fifo \<times> 'h machine" where
  "fifo_reset_loop add f m =
     (let m = add f m; f = ccat_eth_fifo_inc f
      in if f_next f \<noteq> f_start f then fifo_reset_loop add f m else (f, m))"
  by pat_completeness auto
termination
  by (relation "measure (\<lambda>(add, f, m). Suc (f_end f) - f_next f)")
    (auto simp: ccat_eth_fifo_inc_def layout Let_def split: if_splits)

declare fifo_reset_loop.simps [simp del]

definition ccat_eth_fifo_reset ::
  "('o ccat_eth_fifo \<Rightarrow> 'h machine \<Rightarrow> 'h machine) \<Rightarrow> 'h mmio \<Rightarrow> 'o ccat_eth_fifo \<Rightarrow> 'h machine \<Rightarrow>
     'o ccat_eth_fifo \<times> 'h machine" where
  "ccat_eth_fifo_reset add hw f m =
     (let m = ccat_eth_fifo_hw_reset hw f m; f = f\<lparr>f_next := f_start f\<rparr>
      in fifo_reset_loop add f m)"

definition fifo_set_end ::
  "('o ccat_eth_fifo \<Rightarrow> 'h machine \<Rightarrow> 'h machine) \<Rightarrow> 'h mmio \<Rightarrow> nat \<Rightarrow> 'o ccat_eth_fifo \<Rightarrow>
     'h machine \<Rightarrow> 'o ccat_eth_fifo \<times> 'h machine" where
  "fifo_set_end add hw n f m =
     ccat_eth_fifo_reset add hw (f\<lparr>f_end := f_start f + n - sizeof_eth_frame\<rparr>) m"

section \<open>EIM operations\<close>

text \<open>\<open>mac\<close> is \<open>priv->reg.mac\<close>, which the operation reaches from its fifo with \<open>container_of\<close>.\<close>

definition fifo_eim_tx_ready ::
  "'h mmio \<Rightarrow> addr \<Rightarrow> tx_ops ccat_eth_fifo \<Rightarrow> 'h machine \<Rightarrow> nat \<times> 'h machine" where
  "fifo_eim_tx_ready hw mac f m =
     (let (v, h) = ioread8 hw (mac + 0x20) (dev m)
      in (if v AND 0x3F = 0 then 1 else 0, m\<lparr>dev := h\<rparr>))"

definition fifo_eim_rx_ready ::
  "'h mmio \<Rightarrow> rx_ops ccat_eth_fifo \<Rightarrow> 'h machine \<Rightarrow> nat \<times> 'h machine" where
  "fifo_eim_rx_ready hw f m =
     (let (v, h) = ioread16 hw (f_next f + eim_length) (dev m); len = unat v
      in (if len < sizeof_eim_hdr then 0 else len - sizeof_eim_hdr, m\<lparr>dev := h\<rparr>))"

definition fifo_eim_rx_add :: "'h mmio \<Rightarrow> rx_ops ccat_eth_fifo \<Rightarrow> 'h machine \<Rightarrow> 'h machine" where
  "fifo_eim_rx_add hw f m = m\<lparr>dev := iowrite16 hw 0 (f_next f) (dev m)\<rparr>"

definition fifo_eim_tx_add :: "tx_ops ccat_eth_fifo \<Rightarrow> 'h machine \<Rightarrow> 'h machine" where
  "fifo_eim_tx_add f m = m"

definition fifo_eim_copy_to_linear_skb ::
  "'h mmio \<Rightarrow> rx_ops ccat_eth_fifo \<Rightarrow> nat \<Rightarrow> 'h machine \<Rightarrow> u8 list \<times> 'h machine" where
  "fifo_eim_copy_to_linear_skb hw f len m =
     (let (bs, h) = memcpy_fromio hw (f_next f + sizeof_eim_hdr) len (dev m) in (bs, m\<lparr>dev := h\<rparr>))"

definition fifo_eim_queue_skb ::
  "'h mmio \<Rightarrow> tx_ops ccat_eth_fifo \<Rightarrow> sk_buff \<Rightarrow> 'h machine \<Rightarrow> 'h machine" where
  "fifo_eim_queue_skb hw f skb m =
     (let addr_and_length = of_nat (f_next f - f_start f) :: u32;
          length = of_nat (skb_len skb) :: u16;
          h = memcpy_toio hw (f_next f + eim_length) (le_bytes 2 length) (dev m);
          h = memcpy_toio hw (f_next f + sizeof_eim_hdr) (take (skb_len skb) (skb_data skb)) h
      in m\<lparr>dev := iowrite32 hw addr_and_length (f_reg f) h\<rparr>)"

section \<open>DMA operations\<close>

definition fifo_dma_tx_ready :: "tx_ops ccat_eth_fifo \<Rightarrow> 'h machine \<Rightarrow> nat \<times> 'h machine" where
  "fifo_dma_tx_ready f m = (unat (ram_read32 m (f_next f + dma_tx_flags) AND CCAT_FRAME_SENT), m)"

definition fifo_dma_rx_ready :: "rx_ops ccat_eth_fifo \<Rightarrow> 'h machine \<Rightarrow> nat \<times> 'h machine" where
  "fifo_dma_rx_ready f m =
     (if ram_read32 m (f_next f + dma_rx_flags) AND CCAT_FRAME_RECEIVED \<noteq> 0 then
        let len = unat (ram_read16 m (f_next f + dma_length))
        in (if len < dma_rx_flags then 0 else len - dma_rx_flags, m)
      else (0, m))"

definition ccat_eth_rx_fifo_dma_add ::
  "'h mmio \<Rightarrow> rx_ops ccat_eth_fifo \<Rightarrow> 'h machine \<Rightarrow> 'h machine" where
  "ccat_eth_rx_fifo_dma_add hw f m =
     (let offset = f_next f - f_start f;
          addr_and_length = push_bit 31 1 OR of_nat offset :: u32;
          m = ram_store (f_next f + dma_rx_flags) (le_bytes 4 (0 :: u32)) m
      in io_write32 hw addr_and_length (f_reg f) m)"

definition ccat_eth_tx_fifo_dma_add_free :: "tx_ops ccat_eth_fifo \<Rightarrow> 'h machine \<Rightarrow> 'h machine" where
  "ccat_eth_tx_fifo_dma_add_free f m = ram_store (f_next f + dma_tx_flags) (le_bytes 4 CCAT_FRAME_SENT) m"

definition fifo_dma_copy_to_linear_skb ::
  "rx_ops ccat_eth_fifo \<Rightarrow> nat \<Rightarrow> 'h machine \<Rightarrow> u8 list \<times> 'h machine" where
  "fifo_dma_copy_to_linear_skb f len m = (mem_read (ram m) (f_next f + sizeof_dma_hdr) len, m)"

text \<open>The descriptor \<open>fifo_dma_queue_skb\<close> writes: the sums are 32 bits wide, the shifted length is
  computed as a \<open>size_t\<close> and truncated by the assignment.\<close>

definition dma_tx_descriptor :: "nat \<Rightarrow> nat \<Rightarrow> u32" where
  "dma_tx_descriptor offset len =
     of_nat dma_length + of_nat offset + of_nat (((len + sizeof_dma_hdr) div 8) * 2 ^ 24)"

definition fifo_dma_queue_skb ::
  "'h mmio \<Rightarrow> tx_ops ccat_eth_fifo \<Rightarrow> sk_buff \<Rightarrow> 'h machine \<Rightarrow> 'h machine" where
  "fifo_dma_queue_skb hw f skb m =
     (let m = ram_store (f_next f + dma_tx_flags) (le_bytes 4 (0 :: u32)) m;
          m = ram_store (f_next f + dma_length) (le_bytes 2 (of_nat (skb_len skb) :: u16)) m;
          m = ram_store (f_next f + sizeof_dma_hdr) (take (skb_len skb) (skb_data skb)) m
      in io_write32 hw (dma_tx_descriptor (f_next f - f_start f) (skb_len skb)) (f_reg f) m)"

section \<open>Calls through the operation tables\<close>

definition rx_ready :: "'h mmio \<Rightarrow> rx_ops ccat_eth_fifo \<Rightarrow> 'h machine \<Rightarrow> nat \<times> 'h machine" where
  "rx_ready hw f m = (case f_ops f of Dma_Rx \<Rightarrow> fifo_dma_rx_ready f m | Eim_Rx \<Rightarrow> fifo_eim_rx_ready hw f m)"

definition rx_add :: "'h mmio \<Rightarrow> rx_ops ccat_eth_fifo \<Rightarrow> 'h machine \<Rightarrow> 'h machine" where
  "rx_add hw f m = (case f_ops f of Dma_Rx \<Rightarrow> ccat_eth_rx_fifo_dma_add hw f m | Eim_Rx \<Rightarrow> fifo_eim_rx_add hw f m)"

definition rx_copy :: "'h mmio \<Rightarrow> rx_ops ccat_eth_fifo \<Rightarrow> nat \<Rightarrow> 'h machine \<Rightarrow> u8 list \<times> 'h machine" where
  "rx_copy hw f len m =
     (case f_ops f of Dma_Rx \<Rightarrow> fifo_dma_copy_to_linear_skb f len m | Eim_Rx \<Rightarrow> fifo_eim_copy_to_linear_skb hw f len m)"

definition tx_ready :: "'h mmio \<Rightarrow> addr \<Rightarrow> tx_ops ccat_eth_fifo \<Rightarrow> 'h machine \<Rightarrow> nat \<times> 'h machine" where
  "tx_ready hw mac f m = (case f_ops f of Dma_Tx \<Rightarrow> fifo_dma_tx_ready f m | Eim_Tx \<Rightarrow> fifo_eim_tx_ready hw mac f m)"

definition tx_add :: "tx_ops ccat_eth_fifo \<Rightarrow> 'h machine \<Rightarrow> 'h machine" where
  "tx_add f m = (case f_ops f of Dma_Tx \<Rightarrow> ccat_eth_tx_fifo_dma_add_free f m | Eim_Tx \<Rightarrow> fifo_eim_tx_add f m)"

definition tx_queue_skb :: "'h mmio \<Rightarrow> tx_ops ccat_eth_fifo \<Rightarrow> sk_buff \<Rightarrow> 'h machine \<Rightarrow> 'h machine" where
  "tx_queue_skb hw f skb m =
     (case f_ops f of Dma_Tx \<Rightarrow> fifo_dma_queue_skb hw f skb m | Eim_Tx \<Rightarrow> fifo_eim_queue_skb hw f skb m)"

section \<open>The ring\<close>

text \<open>
  A fifo's slots lie one frame apart from its start to its end; the cursor is at one of them.
\<close>

definition ring_wf :: "'o ccat_eth_fifo \<Rightarrow> bool" where
  "ring_wf f \<longleftrightarrow> f_start f \<le> f_next f \<and> f_next f \<le> f_end f \<and> sizeof_eth_frame dvd (f_next f - f_start f)"

definition nslots :: "'o ccat_eth_fifo \<Rightarrow> nat" where
  "nslots f = Suc ((f_end f - f_start f) div sizeof_eth_frame)"

definition cursor :: "'o ccat_eth_fifo \<Rightarrow> nat" where
  "cursor f = (f_next f - f_start f) div sizeof_eth_frame"

definition slot :: "'o ccat_eth_fifo \<Rightarrow> nat \<Rightarrow> addr" where
  "slot f i = f_start f + i * sizeof_eth_frame"

lemma nslots_pos [simp]: "0 < nslots f"
  by (simp add: nslots_def)

lemma ring_next: "ring_wf f \<Longrightarrow> f_next f = slot f (cursor f)"
  by (simp add: ring_wf_def slot_def cursor_def)

lemma slot_le_end: "f_start f \<le> f_end f \<Longrightarrow> slot f i \<le> f_end f \<longleftrightarrow> i < nslots f"
proof -
  assume le: "f_start f \<le> f_end f"
  have "slot f i \<le> f_end f \<longleftrightarrow> i * 0x800 \<le> f_end f - f_start f" using le by (auto simp: slot_def layout)
  also have "\<dots> \<longleftrightarrow> i \<le> (f_end f - f_start f) div 0x800" by (simp add: less_eq_div_iff_mult_less_eq)
  finally show ?thesis by (simp add: nslots_def layout less_Suc_eq_le)
qed

lemma ring_inc_simps [simp]:
  "f_start (ccat_eth_fifo_inc f) = f_start f" "f_end (ccat_eth_fifo_inc f) = f_end f"
  "f_ops (ccat_eth_fifo_inc f) = f_ops f" "f_reg (ccat_eth_fifo_inc f) = f_reg f"
  "f_bytes (ccat_eth_fifo_inc f) = f_bytes f" "f_dropped (ccat_eth_fifo_inc f) = f_dropped f"
  "nslots (ccat_eth_fifo_inc f) = nslots f" "slot (ccat_eth_fifo_inc f) i = slot f i"
  by (simp_all add: ccat_eth_fifo_inc_def nslots_def slot_def Let_def)

lemma slot_upd [simp]:
  "slot (f\<lparr>f_next := a\<rparr>) i = slot f i" "nslots (f\<lparr>f_next := a\<rparr>) = nslots f"
  "slot (f\<lparr>f_bytes := b\<rparr>) i = slot f i" "nslots (f\<lparr>f_bytes := b\<rparr>) = nslots f"
  "cursor (f\<lparr>f_bytes := b\<rparr>) = cursor f" "ring_wf (f\<lparr>f_bytes := b\<rparr>) = ring_wf f"
  by (simp_all add: slot_def nslots_def cursor_def ring_wf_def)

lemma ring_inc:
  assumes "ring_wf f"
  shows "ring_wf (ccat_eth_fifo_inc f)" and "cursor (ccat_eth_fifo_inc f) = Suc (cursor f) mod nslots f"
    and "cursor f < nslots f"
proof -
  have le: "f_start f \<le> f_end f" using assms by (auto simp: ring_wf_def)
  show lt: "cursor f < nslots f"
    using slot_le_end [OF le, of "cursor f"] ring_next [OF assms] assms by (simp add: ring_wf_def)
  have nx: "f_next f + sizeof_eth_frame = slot f (Suc (cursor f))"
    using ring_next [OF assms] by (simp add: slot_def)
  have "sizeof_eth_frame dvd f_next f + sizeof_eth_frame - f_start f"
    by (simp add: nx slot_def)
  then show "ring_wf (ccat_eth_fifo_inc f)"
    using assms le by (auto simp: ring_wf_def ccat_eth_fifo_inc_def Let_def)
  show "cursor (ccat_eth_fifo_inc f) = Suc (cursor f) mod nslots f"
  proof (cases "Suc (cursor f) < nslots f")
    case True
    then have "ccat_eth_fifo_inc f = f\<lparr>f_next := slot f (Suc (cursor f))\<rparr>"
      using slot_le_end [OF le, of "Suc (cursor f)"] by (simp add: ccat_eth_fifo_inc_def nx)
    with True show ?thesis by (simp add: cursor_def slot_def layout)
  next
    case False
    then have "ccat_eth_fifo_inc f = f\<lparr>f_next := f_start f\<rparr>"
      using slot_le_end [OF le, of "Suc (cursor f)"] by (simp add: ccat_eth_fifo_inc_def nx)
    moreover have "Suc (cursor f) = nslots f" using False lt by simp
    ultimately show ?thesis by (simp add: cursor_def)
  qed
qed

text \<open>The interface of a cursor that walks a ring of slots.\<close>

locale cyclic_cursor =
  fixes adv :: "'f \<Rightarrow> 'f" and pos :: "'f \<Rightarrow> nat" and size :: "'f \<Rightarrow> nat" and wf :: "'f \<Rightarrow> bool"
  assumes adv_wf: "wf f \<Longrightarrow> wf (adv f)"
    and adv_size: "wf f \<Longrightarrow> size (adv f) = size f"
    and adv_pos: "wf f \<Longrightarrow> pos (adv f) = Suc (pos f) mod size f"
    and pos_less: "wf f \<Longrightarrow> pos f < size f"
begin

lemma iter:
  assumes "wf f"
  shows "wf ((adv ^^ k) f) \<and> size ((adv ^^ k) f) = size f \<and> pos ((adv ^^ k) f) = (pos f + k) mod size f"
proof (induction k)
  case 0
  then show ?case using assms pos_less by simp
next
  case (Suc k)
  then show ?case
    by (simp add: adv_wf adv_size adv_pos mod_Suc_eq)
qed

lemma full_turn: "wf f \<Longrightarrow> pos ((adv ^^ size f) f) = pos f"
  using iter [of f "size f"] pos_less [of f] by simp

lemma slots_differ:
  assumes "wf f" and "j < k" and "k < size f"
  shows "pos ((adv ^^ j) f) \<noteq> pos ((adv ^^ k) f)"
proof
  assume "pos ((adv ^^ j) f) = pos ((adv ^^ k) f)"
  then have eq: "(pos f + j) mod size f = (pos f + k) mod size f" using iter [OF assms(1)] by simp
  then have "size f dvd (pos f + k) - (pos f + j)"
    using assms(2) by (intro mod_eq_dvd_iff_nat [THEN iffD1]) simp_all
  then have "size f dvd k - j" using assms(2) by simp
  then have "size f \<le> k - j" using assms(2) by (simp add: dvd_imp_le)
  with assms(3) show False by simp
qed

lemma all_visited:
  assumes "wf f" and "i < size f"
  shows "\<exists>k < size f. pos ((adv ^^ k) f) = i"
proof -
  have "\<exists>k < size f. (pos f + k) mod size f = i"
  proof (cases "pos f \<le> i")
    case True
    then show ?thesis using assms by (intro exI [of _ "i - pos f"]) simp
  next
    case False
    then show ?thesis using assms pos_less [OF assms(1)]
      by (intro exI [of _ "size f - pos f + i"]) simp
  qed
  then show ?thesis using iter [OF assms(1)] by simp
qed

end

interpretation fifo_ring: cyclic_cursor ccat_eth_fifo_inc cursor nslots ring_wf
  by unfold_locales (simp_all add: ring_inc)

text \<open>The order in which the cursor meets the slots, itself first.\<close>

definition ring_order :: "'o ccat_eth_fifo \<Rightarrow> nat list" where
  "ring_order f = map (\<lambda>k. (cursor f + k) mod nslots f) [0..<nslots f]"

lemma ring_order_Cons:
  assumes "ring_wf f"
  shows "ring_order f = cursor f # map (\<lambda>k. (cursor f + Suc k) mod nslots f) [0..<nslots f - 1]"
proof -
  have "[0..<nslots f] = 0 # map Suc [0..<nslots f - 1]"
    by (simp add: map_Suc_upt upt_conv_Cons)
  then show ?thesis using ring_inc(3) [OF assms] by (simp add: ring_order_def)
qed

lemma ring_order_inc:
  assumes "ring_wf f"
  shows "ring_order (ccat_eth_fifo_inc f) = tl (ring_order f) @ [cursor f]"
proof -
  have split: "[0..<nslots f] = [0..<nslots f - 1] @ [nslots f - 1]"
    using upt_Suc_append [of 0 "nslots f - 1"] by simp
  have eq: "(Suc (cursor f) mod nslots f + k) mod nslots f = (cursor f + Suc k) mod nslots f" for k
    by (simp add: mod_add_left_eq)
  have last: "(cursor f + Suc (nslots f - 1)) mod nslots f = cursor f"
    using ring_inc(3) [OF assms] by simp
  have "ring_order (ccat_eth_fifo_inc f) = map (\<lambda>k. (cursor f + Suc k) mod nslots f) [0..<nslots f]"
    by (simp only: ring_order_def ring_inc(2) [OF assms] ring_inc_simps eq)
  also have "\<dots> = map (\<lambda>k. (cursor f + Suc k) mod nslots f) [0..<nslots f - 1] @ [cursor f]"
    by (simp only: split map_append list.map last)
  finally show ?thesis by (simp only: ring_order_Cons [OF assms] list.sel)
qed

lemma ring_order_bound: "i \<in> set (ring_order f) \<Longrightarrow> i < nslots f"
  by (auto simp: ring_order_def)

lemma ring_order_tl:
  assumes "ring_wf f" and "i \<in> set (tl (ring_order f))"
  shows "i < nslots f" and "i \<noteq> cursor f"
proof -
  obtain k where k: "k < nslots f - 1" "i = (cursor f + Suc k) mod nslots f"
    using assms(2) by (auto simp: ring_order_Cons [OF assms(1)])
  show "i < nslots f" using k by simp
  have "cursor ((ccat_eth_fifo_inc ^^ 0) f) \<noteq> cursor ((ccat_eth_fifo_inc ^^ Suc k) f)"
    using k by (intro fifo_ring.slots_differ [OF assms(1)]) simp_all
  then show "i \<noteq> cursor f" using fifo_ring.iter [OF assms(1), of "Suc k"] k by simp
qed

lemma slot_disjoint [mem_simps]:
  assumes "i \<noteq> j" and "a + n \<le> sizeof_eth_frame" and "b + k \<le> sizeof_eth_frame"
  shows "slot f i + a + n \<le> slot f j + b \<or> slot f j + b + k \<le> slot f i + a"
proof -
  have "Suc i \<le> j \<or> Suc j \<le> i" using assms(1) by linarith
  then have "Suc i * sizeof_eth_frame \<le> j * sizeof_eth_frame \<or> Suc j * sizeof_eth_frame \<le> i * sizeof_eth_frame"
    using mult_le_mono1 by blast
  then show ?thesis using assms(2,3) by (auto simp: slot_def)
qed

section \<open>Resetting a fifo\<close>

text \<open>The reset loop adds every slot from the cursor to the end, in order, and leaves the cursor
  at the start.\<close>

lemma fifo_reset_loop_eq:
  assumes "f_start f \<le> f_end f" and "f_next f = slot f c" and "c < nslots f"
  shows "fifo_reset_loop add f m =
    (f\<lparr>f_next := f_start f\<rparr>, fold (\<lambda>i. add (f\<lparr>f_next := slot f i\<rparr>)) [c..<nslots f] m)"
  using assms
proof (induction "nslots f - c" arbitrary: c f m)
  case 0
  then show ?case by simp
next
  case (Suc k)
  have nx: "f_next f + sizeof_eth_frame = slot f (Suc c)" using Suc.prems(2) by (simp add: slot_def)
  have self: "f\<lparr>f_next := slot f c\<rparr> = f" using Suc.prems(2) by simp
  have upt: "[c..<nslots f] = c # [Suc c..<nslots f]" using Suc.prems(3) by (simp add: upt_conv_Cons)
  show ?case
  proof (cases "Suc c < nslots f")
    case True
    let ?g = "f\<lparr>f_next := slot f (Suc c)\<rparr>"
    have inc: "ccat_eth_fifo_inc f = ?g"
      using slot_le_end [OF Suc.prems(1), of "Suc c"] True by (simp add: ccat_eth_fifo_inc_def nx)
    have ne: "slot f (Suc c) \<noteq> f_start f" by (simp add: slot_def layout)
    have "fifo_reset_loop add ?g (add f m) =
      (?g\<lparr>f_next := f_start ?g\<rparr>, fold (\<lambda>i. add (?g\<lparr>f_next := slot ?g i\<rparr>)) [Suc c..<nslots ?g] (add f m))"
      using Suc.hyps(2) Suc.prems True by (intro Suc.hyps(1)) simp_all
    then show ?thesis
      by (subst fifo_reset_loop.simps) (simp add: inc ne upt self)
  next
    case False
    then have inc: "ccat_eth_fifo_inc f = f\<lparr>f_next := f_start f\<rparr>"
      using slot_le_end [OF Suc.prems(1), of "Suc c"] by (simp add: ccat_eth_fifo_inc_def nx)
    have "Suc c = nslots f" using False Suc.prems(3) by simp
    then show ?thesis using upt by (subst fifo_reset_loop.simps) (simp add: inc self)
  qed
qed

lemma fifo_reset_eq:
  assumes "f_start f \<le> f_end f"
  shows "ccat_eth_fifo_reset add hw f m =
    (f\<lparr>f_next := f_start f\<rparr>,
     fold (\<lambda>i. add (f\<lparr>f_next := slot f i\<rparr>)) [0..<nslots f] (ccat_eth_fifo_hw_reset hw f m))"
proof -
  let ?f = "f\<lparr>f_next := f_start f\<rparr>"
  have "f_next ?f = slot ?f 0" by (simp add: slot_def)
  then show ?thesis
    using fifo_reset_loop_eq [of ?f 0 add "ccat_eth_fifo_hw_reset hw f m"] assms
    by (simp add: ccat_eth_fifo_reset_def)
qed

lemma reset_mem: "f_dma_mem (fst (ccat_eth_fifo_reset add hw f m)) = f_dma_mem f"
proof -
  have "f_dma_mem (fst (fifo_reset_loop add f m)) = f_dma_mem f" for f :: "'a ccat_eth_fifo" and m
  proof (induction add f m rule: fifo_reset_loop.induct)
    case (1 add f m)
    then show ?case by (subst fifo_reset_loop.simps) (simp add: ccat_eth_fifo_inc_def Let_def)
  qed
  then show ?thesis by (simp add: ccat_eth_fifo_reset_def)
qed

lemma fifo_reset_wf: "f_start f \<le> f_end f \<Longrightarrow> ring_wf (f\<lparr>f_next := f_start f\<rparr>)"
  by (simp add: ring_wf_def)

section \<open>The transmit ring as a queue of frames in flight\<close>

text \<open>
  The device owns a transmit slot from the moment the driver clears \<open>CCAT_FRAME_SENT\<close> and posts the
  descriptor until it sets the flag again. Read in ring order from the cursor, the slots the
  device owns are the frames in flight, oldest first.
\<close>

definition tx_sent :: "tx_ops ccat_eth_fifo \<Rightarrow> 'h machine \<Rightarrow> nat \<Rightarrow> bool" where
  "tx_sent f m i \<longleftrightarrow> ram_read32 m (slot f i + dma_tx_flags) AND CCAT_FRAME_SENT \<noteq> 0"

definition tx_length :: "tx_ops ccat_eth_fifo \<Rightarrow> 'h machine \<Rightarrow> nat \<Rightarrow> nat" where
  "tx_length f m i = unat (ram_read16 m (slot f i + dma_length))"

definition tx_frame :: "tx_ops ccat_eth_fifo \<Rightarrow> 'h machine \<Rightarrow> nat \<Rightarrow> u8 list" where
  "tx_frame f m i = mem_read (ram m) (slot f i + sizeof_dma_hdr) (tx_length f m i)"

definition inflight :: "tx_ops ccat_eth_fifo \<Rightarrow> 'h machine \<Rightarrow> u8 list list" where
  "inflight f m = map (tx_frame f m) (filter (\<lambda>i. \<not> tx_sent f m i) (ring_order f))"

definition tx_inv :: "tx_ops ccat_eth_fifo \<Rightarrow> 'h machine \<Rightarrow> bool" where
  "tx_inv f m \<longleftrightarrow> f_ops f = Dma_Tx \<and> ring_wf f \<and>
     (\<forall>i < nslots f. \<not> tx_sent f m i \<longrightarrow> tx_length f m i \<le> MAX_PAYLOAD_SIZE)"

lemma MAX_PAYLOAD_SIZE_eq: "MAX_PAYLOAD_SIZE = 2024"
  by (simp add: MAX_PAYLOAD_SIZE_def layout)

lemma tx_view_upd [simp]:
  "tx_sent (f\<lparr>f_bytes := b\<rparr>) m = tx_sent f m" "tx_length (f\<lparr>f_bytes := b\<rparr>) m = tx_length f m"
  "tx_frame (f\<lparr>f_bytes := b\<rparr>) m = tx_frame f m"
  "tx_sent (f\<lparr>f_next := a\<rparr>) m = tx_sent f m" "tx_length (f\<lparr>f_next := a\<rparr>) m = tx_length f m"
  "tx_sent (ccat_eth_fifo_inc f) m = tx_sent f m" "tx_length (ccat_eth_fifo_inc f) m = tx_length f m"
  "tx_frame (ccat_eth_fifo_inc f) m = tx_frame f m"
  by (simp_all add: fun_eq_iff tx_sent_def tx_length_def tx_frame_def)

lemma fifo_dma_tx_ready_sent:
  "ring_wf f \<Longrightarrow> fst (fifo_dma_tx_ready f m) \<noteq> 0 \<longleftrightarrow> tx_sent f m (cursor f)"
  by (simp add: fifo_dma_tx_ready_def tx_sent_def ring_next unat_eq_0)

text \<open>Queueing a frame writes the slot at the cursor and posts one descriptor; no other slot changes.\<close>

lemma fifo_dma_queue_ram:
  assumes "ring_wf f"
  shows "ram (fifo_dma_queue_skb hw f skb m) =
    mem_write (mem_write (mem_write (ram m) (slot f (cursor f) + dma_tx_flags) (le_bytes 4 (0 :: u32)))
      (slot f (cursor f) + dma_length) (le_bytes 2 (of_nat (skb_len skb) :: u16)))
      (slot f (cursor f) + sizeof_dma_hdr) (take (skb_len skb) (skb_data skb))"
    and "dev (fifo_dma_queue_skb hw f skb m) =
      iowrite32 hw (dma_tx_descriptor (f_next f - f_start f) (skb_len skb)) (f_reg f) (dev m)"
  using ring_next [OF assms] by (simp_all add: fifo_dma_queue_skb_def Let_def)

lemma queue_other_slot:
  assumes wf: "ring_wf f" and len: "length (skb_data skb) \<le> MAX_PAYLOAD_SIZE" and ne: "i \<noteq> cursor f"
    and in_slot: "a + n \<le> sizeof_eth_frame"
  shows "mem_read (ram (fifo_dma_queue_skb hw f skb m)) (slot f i + a) n = mem_read (ram m) (slot f i + a) n"
proof -
  have "length (take (skb_len skb) (skb_data skb)) + sizeof_dma_hdr \<le> sizeof_eth_frame"
    using len by (simp add: MAX_PAYLOAD_SIZE_eq layout)
  then show ?thesis
    unfolding fifo_dma_queue_ram [OF wf]
    using ne in_slot by (subst mem_read_write_disjoint, intro slot_disjoint, simp_all add: layout)+
qed

lemma queue_this_slot:
  assumes wf: "ring_wf f" and lin: "\<not> skb_is_nonlinear skb" and len: "skb_len skb \<le> MAX_PAYLOAD_SIZE"
  shows "\<not> tx_sent f (fifo_dma_queue_skb hw f skb m) (cursor f)"
    and "tx_length f (fifo_dma_queue_skb hw f skb m) (cursor f) = skb_len skb"
    and "tx_frame f (fifo_dma_queue_skb hw f skb m) (cursor f) = skb_data skb"
proof -
  have data: "skb_len skb = length (skb_data skb)" using lin by (simp add: skb_len_def skb_is_nonlinear_def)
  show "\<not> tx_sent f (fifo_dma_queue_skb hw f skb m) (cursor f)"
    by (simp add: tx_sent_def fifo_dma_queue_ram [OF wf] mem_simps codec_simps layout)
  show *: "tx_length f (fifo_dma_queue_skb hw f skb m) (cursor f) = skb_len skb"
    using len by (simp add: tx_length_def fifo_dma_queue_ram [OF wf] mem_simps codec_simps layout
        unat_of_nat MAX_PAYLOAD_SIZE_eq)
  show "tx_frame f (fifo_dma_queue_skb hw f skb m) (cursor f) = skb_data skb"
    unfolding tx_frame_def * by (simp add: fifo_dma_queue_ram [OF wf] mem_simps data)
qed

lemma queue_other_views:
  assumes inv: "tx_inv f m" and len: "skb_len skb \<le> MAX_PAYLOAD_SIZE"
    and i: "i < nslots f" "i \<noteq> cursor f"
  shows "tx_sent f (fifo_dma_queue_skb hw f skb m) i = tx_sent f m i"
    and "tx_length f (fifo_dma_queue_skb hw f skb m) i = tx_length f m i"
    and "\<not> tx_sent f m i \<Longrightarrow> tx_frame f (fifo_dma_queue_skb hw f skb m) i = tx_frame f m i"
proof -
  have wf: "ring_wf f" and d: "length (skb_data skb) \<le> MAX_PAYLOAD_SIZE"
    using inv len by (simp_all add: tx_inv_def skb_len_def)
  note other = queue_other_slot [OF wf d i(2)]
  show "tx_sent f (fifo_dma_queue_skb hw f skb m) i = tx_sent f m i"
    by (simp add: tx_sent_def other layout)
  show l: "tx_length f (fifo_dma_queue_skb hw f skb m) i = tx_length f m i"
    by (simp add: tx_length_def other layout)
  assume "\<not> tx_sent f m i"
  then have "tx_length f m i \<le> MAX_PAYLOAD_SIZE" using inv i(1) by (simp add: tx_inv_def)
  then show "tx_frame f (fifo_dma_queue_skb hw f skb m) i = tx_frame f m i"
    unfolding tx_frame_def l by (intro other) (simp add: MAX_PAYLOAD_SIZE_eq layout)
qed

text \<open>Queueing refines appending to the frames in flight.\<close>

lemma queue_inflight:
  fixes hw :: "'h mmio"
  assumes inv: "tx_inv f m" and sent: "tx_sent f m (cursor f)"
    and lin: "\<not> skb_is_nonlinear skb" and len: "skb_len skb \<le> MAX_PAYLOAD_SIZE"
  defines "m' \<equiv> fifo_dma_queue_skb hw f skb m"
  shows "inflight (ccat_eth_fifo_inc f) m' = inflight f m @ [skb_data skb]"
    and "tx_inv (ccat_eth_fifo_inc f) m'"
proof -
  have wf: "ring_wf f" using inv by (simp add: tx_inv_def)
  note here = queue_this_slot [OF wf lin len, where hw = hw and m = m, folded m'_def]
  note other = queue_other_views [OF inv len, where hw = hw, folded m'_def]
  have tl: "\<And>i. i \<in> set (tl (ring_order f)) \<Longrightarrow> i < nslots f \<and> i \<noteq> cursor f"
    using ring_order_tl [OF wf] by blast
  have "map (tx_frame f m') (filter (\<lambda>i. \<not> tx_sent f m' i) (tl (ring_order f))) =
    map (tx_frame f m) (filter (\<lambda>i. \<not> tx_sent f m i) (tl (ring_order f)))"
    using tl other by (auto cong: filter_cong)
  then show "inflight (ccat_eth_fifo_inc f) m' = inflight f m @ [skb_data skb]"
    using here sent by (simp add: inflight_def ring_order_inc [OF wf]) (simp add: ring_order_Cons [OF wf])
  have "tx_length f m' i \<le> MAX_PAYLOAD_SIZE" if "i < nslots f" "\<not> tx_sent f m' i" for i
  proof (cases "i = cursor f")
    case True
    then show ?thesis using here len by simp
  next
    case False
    then show ?thesis using other [OF that(1)] that inv by (simp add: tx_inv_def)
  qed
  then show "tx_inv (ccat_eth_fifo_inc f) m'"
    using inv ring_inc(1) [OF wf] by (simp add: tx_inv_def)
qed

text \<open>After a reset every slot is free: nothing is in flight.\<close>

lemma tx_add_fold_sent:
  assumes ops: "f_ops f = Dma_Tx" and "i < k"
  shows "tx_sent f (fold (\<lambda>i. tx_add (f\<lparr>f_next := slot f i\<rparr>)) [0..<k] m) i"
  using assms(2)
proof (induction k)
  case (Suc k)
  let ?m = "fold (\<lambda>i. tx_add (f\<lparr>f_next := slot f i\<rparr>)) [0..<k] m"
  have step: "tx_add (f\<lparr>f_next := slot f k\<rparr>) ?m = ram_store (slot f k + dma_tx_flags) (le_bytes 4 CCAT_FRAME_SENT) ?m"
    using ops by (simp add: tx_add_def ccat_eth_tx_fifo_dma_add_free_def)
  show ?case
  proof (cases "i = k")
    case True
    then show ?thesis by (simp add: step tx_sent_def mem_simps codec_simps CCAT_FRAME_SENT_def)
  next
    case False
    then have "slot f i + dma_tx_flags + 4 \<le> slot f k + dma_tx_flags \<or> slot f k + dma_tx_flags + 4 \<le> slot f i + dma_tx_flags"
      by (intro slot_disjoint) (simp_all add: layout)
    then have "tx_sent f (tx_add (f\<lparr>f_next := slot f k\<rparr>) ?m) i = tx_sent f ?m i"
      by (simp add: step tx_sent_def mem_read_write_disjoint)
    then show ?thesis using Suc False by simp
  qed
qed simp

lemma tx_reset_inflight:
  assumes "f_ops f = Dma_Tx" and "f_start f \<le> f_end f"
    and "ccat_eth_fifo_reset tx_add hw f m = (f', m')"
  shows "tx_inv f' m'" and "inflight f' m' = []"
proof -
  have f': "f' = f\<lparr>f_next := f_start f\<rparr>" and
    m': "m' = fold (\<lambda>i. tx_add (f\<lparr>f_next := slot f i\<rparr>)) [0..<nslots f] (ccat_eth_fifo_hw_reset hw f m)"
    using assms(3) by (simp_all add: fifo_reset_eq [OF assms(2)])
  have sent: "tx_sent f' m' i" if "i < nslots f" for i
    using tx_add_fold_sent [OF assms(1) that] by (simp add: f' m')
  then show "inflight f' m' = []"
    using ring_order_bound [of _ f'] by (auto simp: inflight_def filter_empty_conv f')
  show "tx_inv f' m'" using sent fifo_reset_wf [OF assms(2)] assms(1) by (simp add: tx_inv_def f')
qed

section \<open>The receive ring as a queue of frames to deliver\<close>

definition rx_len :: "rx_ops ccat_eth_fifo \<Rightarrow> 'h machine \<Rightarrow> nat \<Rightarrow> nat" where
  "rx_len f m i = fst (fifo_dma_rx_ready (f\<lparr>f_next := slot f i\<rparr>) m)"

definition rx_frame :: "rx_ops ccat_eth_fifo \<Rightarrow> 'h machine \<Rightarrow> nat \<Rightarrow> u8 list" where
  "rx_frame f m i = mem_read (ram m) (slot f i + sizeof_dma_hdr) (rx_len f m i)"

definition dma_pending :: "rx_ops ccat_eth_fifo \<Rightarrow> 'h machine \<Rightarrow> u8 list list" where
  "dma_pending f m = map (rx_frame f m) (takeWhile (\<lambda>i. rx_len f m i \<noteq> 0) (ring_order f))"

text \<open>The device reports no more bytes than a slot holds.\<close>

definition dma_rx_inv :: "rx_ops ccat_eth_fifo \<Rightarrow> 'h machine \<Rightarrow> bool" where
  "dma_rx_inv f m \<longleftrightarrow> f_ops f = Dma_Rx \<and> ring_wf f \<and> (\<forall>i < nslots f. rx_len f m i \<le> MAX_PAYLOAD_SIZE)"

lemma rx_view_upd [simp]:
  "rx_len (f\<lparr>f_bytes := b\<rparr>) m = rx_len f m" "rx_frame (f\<lparr>f_bytes := b\<rparr>) m = rx_frame f m"
  "rx_len (f\<lparr>f_dropped := b\<rparr>) m = rx_len f m" "rx_frame (f\<lparr>f_dropped := b\<rparr>) m = rx_frame f m"
  "rx_len (ccat_eth_fifo_inc f) m = rx_len f m" "rx_frame (ccat_eth_fifo_inc f) m = rx_frame f m"
  by (simp_all add: fun_eq_iff rx_len_def rx_frame_def fifo_dma_rx_ready_def slot_def)

lemma ring_stat_upd [simp]:
  "ring_order (f\<lparr>f_bytes := b\<rparr>) = ring_order f" "ring_order (f\<lparr>f_dropped := b\<rparr>) = ring_order f"
  "nslots (f\<lparr>f_dropped := b\<rparr>) = nslots f" "ring_wf (f\<lparr>f_dropped := b\<rparr>) = ring_wf f"
  "slot (f\<lparr>f_dropped := b\<rparr>) i = slot f i" "cursor (f\<lparr>f_dropped := b\<rparr>) = cursor f"
  by (simp_all add: ring_order_def cursor_def nslots_def ring_wf_def slot_def)

lemma rx_len_cursor: "ring_wf f \<Longrightarrow> rx_len f m (cursor f) = fst (fifo_dma_rx_ready f m)"
  by (simp add: rx_len_def ring_next [symmetric])

lemma rx_len_cong:
  assumes "\<And>a n. a + n \<le> sizeof_eth_frame \<Longrightarrow> mem_read (ram m') (slot f i + a) n = mem_read (ram m) (slot f i + a) n"
  shows "rx_len f m' i = rx_len f m i"
  using assms [of dma_rx_flags 4] assms [of dma_length 2]
  by (simp add: rx_len_def fifo_dma_rx_ready_def layout Let_def)

text \<open>Giving a slot back clears its flag and changes no other slot.\<close>

lemma rx_add_slot:
  fixes hw :: "'h mmio" and m :: "'h machine"
  assumes wf: "ring_wf f"
  defines "m' \<equiv> ccat_eth_rx_fifo_dma_add hw f m"
  shows "rx_len f m' (cursor f) = 0"
    and "i \<noteq> cursor f \<Longrightarrow> a + n \<le> sizeof_eth_frame \<Longrightarrow>
         mem_read (ram m') (slot f i + a) n = mem_read (ram m) (slot f i + a) n"
proof -
  have ram': "ram m' = mem_write (ram m) (slot f (cursor f) + dma_rx_flags) (le_bytes 4 (0 :: u32))"
    using ring_next [OF wf] by (simp add: m'_def ccat_eth_rx_fifo_dma_add_def Let_def)
  show "rx_len f m' (cursor f) = 0"
    by (simp add: rx_len_def fifo_dma_rx_ready_def ram' mem_simps codec_simps)
  assume "i \<noteq> cursor f" and "a + n \<le> sizeof_eth_frame"
  then show "mem_read (ram m') (slot f i + a) n = mem_read (ram m) (slot f i + a) n"
    using slot_disjoint [of i "cursor f" a n dma_rx_flags 4 f] unfolding ram'
    by (intro mem_read_write_disjoint) (simp add: layout)
qed

lemma dma_pending_add:
  fixes hw :: "'h mmio" and m :: "'h machine"
  assumes inv: "dma_rx_inv f m" and pend: "dma_pending f m = p # ps"
  defines "m' \<equiv> ccat_eth_rx_fifo_dma_add hw f m"
  shows "dma_rx_inv (ccat_eth_fifo_inc f) m'" and "dma_pending (ccat_eth_fifo_inc f) m' = ps"
proof -
  have wf: "ring_wf f" using inv by (simp add: dma_rx_inv_def)
  note add = rx_add_slot [OF wf, where hw = hw and m = m, folded m'_def]
  have len: "rx_len f m' i = rx_len f m i" if "i \<noteq> cursor f" for i
    using that add(2) by (intro rx_len_cong) blast
  have frame: "rx_frame f m' i = rx_frame f m i" if "i < nslots f" "i \<noteq> cursor f" for i
    using that add(2) [of i sizeof_dma_hdr] inv
    by (simp add: rx_frame_def len dma_rx_inv_def MAX_PAYLOAD_SIZE_eq layout)
  have tl: "\<And>i. i \<in> set (tl (ring_order f)) \<Longrightarrow> i < nslots f \<and> i \<noteq> cursor f"
    using ring_order_tl [OF wf] by blast
  have "takeWhile (\<lambda>i. rx_len f m' i \<noteq> 0) (tl (ring_order f) @ [cursor f]) =
        takeWhile (\<lambda>i. rx_len f m' i \<noteq> 0) (tl (ring_order f))"
    using add(1) by (simp add: takeWhile_append takeWhile_eq_all_conv [THEN iffD2])
  also have "\<dots> = takeWhile (\<lambda>i. rx_len f m i \<noteq> 0) (tl (ring_order f))"
    using tl len by (intro takeWhile_cong) auto
  finally have tw: "takeWhile (\<lambda>i. rx_len f m' i \<noteq> 0) (ring_order (ccat_eth_fifo_inc f)) = \<dots>"
    by (simp only: ring_order_inc [OF wf])
  have frames: "map (rx_frame f m') (takeWhile (\<lambda>i. rx_len f m i \<noteq> 0) (tl (ring_order f))) =
        map (rx_frame f m) (takeWhile (\<lambda>i. rx_len f m i \<noteq> 0) (tl (ring_order f)))"
    using tl frame by (auto dest: set_takeWhileD)
  have ro: "ring_order f = cursor f # tl (ring_order f)"
    by (simp add: ring_order_Cons [OF wf])
  have "ps = map (rx_frame f m) (takeWhile (\<lambda>i. rx_len f m i \<noteq> 0) (tl (ring_order f)))"
    using pend unfolding dma_pending_def by (subst (asm) ro) (auto split: if_splits)
  then show "dma_pending (ccat_eth_fifo_inc f) m' = ps"
    unfolding dma_pending_def rx_view_upd tw frames by simp
  have "rx_len f m' i \<le> MAX_PAYLOAD_SIZE" if "i < nslots f" for i
    using that len [of i] add(1) inv by (cases "i = cursor f") (simp_all add: dma_rx_inv_def)
  then show "dma_rx_inv (ccat_eth_fifo_inc f) m'"
    using inv ring_inc(1) [OF wf] by (simp add: dma_rx_inv_def)
qed

lemma dma_pending_head:
  assumes "dma_rx_inv f m"
  shows "case dma_pending f m of
      [] \<Rightarrow> fst (fifo_dma_rx_ready f m) = 0
    | p # ps \<Rightarrow> fst (fifo_dma_rx_ready f m) = length p \<and> p \<noteq> [] \<and>
        fifo_dma_copy_to_linear_skb f (length p) m = (p, m)"
proof -
  have wf: "ring_wf f" using assms by (simp add: dma_rx_inv_def)
  show ?thesis
    using ring_next [OF wf] rx_len_cursor [OF wf, of m, symmetric]
    by (auto simp: dma_pending_def ring_order_Cons [OF wf] rx_frame_def fifo_dma_copy_to_linear_skb_def
        simp flip: length_greater_0_conv split: list.split)
qed

section \<open>The receive interface\<close>

text \<open>
  What the poll loop relies on of a receive fifo, whatever its operation table: \<open>pend\<close> is the queue
  of frames the device has filled and the driver has not given back, oldest first. With any access
  the device may append frames \<open>new\<close>, which \<open>arr\<close>, the list of all that ever arrived, records; \<open>ready\<close> answers for the oldest frame,
  \<open>copy\<close> yields its bytes, and \<open>add\<close> followed by an increment of the cursor removes it.
\<close>

locale rx_fifo =
  fixes ready :: "rx_ops ccat_eth_fifo \<Rightarrow> 'h machine \<Rightarrow> nat \<times> 'h machine"
    and copy :: "rx_ops ccat_eth_fifo \<Rightarrow> nat \<Rightarrow> 'h machine \<Rightarrow> u8 list \<times> 'h machine"
    and add :: "rx_ops ccat_eth_fifo \<Rightarrow> 'h machine \<Rightarrow> 'h machine"
    and pend :: "rx_ops ccat_eth_fifo \<Rightarrow> 'h machine \<Rightarrow> u8 list list"
    and inv :: "rx_ops ccat_eth_fifo \<Rightarrow> 'h machine \<Rightarrow> bool"
    and arr :: "'h machine \<Rightarrow> u8 list list"
  assumes ready_keeps: "inv f m \<Longrightarrow> ready f m = (n, m') \<Longrightarrow> inv f m' \<and> (\<exists>new. arr m' = arr m @ new \<and> pend f m' = pend f m @ new)"
    and ready_none: "inv f m \<Longrightarrow> ready f m = (0, m') \<Longrightarrow> pend f m' = []"
    and ready_some: "inv f m \<Longrightarrow> ready f m = (Suc k, m') \<Longrightarrow> \<exists>p ps. pend f m' = p # ps \<and> length p = Suc k"
    and copy_head: "inv f m \<Longrightarrow> pend f m = p # ps \<Longrightarrow> copy f (length p) m = (bs, m') \<Longrightarrow>
      bs = p \<and> inv f m' \<and> (\<exists>new. arr m' = arr m @ new \<and> pend f m' = pend f m @ new)"
    and add_tail: "inv f m \<Longrightarrow> pend f m = p # ps \<Longrightarrow>
      inv (ccat_eth_fifo_inc f) (add f m) \<and> (\<exists>new. arr (add f m) = arr m @ new \<and> pend (ccat_eth_fifo_inc f) (add f m) = ps @ new)"
    and stats: "inv (f\<lparr>f_bytes := b\<rparr>) m = inv f m" "pend (f\<lparr>f_bytes := b\<rparr>) m = pend f m"
      "inv (f\<lparr>f_dropped := b\<rparr>) m = inv f m" "pend (f\<lparr>f_dropped := b\<rparr>) m = pend f m"

text \<open>The DMA ring provides it with no condition on the bus: its frames are in host memory, and in the
  sequential model nothing arrives during a driver operation.\<close>

interpretation dma_rx: rx_fifo "rx_ready hw" "rx_copy hw" "rx_add hw" dma_pending dma_rx_inv "\<lambda>m. []" for hw
proof
  fix f :: "rx_ops ccat_eth_fifo" and m m' :: "'a machine" and n k :: nat and p bs :: "u8 list" and ps :: "u8 list list" and b :: u64
  have ops: "dma_rx_inv f m \<Longrightarrow> f_ops f = Dma_Rx" by (simp add: dma_rx_inv_def)
  have same: "snd (fifo_dma_rx_ready f m) = m" by (simp add: fifo_dma_rx_ready_def Let_def)
  show "dma_rx_inv f m' \<and> (\<exists>new. [] = [] @ new \<and> dma_pending f m' = dma_pending f m @ new)"
    if "dma_rx_inv f m" "rx_ready hw f m = (n, m')"
    using that same ops by (auto simp: rx_ready_def)
  show "dma_pending f m' = []" if "dma_rx_inv f m" "rx_ready hw f m = (0, m')"
    using that same ops dma_pending_head [OF that(1)] by (auto simp: rx_ready_def split: list.splits)
  show "\<exists>p ps. dma_pending f m' = p # ps \<and> length p = Suc k"
    if "dma_rx_inv f m" "rx_ready hw f m = (Suc k, m')"
    using that same ops dma_pending_head [OF that(1)] by (auto simp: rx_ready_def split: list.splits)
  show "bs = p \<and> dma_rx_inv f m' \<and> (\<exists>new. [] = [] @ new \<and> dma_pending f m' = dma_pending f m @ new)"
    if "dma_rx_inv f m" "dma_pending f m = p # ps" "rx_copy hw f (length p) m = (bs, m')"
    using that ops dma_pending_head [OF that(1)] by (auto simp: rx_copy_def)
  show "dma_rx_inv (ccat_eth_fifo_inc f) (rx_add hw f m) \<and>
      (\<exists>new. [] = [] @ new \<and> dma_pending (ccat_eth_fifo_inc f) (rx_add hw f m) = ps @ new)"
    if "dma_rx_inv f m" "dma_pending f m = p # ps"
    using dma_pending_add [OF that, of hw] ops [OF that(1)] by (simp add: rx_add_def)
qed (simp_all add: dma_rx_inv_def dma_pending_def)

text \<open>
  The EIM fifo is one frame window in the device. What the driver relies on: the length register
  of the window counts the header and the bytes of the oldest frame (or at most the header when
  there is none), the bytes follow the header, and writing 0 to the length register releases the
  frame. \<open>q\<close> is the device's queue of received frames, \<open>log\<close> the list of all frames it ever received: a frame
  that arrives during an access is appended to both.
\<close>

definition eim_rx_law :: "'h mmio \<Rightarrow> ('h \<Rightarrow> u8 list list) \<Rightarrow> ('h \<Rightarrow> u8 list list) \<Rightarrow> addr \<Rightarrow> bool" where
  "eim_rx_law hw q log base \<longleftrightarrow>
     (\<forall>h. (\<exists>new. log (snd (ioread16 hw base h)) = log h @ new \<and> q (snd (ioread16 hw base h)) = q h @ new) \<and>
        (case q (snd (ioread16 hw base h)) of
           [] \<Rightarrow> unat (fst (ioread16 hw base h)) \<le> sizeof_eim_hdr
         | p # ps \<Rightarrow> p \<noteq> [] \<and> unat (fst (ioread16 hw base h)) = sizeof_eim_hdr + length p)) \<and>
     (\<forall>h p ps. q h = p # ps \<longrightarrow>
        fst (memcpy_fromio hw (base + sizeof_eim_hdr) (length p) h) = p \<and>
        (\<exists>new. log (snd (memcpy_fromio hw (base + sizeof_eim_hdr) (length p) h)) = log h @ new \<and>
          q (snd (memcpy_fromio hw (base + sizeof_eim_hdr) (length p) h)) = q h @ new) \<and>
        (\<exists>new. log (iowrite16 hw 0 base h) = log h @ new \<and> q (iowrite16 hw 0 base h) = ps @ new))"

definition eim_pending :: "('h \<Rightarrow> u8 list list) \<Rightarrow> rx_ops ccat_eth_fifo \<Rightarrow> 'h machine \<Rightarrow> u8 list list" where
  "eim_pending q f m = q (dev m)"

definition eim_rx_inv ::
  "'h mmio \<Rightarrow> ('h \<Rightarrow> u8 list list) \<Rightarrow> ('h \<Rightarrow> u8 list list) \<Rightarrow> rx_ops ccat_eth_fifo \<Rightarrow> 'h machine \<Rightarrow> bool" where
  "eim_rx_inv hw q log f m \<longleftrightarrow> f_ops f = Eim_Rx \<and> f_next f = f_start f \<and> f_end f = f_start f \<and> eim_rx_law hw q log (f_start f)"

lemma eim_rx_inc: "eim_rx_inv hw q log f m \<Longrightarrow> ccat_eth_fifo_inc f = f"
  by (simp add: eim_rx_inv_def ccat_eth_fifo_inc_def layout)

interpretation eim_rx: rx_fifo "rx_ready hw" "rx_copy hw" "rx_add hw" "eim_pending q" "eim_rx_inv hw q log" "\<lambda>m. log (dev m)" for hw q log
proof
  fix f :: "rx_ops ccat_eth_fifo" and m m' :: "'a machine" and n k :: nat and p bs :: "u8 list" and ps :: "u8 list list" and b :: u64
  let ?r = "ioread16 hw (f_start f) (dev m)"
  let ?c = "memcpy_fromio hw (f_start f + sizeof_eim_hdr) (length p) (dev m)"
  have read: "(\<exists>new. log (snd ?r) = log (dev m) @ new \<and> q (snd ?r) = q (dev m) @ new)"
      "case q (snd ?r) of [] \<Rightarrow> unat (fst ?r) \<le> sizeof_eim_hdr
       | p # ps \<Rightarrow> p \<noteq> [] \<and> unat (fst ?r) = sizeof_eim_hdr + length p" if "eim_rx_inv hw q log f m"
    using that by (simp_all add: eim_rx_inv_def eim_rx_law_def)
  have ready: "rx_ready hw f m = (unat (fst ?r) - sizeof_eim_hdr, m\<lparr>dev := snd ?r\<rparr>)" if "eim_rx_inv hw q log f m"
    using that by (auto simp: eim_rx_inv_def rx_ready_def fifo_eim_rx_ready_def eim_length_def Let_def split: prod.split)
  have head: "fst ?c = p" "\<exists>new. log (snd ?c) = log (dev m) @ new \<and> q (snd ?c) = q (dev m) @ new"
    "\<exists>new. log (iowrite16 hw 0 (f_start f) (dev m)) = log (dev m) @ new \<and> q (iowrite16 hw 0 (f_start f) (dev m)) = ps @ new"
    if "eim_rx_inv hw q log f m" "eim_pending q f m = p # ps"
    using that by (simp_all add: eim_rx_inv_def eim_rx_law_def eim_pending_def)
  show "eim_rx_inv hw q log f m' \<and> (\<exists>new. log (dev m') = log (dev m) @ new \<and> eim_pending q f m' = eim_pending q f m @ new)"
    if "eim_rx_inv hw q log f m" "rx_ready hw f m = (n, m')"
    using that ready [OF that(1)] read(1) [OF that(1)] by (auto simp: eim_pending_def eim_rx_inv_def)
  show "eim_pending q f m' = []" if "eim_rx_inv hw q log f m" "rx_ready hw f m = (0, m')"
    using that ready [OF that(1)] read(2) [OF that(1)] by (auto simp: eim_pending_def split: list.splits)
  show "\<exists>p ps. eim_pending q f m' = p # ps \<and> length p = Suc k"
    if "eim_rx_inv hw q log f m" "rx_ready hw f m = (Suc k, m')"
    using that ready [OF that(1)] read(2) [OF that(1)] by (auto simp: eim_pending_def split: list.splits)
  show "bs = p \<and> eim_rx_inv hw q log f m' \<and> (\<exists>new. log (dev m') = log (dev m) @ new \<and> eim_pending q f m' = eim_pending q f m @ new)"
    if "eim_rx_inv hw q log f m" "eim_pending q f m = p # ps" "rx_copy hw f (length p) m = (bs, m')"
    using that(1,3) head(1,2) [OF that(1,2)]
    by (auto simp: rx_copy_def fifo_eim_copy_to_linear_skb_def eim_rx_inv_def eim_pending_def split: prod.splits)
  show "eim_rx_inv hw q log (ccat_eth_fifo_inc f) (rx_add hw f m) \<and>
      (\<exists>new. log (dev (rx_add hw f m)) = log (dev m) @ new \<and> eim_pending q (ccat_eth_fifo_inc f) (rx_add hw f m) = ps @ new)"
    if "eim_rx_inv hw q log f m" "eim_pending q f m = p # ps"
    using that(1) head(3) [OF that] eim_rx_inc [OF that(1)]
    by (simp add: rx_add_def fifo_eim_rx_add_def eim_rx_inv_def eim_pending_def)
qed (simp_all add: eim_rx_inv_def eim_pending_def)

section \<open>The transmit interface\<close>

text \<open>
  What \<open>ccat_eth_start_xmit\<close> relies on of a transmit fifo: \<open>infl\<close> is the queue of frames handed to the
  device, oldest first. Asking whether the fifo is ready changes nothing; queueing a frame that
  fits, when the fifo is ready, and advancing the cursor appends it.
\<close>

locale tx_fifo =
  fixes ready :: "tx_ops ccat_eth_fifo \<Rightarrow> 'h machine \<Rightarrow> nat \<times> 'h machine"
    and queue :: "tx_ops ccat_eth_fifo \<Rightarrow> sk_buff \<Rightarrow> 'h machine \<Rightarrow> 'h machine"
    and infl :: "tx_ops ccat_eth_fifo \<Rightarrow> 'h machine \<Rightarrow> u8 list list"
    and inv :: "tx_ops ccat_eth_fifo \<Rightarrow> 'h machine \<Rightarrow> bool"
  assumes ready_keeps: "inv f m \<Longrightarrow> ready f m = (n, m') \<Longrightarrow> inv f m' \<and> infl f m' = infl f m"
    and queue_appends: "inv f m \<Longrightarrow> ready f m = (n, m') \<Longrightarrow> n \<noteq> 0 \<Longrightarrow> \<not> skb_is_nonlinear skb \<Longrightarrow>
      skb_len skb \<le> MAX_PAYLOAD_SIZE \<Longrightarrow>
      inv (ccat_eth_fifo_inc f) (queue f skb m') \<and> infl (ccat_eth_fifo_inc f) (queue f skb m') = infl f m @ [skb_data skb]"
    and stats: "inv (f\<lparr>f_bytes := b\<rparr>) m = inv f m" "infl (f\<lparr>f_bytes := b\<rparr>) m = infl f m"
      "inv (f\<lparr>f_dropped := b\<rparr>) m = inv f m" "infl (f\<lparr>f_dropped := b\<rparr>) m = infl f m"

lemma tx_dropped_upd [simp]:
  "tx_sent (f\<lparr>f_dropped := b\<rparr>) m = tx_sent f m" "tx_length (f\<lparr>f_dropped := b\<rparr>) m = tx_length f m"
  "tx_frame (f\<lparr>f_dropped := b\<rparr>) m = tx_frame f m"
  by (simp_all add: fun_eq_iff tx_sent_def tx_length_def tx_frame_def)

interpretation dma_tx: tx_fifo "tx_ready hw mac" "tx_queue_skb hw" inflight tx_inv for hw mac
proof
  fix f :: "tx_ops ccat_eth_fifo" and m m' :: "'a machine" and n :: nat and skb :: sk_buff
  have ready: "m' = m \<and> n = fst (fifo_dma_tx_ready f m)" if "tx_inv f m" "tx_ready hw mac f m = (n, m')"
    using that by (auto simp: tx_inv_def tx_ready_def fifo_dma_tx_ready_def)
  show "tx_inv f m' \<and> inflight f m' = inflight f m" if "tx_inv f m" "tx_ready hw mac f m = (n, m')"
    using ready [OF that] that(1) by simp
  show "tx_inv (ccat_eth_fifo_inc f) (tx_queue_skb hw f skb m') \<and>
      inflight (ccat_eth_fifo_inc f) (tx_queue_skb hw f skb m') = inflight f m @ [skb_data skb]"
    if inv: "tx_inv f m" "tx_ready hw mac f m = (n, m')" "n \<noteq> 0" and skb: "\<not> skb_is_nonlinear skb" "skb_len skb \<le> MAX_PAYLOAD_SIZE"
  proof -
    have "f_ops f = Dma_Tx" "ring_wf f" using inv(1) by (simp_all add: tx_inv_def)
    moreover have "tx_sent f m (cursor f)"
      using ready [OF inv(1,2)] inv(3) fifo_dma_tx_ready_sent [OF \<open>ring_wf f\<close>] by blast
    ultimately show ?thesis
      using ready [OF inv(1,2)] queue_inflight [OF inv(1) _ skb, of hw] by (simp add: tx_queue_skb_def)
  qed
qed (simp_all add: tx_inv_def inflight_def)

text \<open>
  The EIM transmit memory is a window of the device. What the driver relies on: the window is
  storage, writing an offset to the fifo's register hands over the frame stored there, and
  reading the fifo level changes neither. \<open>q\<close> is the device's queue of frames to send.
\<close>

definition eim_frame_at :: "memory \<Rightarrow> addr \<Rightarrow> u8 list" where
  "eim_frame_at c a = mem_read c (a + sizeof_eim_hdr) (unat (le_word (mem_read c (a + eim_length) 2) :: u16))"

definition eim_tx_law ::
  "'h mmio \<Rightarrow> ('h \<Rightarrow> memory) \<Rightarrow> ('h \<Rightarrow> u8 list list) \<Rightarrow> addr \<Rightarrow> nat \<Rightarrow> addr \<Rightarrow> addr \<Rightarrow> bool" where
  "eim_tx_law hw cells q base len reg level \<longleftrightarrow>
     (\<forall>h a bs. base \<le> a \<longrightarrow> a + length bs \<le> base + len \<longrightarrow>
        cells (memcpy_toio hw a bs h) = mem_write (cells h) a bs \<and> q (memcpy_toio hw a bs h) = q h) \<and>
     (\<forall>h v. unat v + sizeof_eth_frame \<le> len \<longrightarrow>
        q (iowrite32 hw v reg h) = q h @ [eim_frame_at (cells h) (base + unat v)]) \<and>
     (\<forall>h. q (snd (ioread8 hw level h)) = q h)"

definition eim_inflight :: "('h \<Rightarrow> u8 list list) \<Rightarrow> tx_ops ccat_eth_fifo \<Rightarrow> 'h machine \<Rightarrow> u8 list list" where
  "eim_inflight q f m = q (dev m)"

definition eim_tx_inv ::
  "'h mmio \<Rightarrow> addr \<Rightarrow> ('h \<Rightarrow> memory) \<Rightarrow> ('h \<Rightarrow> u8 list list) \<Rightarrow> tx_ops ccat_eth_fifo \<Rightarrow> 'h machine \<Rightarrow> bool" where
  "eim_tx_inv hw mac cells q f m \<longleftrightarrow> f_ops f = Eim_Tx \<and> ring_wf f \<and> f_end f - f_start f < 2 ^ 32 \<and>
     eim_tx_law hw cells q (f_start f) (f_end f - f_start f + sizeof_eth_frame) (f_reg f) (mac + 0x20)"

lemma eim_queue_frame:
  fixes hw :: "'h mmio"
  assumes inv: "eim_tx_inv hw mac cells q f m"
    and lin: "\<not> skb_is_nonlinear skb" and len: "skb_len skb \<le> MAX_PAYLOAD_SIZE"
  shows "q (dev (fifo_eim_queue_skb hw f skb m)) = q (dev m) @ [skb_data skb]"
proof -
  define h1 where "h1 = memcpy_toio hw (f_next f) (le_bytes 2 (of_nat (skb_len skb) :: u16)) (dev m)"
  define h2 where "h2 = memcpy_toio hw (f_next f + sizeof_eim_hdr) (skb_data skb) h1"
  define v where "v = (of_nat (f_next f - f_start f) :: u32)"
  have data: "skb_len skb = length (skb_data skb)" using lin by (simp add: skb_len_def skb_is_nonlinear_def)
  have wf: "f_start f \<le> f_next f" "f_next f \<le> f_end f" and
    small: "f_end f - f_start f < 2 ^ 32" and
    law: "eim_tx_law hw cells q (f_start f) (f_end f - f_start f + sizeof_eth_frame) (f_reg f) (mac + 0x20)"
    using inv unfolding eim_tx_inv_def ring_wf_def by blast+
  have v: "unat v = f_next f - f_start f"
    unfolding v_def using wf small by (intro unat_of_nat_small) simp
  have c1: "cells h1 = mem_write (cells (dev m)) (f_next f) (le_bytes 2 (of_nat (skb_len skb) :: u16))" "q h1 = q (dev m)"
    using law wf unfolding eim_tx_law_def h1_def by (simp_all add: layout)
  have c2: "cells h2 = mem_write (cells h1) (f_next f + sizeof_eim_hdr) (skb_data skb)" "q h2 = q h1"
    using law wf len data unfolding eim_tx_law_def h2_def by (simp_all add: layout MAX_PAYLOAD_SIZE_eq)
  have "q (iowrite32 hw v (f_reg f) h2) = q h2 @ [eim_frame_at (cells h2) (f_start f + unat v)]"
    using law wf v unfolding eim_tx_law_def by (simp add: layout)
  moreover have "eim_frame_at (cells h2) (f_start f + unat v) = skb_data skb"
    using v wf len data
    by (simp add: eim_frame_at_def c1 c2 mem_simps codec_simps layout unat_of_nat MAX_PAYLOAD_SIZE_eq)
  ultimately show ?thesis
    using c1 c2 data by (simp add: fifo_eim_queue_skb_def Let_def h1_def h2_def v_def eim_length_def)
qed

interpretation eim_tx: tx_fifo "tx_ready hw mac" "tx_queue_skb hw" "eim_inflight q" "eim_tx_inv hw mac cells q"
  for hw mac cells q
proof
  fix f :: "tx_ops ccat_eth_fifo" and m m' :: "'a machine" and n :: nat and skb :: sk_buff
  have keep: "eim_tx_inv hw mac cells q f m' \<and> eim_inflight q f m' = eim_inflight q f m"
    if "eim_tx_inv hw mac cells q f m" "tx_ready hw mac f m = (n, m')"
    using that by (auto simp: eim_tx_inv_def tx_ready_def fifo_eim_tx_ready_def eim_inflight_def eim_tx_law_def
        split: prod.splits) (metis snd_conv)+
  show "eim_tx_inv hw mac cells q f m' \<and> eim_inflight q f m' = eim_inflight q f m"
    if "eim_tx_inv hw mac cells q f m" "tx_ready hw mac f m = (n, m')"
    using keep [OF that] .
  show "eim_tx_inv hw mac cells q (ccat_eth_fifo_inc f) (tx_queue_skb hw f skb m') \<and>
      eim_inflight q (ccat_eth_fifo_inc f) (tx_queue_skb hw f skb m') = eim_inflight q f m @ [skb_data skb]"
    if inv: "eim_tx_inv hw mac cells q f m" "tx_ready hw mac f m = (n, m')" "n \<noteq> 0" and skb: "\<not> skb_is_nonlinear skb" "skb_len skb \<le> MAX_PAYLOAD_SIZE"
    using keep [OF inv(1,2)] eim_queue_frame [OF _ skb, of hw mac cells q f m'] ring_inc(1)
    by (auto simp: eim_inflight_def tx_queue_skb_def eim_tx_inv_def)
qed (simp_all add: eim_tx_inv_def eim_inflight_def)

section \<open>Descriptors\<close>

lemma dma_tx_descriptor_unat:
  assumes "offset + 8 < 2 ^ 24" and "len < MAX_PAYLOAD_SIZE"
  shows "unat (dma_tx_descriptor offset len) = (8 + offset) + ((len + 24) div 8) * 2 ^ 24"
proof -
  let ?n = "(8 + offset) + ((len + 24) div 8) * 2 ^ 24"
  have "(len + 24) div 8 < 256" using assms(2) by (simp add: MAX_PAYLOAD_SIZE_eq)
  then have "unat (of_nat ?n :: u32) = ?n" using assms(1) by (intro unat_of_nat_small) simp
  moreover have "dma_tx_descriptor offset len = of_nat ?n"
    by (simp add: dma_tx_descriptor_def layout)
  ultimately show ?thesis by (simp only:)
qed

text \<open>C33: for every frame shorter than the limit the descriptor that \<open>fifo_dma_queue_skb\<close> writes
  decodes to what the device needs: its low 24 bits are the offset of the frame's length field
  and its high 8 bits a number of 8-byte units that covers the rest of the header and the payload
  and stays inside the slot.\<close>

theorem dma_tx_descriptor_decode:
  assumes "offset + 8 < 2 ^ 24" and "len < MAX_PAYLOAD_SIZE"
  shows "unat (dma_tx_descriptor offset len) mod 2 ^ 24 = offset + dma_length \<and>
    sizeof_dma_hdr - dma_length + len \<le> 8 * unat (drop_bit 24 (dma_tx_descriptor offset len)) \<and>
    dma_length + 8 * unat (drop_bit 24 (dma_tx_descriptor offset len)) \<le> sizeof_eth_frame"
proof -
  let ?d = "unat (dma_tx_descriptor offset len)"
  have "?d = (8 + offset) + ((len + 24) div 8) * 2 ^ 24" using dma_tx_descriptor_unat [OF assms] .
  then have low: "?d mod 2 ^ 24 = 8 + offset" and high: "?d div 2 ^ 24 = (len + 24) div 8"
    using assms(1) by simp_all
  have units: "unat (drop_bit 24 (dma_tx_descriptor offset len)) = (len + 24) div 8"
    using high by (simp add: drop_bit_eq_div unat_div)
  have "16 + len \<le> 8 * ((len + 24) div 8)" by linarith
  moreover have "8 + 8 * ((len + 24) div 8) \<le> 2048"
    using assms(2) by (simp add: MAX_PAYLOAD_SIZE_eq)
  ultimately show ?thesis
    using low unfolding units by (simp add: layout)
qed

theorem dma_tx_descriptor_decode_witness:
  "unat (dma_tx_descriptor 0x1000 60) mod 2 ^ 24 = 0x1000 + dma_length"
  using dma_tx_descriptor_decode [of "0x1000" 60] by (simp add: MAX_PAYLOAD_SIZE_eq)

text \<open>a frame of exactly \<open>MAX_PAYLOAD_SIZE\<close> bytes passes the length check of
  \<open>ccat_eth_start_xmit\<close>, but its length in 8-byte units is 256 and does not fit the 8-bit field:
  the descriptor announces a frame of no bytes at all.\<close>

theorem dma_tx_descriptor_overflow:
  "dma_tx_descriptor offset MAX_PAYLOAD_SIZE = of_nat (offset + dma_length) \<and>
   (offset + dma_length < 2 ^ 24 \<longrightarrow> drop_bit 24 (dma_tx_descriptor offset MAX_PAYLOAD_SIZE) = 0)"
proof -
  have d: "dma_tx_descriptor offset MAX_PAYLOAD_SIZE = of_nat (offset + dma_length)"
    by (simp add: dma_tx_descriptor_def MAX_PAYLOAD_SIZE_eq layout)
  have zero: "drop_bit 24 (of_nat n :: u32) = 0" if "n < 2 ^ 24" for n
    using that unat_of_nat_small [where 'a = 32, of n]
    by (simp add: drop_bit_eq_div unat_div flip: unat_eq_0)
  show ?thesis using zero [of "offset + dma_length"] unfolding d by blast
qed

theorem dma_tx_descriptor_overflow_witness:
  "drop_bit 24 (dma_tx_descriptor 0 MAX_PAYLOAD_SIZE) = 0"
  using dma_tx_descriptor_overflow [of 0] by (simp add: layout)

end
