(* ===== verification/Ccat_Netdev.thy ===== *)
theory Ccat_Netdev
  imports Ccat_Fifo
begin

text \<open>
  The network device of \<^verbatim>\<open>src/netdev.c\<close> (lines 79 to 224 and 538 to 784): transmit, the timer that
  polls link, receive and transmit fifos, the statistics, open and stop.

  The kernel's view of the device is the record \<open>net_device\<close>: whether its queue is stopped, whether
  its carrier is on, the frames it was handed with \<open>netif_rx\<close>, the buffers the driver freed, how many
  buffers were asked for, and its MAC address. The parameter \<open>skb_ok\<close> decides from the running number of the
  request and its size whether \<open>dev_alloc_skb\<close> returns a buffer.
\<close>

section \<open>State\<close>

record ccat_eth_register =
  reg_mii :: addr
  reg_mac :: addr
  reg_rx_mem :: addr
  reg_tx_mem :: addr
  reg_misc :: addr

record net_device =
  nd_stopped :: bool
  nd_carrier :: bool
  nd_rx :: "u8 list list"
  nd_freed :: "sk_buff list"
  nd_allocs :: nat
  nd_addr :: "u8 list"

text \<open>\<open>poll_timer\<close> is represented by whether the timer is started.\<close>

record ccat_eth_priv =
  p_func :: ccat_function
  p_netdev :: net_device
  p_reg :: ccat_eth_register
  p_rx_fifo :: "rx_ops ccat_eth_fifo"
  p_tx_fifo :: "tx_ops ccat_eth_fifo"
  p_timer :: bool

type_synonym skb_env = "nat \<Rightarrow> nat \<Rightarrow> bool"

definition netif_stop_queue :: "net_device \<Rightarrow> net_device" where
  "netif_stop_queue d = d\<lparr>nd_stopped := True\<rparr>"

definition netif_start_queue :: "net_device \<Rightarrow> net_device" where
  "netif_start_queue d = d\<lparr>nd_stopped := False\<rparr>"

definition netif_wake_queue :: "net_device \<Rightarrow> net_device" where
  "netif_wake_queue d = d\<lparr>nd_stopped := False\<rparr>"

definition netif_carrier_on :: "net_device \<Rightarrow> net_device" where
  "netif_carrier_on d = d\<lparr>nd_carrier := True\<rparr>"

definition netif_carrier_off :: "net_device \<Rightarrow> net_device" where
  "netif_carrier_off d = d\<lparr>nd_carrier := False\<rparr>"

definition dev_kfree_skb_any :: "sk_buff \<Rightarrow> net_device \<Rightarrow> net_device" where
  "dev_kfree_skb_any skb d = d\<lparr>nd_freed := nd_freed d @ [skb]\<rparr>"

definition netif_rx :: "u8 list \<Rightarrow> net_device \<Rightarrow> net_device" where
  "netif_rx bs d = d\<lparr>nd_rx := nd_rx d @ [bs]\<rparr>"

text \<open>The answer of \<open>dev_alloc_skb\<close>: whether it returned a buffer.\<close>

definition dev_alloc_skb :: "skb_env \<Rightarrow> nat \<Rightarrow> net_device \<Rightarrow> bool \<times> net_device" where
  "dev_alloc_skb skb_ok n d = (skb_ok (nd_allocs d) n, d\<lparr>nd_allocs := Suc (nd_allocs d)\<rparr>)"

lemmas netdev_defs = netif_stop_queue_def netif_start_queue_def netif_wake_queue_def netif_carrier_on_def
  netif_carrier_off_def dev_kfree_skb_any_def netif_rx_def dev_alloc_skb_def

abbreviation on_netdev :: "(net_device \<Rightarrow> net_device) \<Rightarrow> ccat_eth_priv \<Rightarrow> ccat_eth_priv" where
  "on_netdev g p \<equiv> p\<lparr>p_netdev := g (p_netdev p)\<rparr>"

abbreviation on_tx :: "(tx_ops ccat_eth_fifo \<Rightarrow> tx_ops ccat_eth_fifo) \<Rightarrow> ccat_eth_priv \<Rightarrow> ccat_eth_priv" where
  "on_tx g p \<equiv> p\<lparr>p_tx_fifo := g (p_tx_fifo p)\<rparr>"

abbreviation on_rx :: "(rx_ops ccat_eth_fifo \<Rightarrow> rx_ops ccat_eth_fifo) \<Rightarrow> ccat_eth_priv \<Rightarrow> ccat_eth_priv" where
  "on_rx g p \<equiv> p\<lparr>p_rx_fifo := g (p_rx_fifo p)\<rparr>"

section \<open>Transmit\<close>

datatype netdev_tx = NETDEV_TX_OK | NETDEV_TX_BUSY

text \<open>
  \<open>ready\<close> and \<open>queue\<close> are the members of the transmit fifo's operation table.
\<close>

definition start_xmit ::
  "(tx_ops ccat_eth_fifo \<Rightarrow> 'h machine \<Rightarrow> nat \<times> 'h machine) \<Rightarrow>
   (tx_ops ccat_eth_fifo \<Rightarrow> sk_buff \<Rightarrow> 'h machine \<Rightarrow> 'h machine) \<Rightarrow>
   sk_buff \<Rightarrow> ccat_eth_priv \<Rightarrow> 'h machine \<Rightarrow> netdev_tx \<times> ccat_eth_priv \<times> 'h machine" where
  "start_xmit ready queue skb p m =
     (if skb_is_nonlinear skb then
        (NETDEV_TX_OK, on_netdev (dev_kfree_skb_any skb) (on_tx (\<lambda>f. f\<lparr>f_dropped := f_dropped f + 1\<rparr>) p), m)
      else if MAX_PAYLOAD_SIZE < skb_len skb then
        (NETDEV_TX_OK, on_netdev (dev_kfree_skb_any skb) (on_tx (\<lambda>f. f\<lparr>f_dropped := f_dropped f + 1\<rparr>) p), m)
      else
        let (r, m) = ready (p_tx_fifo p) m
        in if r = 0 then (NETDEV_TX_BUSY, on_netdev netif_stop_queue p, m)
           else
             let m = queue (p_tx_fifo p) skb m;
                 p = on_tx (\<lambda>f. f\<lparr>f_bytes := f_bytes f + of_nat (skb_len skb)\<rparr>) p;
                 p = on_netdev (dev_kfree_skb_any skb) p;
                 p = on_tx ccat_eth_fifo_inc p;
                 (r, m) = ready (p_tx_fifo p) m
             in (NETDEV_TX_OK, if r = 0 then on_netdev netif_stop_queue p else p, m))"

definition ccat_eth_start_xmit ::
  "'h mmio \<Rightarrow> sk_buff \<Rightarrow> ccat_eth_priv \<Rightarrow> 'h machine \<Rightarrow> netdev_tx \<times> ccat_eth_priv \<times> 'h machine" where
  "ccat_eth_start_xmit hw skb p m =
     start_xmit (tx_ready hw (reg_mac (p_reg p))) (tx_queue_skb hw) skb p m"

text \<open>The buffer \<open>dev_alloc_skb\<close> returned is used without a test; the result of the transmission is
  ignored.\<close>

definition ccat_eth_xmit_raw ::
  "'h mmio \<Rightarrow> skb_env \<Rightarrow> u8 list \<Rightarrow> ccat_eth_priv \<Rightarrow> 'h machine \<Rightarrow> (ccat_eth_priv \<times> 'h machine) exec" where
  "ccat_eth_xmit_raw hw skb_ok data p m =
     (let (ok, d) = dev_alloc_skb skb_ok (length data) (p_netdev p); p = p\<lparr>p_netdev := d\<rparr>
      in if \<not> ok then Inl NullDeref
         else let skb = \<lparr>skb_data = data, skb_paged = []\<rparr>
              in Inr (snd (ccat_eth_start_xmit hw skb p m)))"

definition frameForwardEthernetFrames :: "u8 list" where
  "frameForwardEthernetFrames =
     [0x01, 0x01, 0x05, 0x01, 0x00, 0x00,
      0x00, 0x1b, 0x21, 0x36, 0x1b, 0xce,
      0x88, 0xa4, 0x0e, 0x10,
      0x08,
      0x00,
      0x00, 0x00,
      0x00, 0x01,
      0x02, 0x00,
      0x00, 0x00,
      0x00, 0x00,
      0x00, 0x00]"

section \<open>Receive\<close>

definition NET_IP_ALIGN :: nat where "NET_IP_ALIGN = 0"

definition ccat_eth_receive ::
  "(rx_ops ccat_eth_fifo \<Rightarrow> nat \<Rightarrow> 'h machine \<Rightarrow> u8 list \<times> 'h machine) \<Rightarrow> skb_env \<Rightarrow> nat \<Rightarrow>
     ccat_eth_priv \<Rightarrow> 'h machine \<Rightarrow> ccat_eth_priv \<times> 'h machine" where
  "ccat_eth_receive copy skb_ok len p m =
     (let (ok, d) = dev_alloc_skb skb_ok (len + NET_IP_ALIGN) (p_netdev p); p = p\<lparr>p_netdev := d\<rparr>
      in if \<not> ok then (on_rx (\<lambda>f. f\<lparr>f_dropped := f_dropped f + 1\<rparr>) p, m)
         else
           let (bs, m) = copy (p_rx_fifo p) len m;
               p = on_rx (\<lambda>f. f\<lparr>f_bytes := f_bytes f + of_nat len\<rparr>) p
           in (on_netdev (netif_rx bs) p, m))"

text \<open>The loop of \<open>poll_rx\<close>, \<open>while (len && --rx_per_poll)\<close>: \<open>n\<close> is \<open>rx_per_poll\<close> before its
  decrement (it never is 0 here, so the decrement does not wrap).\<close>

fun poll_rx_loop ::
  "(rx_ops ccat_eth_fifo \<Rightarrow> 'h machine \<Rightarrow> nat \<times> 'h machine) \<Rightarrow>
   (rx_ops ccat_eth_fifo \<Rightarrow> nat \<Rightarrow> 'h machine \<Rightarrow> u8 list \<times> 'h machine) \<Rightarrow>
   (rx_ops ccat_eth_fifo \<Rightarrow> 'h machine \<Rightarrow> 'h machine) \<Rightarrow> skb_env \<Rightarrow> nat \<Rightarrow> nat \<Rightarrow>
     ccat_eth_priv \<Rightarrow> 'h machine \<Rightarrow> ccat_eth_priv \<times> 'h machine" where
  "poll_rx_loop ready copy add skb_ok len 0 p m = (p, m)"
| "poll_rx_loop ready copy add skb_ok len (Suc n) p m =
     (if len \<noteq> 0 \<and> n \<noteq> 0 then
        let (p, m) = ccat_eth_receive copy skb_ok len p m;
            m = add (p_rx_fifo p) m;
            p = on_rx ccat_eth_fifo_inc p;
            (len, m) = ready (p_rx_fifo p) m
        in poll_rx_loop ready copy add skb_ok len n p m
      else (p, m))"

definition poll_rx_with ::
  "(rx_ops ccat_eth_fifo \<Rightarrow> 'h machine \<Rightarrow> nat \<times> 'h machine) \<Rightarrow>
   (rx_ops ccat_eth_fifo \<Rightarrow> nat \<Rightarrow> 'h machine \<Rightarrow> u8 list \<times> 'h machine) \<Rightarrow>
   (rx_ops ccat_eth_fifo \<Rightarrow> 'h machine \<Rightarrow> 'h machine) \<Rightarrow> skb_env \<Rightarrow>
     ccat_eth_priv \<Rightarrow> 'h machine \<Rightarrow> ccat_eth_priv \<times> 'h machine" where
  "poll_rx_with ready copy add skb_ok p m =
     (let (len, m) = ready (p_rx_fifo p) m
      in poll_rx_loop ready copy add skb_ok len (FIFO_LENGTH div 2) p m)"

definition poll_rx ::
  "'h mmio \<Rightarrow> skb_env \<Rightarrow> ccat_eth_priv \<Rightarrow> 'h machine \<Rightarrow> ccat_eth_priv \<times> 'h machine" where
  "poll_rx hw = poll_rx_with (rx_ready hw) (rx_copy hw) (rx_add hw)"

section \<open>Link, timer, open and stop\<close>

definition poll_tx :: "'h mmio \<Rightarrow> ccat_eth_priv \<Rightarrow> 'h machine \<Rightarrow> ccat_eth_priv \<times> 'h machine" where
  "poll_tx hw p m =
     (let (r, m) = tx_ready hw (reg_mac (p_reg p)) (p_tx_fifo p) m
      in (if r \<noteq> 0 then on_netdev netif_wake_queue p else p, m))"

definition ccat_eth_link_down :: "ccat_eth_priv \<Rightarrow> ccat_eth_priv" where
  "ccat_eth_link_down p = on_netdev netif_carrier_off (on_netdev netif_stop_queue p)"

definition ccat_eth_link_up ::
  "'h mmio \<Rightarrow> skb_env \<Rightarrow> ccat_eth_priv \<Rightarrow> 'h machine \<Rightarrow> (ccat_eth_priv \<times> 'h machine) exec" where
  "ccat_eth_link_up hw skb_ok p m =
     (let (rx, m) = ccat_eth_fifo_reset (rx_add hw) hw (p_rx_fifo p) m; p = p\<lparr>p_rx_fifo := rx\<rparr>;
          (tx, m) = ccat_eth_fifo_reset tx_add hw (p_tx_fifo p) m; p = p\<lparr>p_tx_fifo := tx\<rparr>
      in case ccat_eth_xmit_raw hw skb_ok frameForwardEthernetFrames p m of
           Inl e \<Rightarrow> Inl e
         | Inr (p, m) \<Rightarrow> Inr (on_netdev netif_start_queue (on_netdev netif_carrier_on p), m))"

definition ccat_eth_priv_read_link_state :: "'h mmio \<Rightarrow> ccat_eth_priv \<Rightarrow> 'h machine \<Rightarrow> bool \<times> 'h machine" where
  "ccat_eth_priv_read_link_state hw p m =
     (let (v, h) = ioread32 hw (reg_mii (p_reg p) + 0x8 + 4) (dev m)
      in (v AND push_bit 24 1 \<noteq> 0, m\<lparr>dev := h\<rparr>))"

definition poll_link ::
  "'h mmio \<Rightarrow> skb_env \<Rightarrow> ccat_eth_priv \<Rightarrow> 'h machine \<Rightarrow> (ccat_eth_priv \<times> 'h machine) exec" where
  "poll_link hw skb_ok p m =
     (let (link, m) = ccat_eth_priv_read_link_state hw p m
      in if link \<noteq> nd_carrier (p_netdev p) then
           if link then ccat_eth_link_up hw skb_ok p m else Inr (ccat_eth_link_down p, m)
         else Inr (p, m))"

text \<open>The callback always asks to be restarted.\<close>

definition poll_timer_callback ::
  "'h mmio \<Rightarrow> skb_env \<Rightarrow> ccat_eth_priv \<Rightarrow> 'h machine \<Rightarrow> (ccat_eth_priv \<times> 'h machine) exec" where
  "poll_timer_callback hw skb_ok p m =
     (case poll_link hw skb_ok p m of
        Inl e \<Rightarrow> Inl e
      | Inr (p, m) \<Rightarrow> let (p, m) = poll_rx hw skb_ok p m; (p, m) = poll_tx hw p m in Inr (p, m))"

definition ccat_eth_open :: "ccat_eth_priv \<Rightarrow> int \<times> ccat_eth_priv" where
  "ccat_eth_open p = (0, p\<lparr>p_timer := True\<rparr>)"

definition ccat_eth_stop :: "ccat_eth_priv \<Rightarrow> int \<times> ccat_eth_priv" where
  "ccat_eth_stop p = (0, (on_netdev netif_stop_queue p)\<lparr>p_timer := False\<rparr>)"

section \<open>Statistics\<close>

text \<open>\<open>struct ccat_mac_register\<close>: the members at the offsets of the struct, 121 bytes up to the last
  one and padded to 128 by the alignment of its 64-bit members.\<close>

record ccat_mac_register =
  mac_frame_len_err :: u8
  mac_rx_err :: u8
  mac_crc_err :: u8
  mac_link_lost_err :: u8
  mac_rx_mem_full :: u8
  mac_tx_frames :: u32
  mac_rx_frames :: u32
  mac_tx_fifo_level :: u8
  mac_tx_mem_full :: u8
  mac_mii_connected :: u8

definition sizeof_mac_register :: nat where "sizeof_mac_register = 128"

definition mac_register_of_bytes :: "u8 list \<Rightarrow> ccat_mac_register" where
  "mac_register_of_bytes bs =
     \<lparr>mac_frame_len_err = bs ! 0, mac_rx_err = bs ! 1, mac_crc_err = bs ! 2, mac_link_lost_err = bs ! 3,
      mac_rx_mem_full = bs ! 0x8, mac_tx_frames = le_word (field bs 0x10 4), mac_rx_frames = le_word (field bs 0x14 4),
      mac_tx_fifo_level = bs ! 0x20 AND 0x7F, mac_tx_mem_full = bs ! 0x28, mac_mii_connected = bs ! 0x78\<rparr>"

record rtnl_link_stats64 =
  st_rx_packets :: u64
  st_tx_packets :: u64
  st_rx_bytes :: u64
  st_tx_bytes :: u64
  st_rx_errors :: u64
  st_tx_errors :: u64
  st_rx_dropped :: u64
  st_tx_dropped :: u64
  st_rx_length_errors :: u64
  st_rx_over_errors :: u64
  st_rx_crc_errors :: u64
  st_rx_frame_errors :: u64
  st_rx_fifo_errors :: u64

text \<open>The sum of the four error counters is an \<open>int\<close> (at most 1020) before it is stored.\<close>

definition ccat_eth_get_stats64 :: "'h mmio \<Rightarrow> ccat_eth_priv \<Rightarrow> 'h machine \<Rightarrow> rtnl_link_stats64 \<times> 'h machine" where
  "ccat_eth_get_stats64 hw p m =
     (let (bs, h) = memcpy_fromio hw (reg_mac (p_reg p)) sizeof_mac_register (dev m);
          mac = mac_register_of_bytes bs
      in (\<lparr>st_rx_packets = ucast (mac_rx_frames mac),
           st_tx_packets = ucast (mac_tx_frames mac),
           st_rx_bytes = f_bytes (p_rx_fifo p),
           st_tx_bytes = f_bytes (p_tx_fifo p),
           st_rx_errors = of_nat (unat (mac_frame_len_err mac) + unat (mac_rx_mem_full mac) +
                                  unat (mac_crc_err mac) + unat (mac_rx_err mac)),
           st_tx_errors = ucast (mac_tx_mem_full mac),
           st_rx_dropped = f_dropped (p_rx_fifo p),
           st_tx_dropped = f_dropped (p_tx_fifo p),
           st_rx_length_errors = ucast (mac_frame_len_err mac),
           st_rx_over_errors = ucast (mac_rx_mem_full mac),
           st_rx_crc_errors = ucast (mac_crc_err mac),
           st_rx_frame_errors = ucast (mac_rx_err mac),
           st_rx_fifo_errors = ucast (mac_rx_mem_full mac)\<rparr>, m\<lparr>dev := h\<rparr>))"

section \<open>What a transmission does\<close>

text \<open>A buffer the driver can transmit: linear and not longer than a slot holds.\<close>

definition xmit_fits :: "sk_buff \<Rightarrow> bool" where
  "xmit_fits skb \<longleftrightarrow> \<not> skb_is_nonlinear skb \<and> skb_len skb \<le> MAX_PAYLOAD_SIZE"

lemma fifo_stat_simps [simp]:
  "f_bytes (ccat_eth_fifo_inc f) = f_bytes f" "f_dropped (ccat_eth_fifo_inc f) = f_dropped f"
  by simp_all

text \<open>Accounting holds for any operation table: every buffer not refused as busy is freed exactly
  once and counted either as transmitted bytes or as dropped.\<close>

lemma start_xmit_account:
  assumes "start_xmit ready queue skb p m = (r, p', m')"
  defines "accepted \<equiv> xmit_fits skb \<and> fst (ready (p_tx_fifo p) m) \<noteq> 0"
  shows "r = NETDEV_TX_BUSY \<longleftrightarrow> xmit_fits skb \<and> fst (ready (p_tx_fifo p) m) = 0"
    and "nd_freed (p_netdev p') = nd_freed (p_netdev p) @ (if r = NETDEV_TX_BUSY then [] else [skb])"
    and "f_bytes (p_tx_fifo p') = f_bytes (p_tx_fifo p) + (if accepted then of_nat (skb_len skb) else 0)"
    and "f_dropped (p_tx_fifo p') = f_dropped (p_tx_fifo p) + (if xmit_fits skb then 0 else 1)"
    and "nd_rx (p_netdev p') = nd_rx (p_netdev p) \<and> nd_carrier (p_netdev p') = nd_carrier (p_netdev p) \<and>
         nd_allocs (p_netdev p') = nd_allocs (p_netdev p) \<and> p_rx_fifo p' = p_rx_fifo p \<and>
         p_reg p' = p_reg p \<and> p_func p' = p_func p \<and> p_timer p' = p_timer p"
  using assms
  by (auto simp: start_xmit_def xmit_fits_def netdev_defs Let_def split: if_splits prod.splits)

context tx_fifo
begin

lemma xmit_refines:
  assumes inv: "inv (p_tx_fifo p) m" and run: "start_xmit ready queue skb p m = (r, p', m')"
  shows "inv (p_tx_fifo p') m' \<and>
    infl (p_tx_fifo p') m' =
      infl (p_tx_fifo p) m @ (if xmit_fits skb \<and> fst (ready (p_tx_fifo p) m) \<noteq> 0 then [skb_data skb] else [])"
proof (cases "xmit_fits skb \<and> fst (ready (p_tx_fifo p) m) \<noteq> 0")
  case True
  then obtain n m1 where r1: "ready (p_tx_fifo p) m = (n, m1)" "n \<noteq> 0" by (metis prod.collapse)
  let ?f = "ccat_eth_fifo_inc ((p_tx_fifo p)\<lparr>f_bytes := f_bytes (p_tx_fifo p) + of_nat (skb_len skb)\<rparr>)"
  let ?m = "queue (p_tx_fifo p) skb m1"
  have inc: "?f = (ccat_eth_fifo_inc (p_tx_fifo p))\<lparr>f_bytes := f_bytes (p_tx_fifo p) + of_nat (skb_len skb)\<rparr>"
    by (simp add: ccat_eth_fifo_inc_def Let_def)
  have q: "inv ?f ?m" "infl ?f ?m = infl (p_tx_fifo p) m @ [skb_data skb]"
    unfolding inc stats using queue_appends [OF inv r1] True by (simp_all add: xmit_fits_def)
  obtain k m2 where r2: "ready ?f ?m = (k, m2)" by fastforce
  have "p_tx_fifo p' = ?f \<and> m' = m2"
    using run r1 r2 True by (auto simp: start_xmit_def xmit_fits_def Let_def split: if_splits)
  then show ?thesis using ready_keeps [OF q(1) r2] q(2) True by simp
next
  case False
  obtain n m1 where r1: "ready (p_tx_fifo p) m = (n, m1)" by fastforce
  have "(p_tx_fifo p' = (p_tx_fifo p)\<lparr>f_dropped := f_dropped (p_tx_fifo p) + 1\<rparr> \<and> m' = m) \<or>
        (p_tx_fifo p' = p_tx_fifo p \<and> m' = m1)"
    using run r1 False by (auto simp: start_xmit_def xmit_fits_def split: if_splits)
  then show ?thesis using ready_keeps [OF inv r1] inv False stats by auto
qed

end

section \<open>What a receive poll does\<close>

text \<open>Of a list of frames, those for which the kernel has a buffer; \<open>n\<close> counts the requests.\<close>

fun deliver :: "skb_env \<Rightarrow> nat \<Rightarrow> u8 list list \<Rightarrow> u8 list list" where
  "deliver skb_ok n [] = []"
| "deliver skb_ok n (p # ps) = (if skb_ok n (length p + NET_IP_ALIGN) then [p] else []) @ deliver skb_ok (Suc n) ps"

text \<open>
  Handling the frames \<open>hs\<close>: each is passed to the stack or counted as dropped, in order, and only
  the receive fifo and the network device change.
\<close>

definition rx_counts :: "skb_env \<Rightarrow> u8 list list \<Rightarrow> ccat_eth_priv \<Rightarrow> ccat_eth_priv \<Rightarrow> bool" where
  "rx_counts skb_ok hs p p' \<longleftrightarrow>
     (let ds = deliver skb_ok (nd_allocs (p_netdev p)) hs
      in nd_rx (p_netdev p') = nd_rx (p_netdev p) @ ds \<and>
         nd_allocs (p_netdev p') = nd_allocs (p_netdev p) + length hs \<and>
         f_bytes (p_rx_fifo p') = f_bytes (p_rx_fifo p) + of_nat (sum_list (map length ds)) \<and>
         f_dropped (p_rx_fifo p') + of_nat (length ds) = f_dropped (p_rx_fifo p) + of_nat (length hs))"

definition rx_account :: "skb_env \<Rightarrow> u8 list list \<Rightarrow> ccat_eth_priv \<Rightarrow> ccat_eth_priv \<Rightarrow> bool" where
  "rx_account skb_ok hs p p' \<longleftrightarrow> rx_counts skb_ok hs p p' \<and>
     nd_freed (p_netdev p') = nd_freed (p_netdev p) \<and>
     nd_stopped (p_netdev p') = nd_stopped (p_netdev p) \<and> nd_carrier (p_netdev p') = nd_carrier (p_netdev p) \<and>
     p_tx_fifo p' = p_tx_fifo p \<and> p_reg p' = p_reg p \<and> p_func p' = p_func p \<and> p_timer p' = p_timer p"

lemma deliver_append: "deliver skb_ok n (hs @ gs) = deliver skb_ok n hs @ deliver skb_ok (n + length hs) gs"
  by (induction hs arbitrary: n) auto

lemma rx_counts_Nil [simp]: "rx_counts skb_ok [] p p"
  by (simp add: rx_counts_def)

lemma rx_counts_trans:
  assumes "rx_counts skb_ok hs p p1" and "rx_counts skb_ok gs p1 p2"
  shows "rx_counts skb_ok (hs @ gs) p p2"
proof -
  have "f_dropped (p_rx_fifo p2) + of_nat (length (deliver skb_ok (nd_allocs (p_netdev p1)) gs)) + of_nat (length (deliver skb_ok (nd_allocs (p_netdev p)) hs)) =
      f_dropped (p_rx_fifo p) + of_nat (length hs) + of_nat (length gs)"
    using assms by (simp add: rx_counts_def Let_def)
  then show ?thesis using assms by (simp add: rx_counts_def Let_def deliver_append algebra_simps)
qed

lemma rx_account_Nil [simp]: "rx_account skb_ok [] p p"
  by (simp add: rx_account_def)

lemma rx_account_trans:
  "rx_account skb_ok hs p p1 \<Longrightarrow> rx_account skb_ok gs p1 p2 \<Longrightarrow> rx_account skb_ok (hs @ gs) p p2"
  using rx_counts_trans by (auto simp: rx_account_def)

lemma rx_account_inc: "rx_account skb_ok hs p (on_rx ccat_eth_fifo_inc p') = rx_account skb_ok hs p p'"
  by (simp add: rx_account_def rx_counts_def)

context rx_fifo
begin

lemma receive_head:
  assumes inv: "inv (p_rx_fifo p) m" and pend: "pend (p_rx_fifo p) m = q # qs"
    and run: "ccat_eth_receive copy skb_ok (length q) p m = (p', m')"
  shows "rx_account skb_ok [q] p p'" and "inv (p_rx_fifo p') m'"
    and "\<exists>new. arr m' = arr m @ new \<and> pend (p_rx_fifo p') m' = q # qs @ new"
proof -
  obtain bs m1 where c: "copy (p_rx_fifo p) (length q) m = (bs, m1)" by fastforce
  note head = copy_head [OF inv pend c]
  show "rx_account skb_ok [q] p p'"
    using run head c by (auto simp: ccat_eth_receive_def rx_account_def rx_counts_def netdev_defs Let_def split: if_splits)
  have "(m' = m \<and> p_rx_fifo p' = (p_rx_fifo p)\<lparr>f_dropped := f_dropped (p_rx_fifo p) + 1\<rparr>) \<or>
     (m' = m1 \<and> p_rx_fifo p' = (p_rx_fifo p)\<lparr>f_bytes := f_bytes (p_rx_fifo p) + of_nat (length q)\<rparr>)"
    using run c by (auto simp: ccat_eth_receive_def netdev_defs Let_def split: if_splits)
  then show "inv (p_rx_fifo p') m'" and "\<exists>new. arr m' = arr m @ new \<and> pend (p_rx_fifo p') m' = q # qs @ new"
    using head inv pend stats by auto
qed

text \<open>One round of the loop: the oldest frame is handled and given back.\<close>

lemma poll_round:
  assumes inv: "inv (p_rx_fifo p) m" and pend: "pend (p_rx_fifo p) m = q # qs"
    and recv: "ccat_eth_receive copy skb_ok (length q) p m = (p1, m1)"
    and rdy: "ready (ccat_eth_fifo_inc (p_rx_fifo p1)) (add (p_rx_fifo p1) m1) = (len, m2)"
  shows "inv (ccat_eth_fifo_inc (p_rx_fifo p1)) m2"
    and "\<exists>new. arr m2 = arr m @ new \<and> pend (ccat_eth_fifo_inc (p_rx_fifo p1)) m2 = qs @ new"
proof -
  note h = receive_head [OF inv pend recv]
  obtain new1 where n1: "arr m1 = arr m @ new1" "pend (p_rx_fifo p1) m1 = q # qs @ new1" using h(3) by blast
  then obtain new2 where a: "arr (add (p_rx_fifo p1) m1) = arr m1 @ new2" "inv (ccat_eth_fifo_inc (p_rx_fifo p1)) (add (p_rx_fifo p1) m1)"
    "pend (ccat_eth_fifo_inc (p_rx_fifo p1)) (add (p_rx_fifo p1) m1) = (qs @ new1) @ new2"
    using add_tail [OF h(2)] by blast
  obtain new3 where r: "arr m2 = arr (add (p_rx_fifo p1) m1) @ new3" "inv (ccat_eth_fifo_inc (p_rx_fifo p1)) m2"
    "pend (ccat_eth_fifo_inc (p_rx_fifo p1)) m2 = ((qs @ new1) @ new2) @ new3"
    using ready_keeps [OF a(2) rdy] a(3) by auto
  show "inv (ccat_eth_fifo_inc (p_rx_fifo p1)) m2" by (rule r(2))
  show "\<exists>new. arr m2 = arr m @ new \<and> pend (ccat_eth_fifo_inc (p_rx_fifo p1)) m2 = qs @ new"
    using n1 a(1) r(1,3) by (intro exI [of _ "new1 @ new2 @ new3"]) simp
qed

lemma ready_head:
  assumes "inv f m" and "ready f m = (len, m')"
  shows "len = 0 \<and> pend f m' = [] \<or> (\<exists>q qs. pend f m' = q # qs \<and> len = length q \<and> q \<noteq> [])"
  using assms ready_none [of f m m'] ready_some [of f m _ m'] by (cases len) fastforce+

lemma poll_loop:
  assumes "inv (p_rx_fifo p) m"
    and "len = 0 \<and> pend (p_rx_fifo p) m = [] \<or> (\<exists>q qs. pend (p_rx_fifo p) m = q # qs \<and> len = length q \<and> q \<noteq> [])"
    and "poll_rx_loop ready copy add skb_ok len (Suc n) p m = (p', m')"
  shows "\<exists>hs new. arr m' = arr m @ new \<and> inv (p_rx_fifo p') m' \<and> rx_account skb_ok hs p p' \<and>
    hs @ pend (p_rx_fifo p') m' = pend (p_rx_fifo p) m @ new \<and> length hs \<le> n \<and>
    (length hs = n \<or> pend (p_rx_fifo p') m' = [])"
  using assms
proof (induction n arbitrary: len p m)
  case 0
  then show ?case by (intro exI [of _ "[]"]) simp
next
  case (Suc n)
  show ?case
  proof (cases "len = 0")
    case True
    then have "p' = p" "m' = m" "pend (p_rx_fifo p) m = []" using Suc.prems by auto
    then show ?thesis using Suc.prems(1) by (intro exI [of _ "[]"]) simp
  next
    case False
    then obtain q qs where q: "pend (p_rx_fifo p) m = q # qs" "len = length q" "q \<noteq> []"
      using Suc.prems(2) by blast
    obtain p1 m1 where recv: "ccat_eth_receive copy skb_ok (length q) p m = (p1, m1)" by fastforce
    define p2 where "p2 = on_rx ccat_eth_fifo_inc p1"
    obtain len2 m2 where rdy: "ready (ccat_eth_fifo_inc (p_rx_fifo p1)) (add (p_rx_fifo p1) m1) = (len2, m2)"
      by fastforce
    have run: "poll_rx_loop ready copy add skb_ok len2 (Suc n) p2 m2 = (p', m')"
      using Suc.prems(3) False recv rdy by (simp add: q p2_def Let_def)
    have rx2: "p_rx_fifo p2 = ccat_eth_fifo_inc (p_rx_fifo p1)" by (simp add: p2_def)
    obtain new where rnd: "arr m2 = arr m @ new" "inv (p_rx_fifo p2) m2" "pend (p_rx_fifo p2) m2 = qs @ new"
      using poll_round [OF Suc.prems(1) q(1) recv rdy] by (auto simp: rx2)
    have acc: "rx_account skb_ok [q] p p2"
      using receive_head(1) [OF Suc.prems(1) q(1) recv] by (simp add: p2_def rx_account_inc)
    have "inv (ccat_eth_fifo_inc (p_rx_fifo p1)) (add (p_rx_fifo p1) m1)"
      using receive_head(2,3) [OF Suc.prems(1) q(1) recv] add_tail by fastforce
    from Suc.IH [OF rnd(2) ready_head [OF this rdy, folded rx2] run]
    obtain hs new2 where "arr m' = arr m2 @ new2" "inv (p_rx_fifo p') m'" "rx_account skb_ok hs p2 p'"
      "hs @ pend (p_rx_fifo p') m' = qs @ new @ new2" "length hs \<le> n"
      "length hs = n \<or> pend (p_rx_fifo p') m' = []"
      by (auto simp: rnd(3))
    then show ?thesis
      using rx_account_trans [OF acc] q(1) rnd(1) by (intro exI [of _ "q # hs"] exI [of _ "new @ new2"]) simp
  qed
qed

lemma poll_conserves:
  assumes inv: "inv (p_rx_fifo p) m" and run: "poll_rx_with ready copy add skb_ok p m = (p', m')"
  shows "\<exists>hs new. arr m' = arr m @ new \<and> inv (p_rx_fifo p') m' \<and> rx_account skb_ok hs p p' \<and>
    hs @ pend (p_rx_fifo p') m' = pend (p_rx_fifo p) m @ new \<and> length hs \<le> 31 \<and>
    (length hs = 31 \<or> pend (p_rx_fifo p') m' = [])"
proof -
  obtain len m1 where rdy: "ready (p_rx_fifo p) m = (len, m1)" by fastforce
  then obtain new where new: "arr m1 = arr m @ new" "pend (p_rx_fifo p) m1 = pend (p_rx_fifo p) m @ new" "inv (p_rx_fifo p) m1"
    using ready_keeps [OF inv rdy] by blast
  have "poll_rx_loop ready copy add skb_ok len (Suc 31) p m1 = (p', m')"
    using run rdy by (simp add: poll_rx_with_def FIFO_LENGTH_def)
  from poll_loop [OF new(3) ready_head [OF inv rdy] this] show ?thesis
    unfolding new(1,2) by (metis append_assoc)
qed

end

section \<open>Receive: conservation of frames\<close>

lemma split_at_31:
  assumes "hs @ rest = xs" and "length hs \<le> n" and "length hs = n \<or> rest = []"
  shows "hs = take n xs" and "rest = drop n xs"
  using assms by auto

text \<open>Example device: two slots in each ring, the receive ring at 0x1000, the transmit ring at
  0x3000.\<close>

definition eth_priv0 :: ccat_eth_priv where
  "eth_priv0 =
    (let d = \<lparr>dm_size = 0, dm_phys = 0, dm_dev = 0, dm_base = 0\<rparr>
     in \<lparr>p_func = \<lparr>func_ccat = \<lparr>bar_0 = 0, bar_2 = 0\<rparr>,
           func_info = \<lparr>info_type = 0x14, info_rev = 0, info_config = 0, info_addr = 0, info_size = 0\<rparr>\<rparr>,
         p_netdev = \<lparr>nd_stopped = False, nd_carrier = True, nd_rx = [], nd_freed = [], nd_allocs = 0, nd_addr = [2, 0, 0, 0, 0, 1]\<rparr>,
         p_reg = \<lparr>reg_mii = 0x100, reg_mac = 0x200, reg_rx_mem = 0x300, reg_tx_mem = 0x400, reg_misc = 0x500\<rparr>,
         p_rx_fifo = \<lparr>f_ops = Dma_Rx, f_end = 0x1800, f_reg = 0x600, f_bytes = 0, f_dropped = 0, f_dma_mem = d,
                      f_next = 0x1000, f_start = 0x1000\<rparr>,
         p_tx_fifo = \<lparr>f_ops = Dma_Tx, f_end = 0x3800, f_reg = 0x700, f_bytes = 0, f_dropped = 0, f_dma_mem = d,
                      f_next = 0x3000, f_start = 0x3000\<rparr>, p_timer = True\<rparr>)"

text \<open>A machine whose host memory holds the byte \<open>b\<close> everywhere and whose device is plain memory.\<close>

definition machine0 :: "u8 \<Rightarrow> memory machine" where
  "machine0 b = \<lparr>ram = (\<lambda>_. b), dev = (\<lambda>_. 0)\<rparr>"

lemma mem_read_const: "mem_read (\<lambda>_. b) a n = replicate n b"
  by (simp add: mem_read_def map_replicate_const)

lemma machine0_read:
  "ram_read32 (machine0 1) a = 0x01010101" "ram_read16 (machine0 1) a = 0x0101"
proof -
  have r: "replicate 4 (1 :: u8) = [1, 1, 1, 1]" "replicate 2 (1 :: u8) = [1, 1]"
    by (simp_all add: numeral_eq_Suc)
  show "ram_read32 (machine0 1) a = 0x01010101" "ram_read16 (machine0 1) a = 0x0101"
    by (simp_all add: machine0_def mem_read_const le_word_def r)
qed

lemmas eth_priv0_defs = eth_priv0_def Let_def ring_wf_def nslots_def ring_order_def cursor_def slot_def layout

text \<open>Both slots of its receive ring hold a frame of 253 bytes.\<close>

lemma eth_priv0_rx_len: "rx_len (p_rx_fifo eth_priv0) (machine0 1) i = 253"
  by (simp add: rx_len_def fifo_dma_rx_ready_def machine0_read CCAT_FRAME_RECEIVED_def layout Let_def)

lemma eth_priv0_rx:
  "dma_rx_inv (p_rx_fifo eth_priv0) (machine0 1)"
  "dma_pending (p_rx_fifo eth_priv0) (machine0 1) = [replicate 253 1, replicate 253 1]"
proof -
  have ro: "ring_order (p_rx_fifo eth_priv0) = [0, 1]" by (simp add: eth_priv0_defs upt_rec)
  show "dma_rx_inv (p_rx_fifo eth_priv0) (machine0 1)"
    by (simp add: dma_rx_inv_def eth_priv0_rx_len MAX_PAYLOAD_SIZE_eq) (simp add: eth_priv0_defs)
  show "dma_pending (p_rx_fifo eth_priv0) (machine0 1) = [replicate 253 1, replicate 253 1]"
    by (simp add: dma_pending_def ro rx_frame_def eth_priv0_rx_len) (simp add: machine0_def mem_read_const)
qed

text \<open>C14: one run of \<open>poll_rx\<close> on the DMA ring handles the oldest 31 frames the device has filled, or
  all of them if there are fewer, in order: each is passed to the network stack with the bytes the
  device stored, or counted as dropped when there is no buffer for it, and every slot it used is
  given back; the byte and drop counters account for exactly these frames.\<close>

theorem poll_rx_dma_delivers:
  assumes "dma_rx_inv (p_rx_fifo p) m" and "poll_rx hw skb_ok p m = (p', m')"
  shows "rx_account skb_ok (take 31 (dma_pending (p_rx_fifo p) m)) p p' \<and>
    dma_pending (p_rx_fifo p') m' = drop 31 (dma_pending (p_rx_fifo p) m) \<and> dma_rx_inv (p_rx_fifo p') m'"
proof -
  obtain hs where hs: "dma_rx_inv (p_rx_fifo p') m'" "rx_account skb_ok hs p p'"
    "hs @ dma_pending (p_rx_fifo p') m' = dma_pending (p_rx_fifo p) m" "length hs \<le> 31"
    "length hs = 31 \<or> dma_pending (p_rx_fifo p') m' = []"
    using dma_rx.poll_conserves [OF assms(1) assms(2) [unfolded poll_rx_def]] by auto
  then show ?thesis using split_at_31 [OF hs(3-5)] by simp
qed

theorem poll_rx_dma_delivers_witness:
  "nd_rx (p_netdev (fst (poll_rx ram_bus (\<lambda>n k. n = 0) eth_priv0 (machine0 1)))) = [replicate 253 1]"
proof -
  obtain p' m' where run: "poll_rx ram_bus (\<lambda>n k. n = 0) eth_priv0 (machine0 1) = (p', m')" by fastforce
  have "nd_allocs (p_netdev eth_priv0) = 0" "nd_rx (p_netdev eth_priv0) = []" by (simp_all add: eth_priv0_def Let_def)
  then show ?thesis
    using poll_rx_dma_delivers [OF eth_priv0_rx(1) run] run by (simp add: eth_priv0_rx rx_account_def rx_counts_def)
qed

text \<open>C22: one run of \<open>poll_rx\<close> on an EIM fifo whose device obeys the window protocol neither loses,
  duplicates nor reorders a frame, even if frames arrive while it runs: the frames handled followed
  by those left are the ones present before followed by those the device received during the run; it
  handles at most 31 and stops earlier only when the device has none left.\<close>

theorem poll_rx_eim_conserves:
  assumes "eim_rx_inv hw q log (p_rx_fifo p) m" and "poll_rx hw skb_ok p m = (p', m')"
  shows "\<exists>hs new. eim_rx_inv hw q log (p_rx_fifo p') m' \<and> rx_account skb_ok hs p p' \<and>
    log (dev m') = log (dev m) @ new \<and> hs @ q (dev m') = q (dev m) @ new \<and>
    length hs \<le> 31 \<and> (length hs = 31 \<or> q (dev m') = [])"
  using eim_rx.poll_conserves [OF assms(1) assms(2) [unfolded poll_rx_def]] by (auto simp: eim_pending_def)

text \<open>An EIM device that has received frames of one byte each; its state is the list of those pending and
  the list of all. One more arrives with the first release of a frame.\<close>

definition eim_device :: "(u8 list \<times> u8 list) mmio" where
  "eim_device = \<lparr>ioread8 = (\<lambda>a h. (0, h)),
     ioread16 = (\<lambda>a h. (if fst h = [] then 0 else 17, h)),
     ioread32 = (\<lambda>a h. (0, h)),
     memcpy_fromio = (\<lambda>a n h. (take n (fst h), h)),
     iowrite8 = (\<lambda>v a h. h),
     iowrite16 = (\<lambda>v a (ps, l). if length l = 2 then (tl ps @ [5], l @ [5]) else (tl ps, l)),
     iowrite32 = (\<lambda>v a h. h),
     memcpy_toio = (\<lambda>a bs h. h),
     schedule = (\<lambda>h. h)\<rparr>"

definition eim_rx_priv :: ccat_eth_priv where
  "eim_rx_priv = eth_priv0\<lparr>p_rx_fifo := (p_rx_fifo eth_priv0)\<lparr>f_ops := Eim_Rx, f_end := 0x1000\<rparr>\<rparr>"

lemma eim_device_law: "eim_rx_law eim_device (\<lambda>h. map (\<lambda>b. [b]) (fst h)) (\<lambda>h. map (\<lambda>b. [b]) (snd h)) base"
  by (auto simp: eim_rx_law_def eim_device_def sizeof_eim_hdr_def split: list.split)

lemma poll_rx_loop_numeral:
  "poll_rx_loop ready copy add skb_ok len (numeral v) p m =
     (if len \<noteq> 0 \<and> pred_numeral v \<noteq> 0 then
        let (p, m) = ccat_eth_receive copy skb_ok len p m;
            m = add (p_rx_fifo p) m;
            p = on_rx ccat_eth_fifo_inc p;
            (len, m) = ready (p_rx_fifo p) m
        in poll_rx_loop ready copy add skb_ok len (pred_numeral v) p m
      else (p, m))"
  unfolding numeral_eq_Suc by (rule poll_rx_loop.simps)

lemma eim_device_poll:
  "dev (snd (poll_rx eim_device (\<lambda>n k. n \<noteq> 1) eim_rx_priv \<lparr>ram = \<lambda>_. 0, dev = ([7, 9], [7, 9])\<rparr>)) = ([], [7, 9, 5])"
  by (simp add: poll_rx_def poll_rx_with_def FIFO_LENGTH_def poll_rx_loop_numeral eim_rx_priv_def eth_priv0_def Let_def eim_device_def
      rx_ready_def fifo_eim_rx_ready_def eim_length_def rx_copy_def rx_add_def fifo_eim_rx_add_def fifo_eim_copy_to_linear_skb_def
      ccat_eth_receive_def netdev_defs sizeof_eim_hdr_def ccat_eth_fifo_inc_def layout)

theorem poll_rx_eim_conserves_witness:
  "nd_rx (p_netdev (fst (poll_rx eim_device (\<lambda>n k. n \<noteq> 1) eim_rx_priv \<lparr>ram = \<lambda>_. 0, dev = ([7, 9], [7, 9])\<rparr>))) = [[7], [5]]"
proof -
  let ?m = "\<lparr>ram = \<lambda>_. 0, dev = ([7, 9], [7, 9])\<rparr> :: (u8 list \<times> u8 list) machine"
  obtain p' m' where run: "poll_rx eim_device (\<lambda>n k. n \<noteq> 1) eim_rx_priv ?m = (p', m')" by fastforce
  have end_state: "dev m' = ([], [7, 9, 5])" using eim_device_poll run by simp
  have inv: "eim_rx_inv eim_device (\<lambda>h. map (\<lambda>b. [b]) (fst h)) (\<lambda>h. map (\<lambda>b. [b]) (snd h)) (p_rx_fifo eim_rx_priv) ?m"
    by (simp add: eim_rx_inv_def eim_device_law eim_rx_priv_def eth_priv0_def Let_def)
  from poll_rx_eim_conserves [OF inv run] have "rx_account (\<lambda>n k. n \<noteq> 1) [[7], [9], [5]] eim_rx_priv p'"
    by (auto simp: end_state)
  then show ?thesis using run by (simp add: rx_account_def rx_counts_def eim_rx_priv_def eth_priv0_def Let_def)
qed

section \<open>Transmit: the DMA ring\<close>

lemma dma_tx_ready_eq:
  "f_ops f = Dma_Tx \<Longrightarrow> ring_wf f \<Longrightarrow> tx_ready hw mac f m = (if tx_sent f m (cursor f) then 1 else 0, m)"
  by (simp add: tx_ready_def fifo_dma_tx_ready_def tx_sent_def ring_next CCAT_FRAME_SENT_def and_one_eq mod_2_eq_odd)

lemma xmit_dma_queue_state:
  assumes inv: "tx_inv (p_tx_fifo p) m" and run: "ccat_eth_start_xmit hw skb p m = (r, p', m')"
  shows "nd_stopped (p_netdev p') \<longleftrightarrow> nd_stopped (p_netdev p) \<or>
    (xmit_fits skb \<and> \<not> tx_sent (p_tx_fifo p') m' (cursor (p_tx_fifo p')))"
proof -
  have "f_ops (p_tx_fifo p) = Dma_Tx" "ring_wf (p_tx_fifo p)" using inv by (simp_all add: tx_inv_def)
  then show ?thesis
    using run
    by (auto simp: ccat_eth_start_xmit_def start_xmit_def xmit_fits_def dma_tx_ready_eq ring_inc(1) netdev_defs Let_def
        split: if_splits)
qed

lemma xmit_dma_inflight:
  assumes "tx_inv (p_tx_fifo p) m" and "ccat_eth_start_xmit hw skb p m = (r, p', m')"
  shows "tx_inv (p_tx_fifo p') m'"
    and "inflight (p_tx_fifo p') m' = inflight (p_tx_fifo p) m @
      (if xmit_fits skb \<and> tx_sent (p_tx_fifo p) m (cursor (p_tx_fifo p)) then [skb_data skb] else [])"
    and "r = NETDEV_TX_BUSY \<longleftrightarrow> xmit_fits skb \<and> \<not> tx_sent (p_tx_fifo p) m (cursor (p_tx_fifo p))"
proof -
  have ops: "f_ops (p_tx_fifo p) = Dma_Tx" and wf: "ring_wf (p_tx_fifo p)" using assms(1) by (simp_all add: tx_inv_def)
  note run = assms(2) [unfolded ccat_eth_start_xmit_def]
  show "tx_inv (p_tx_fifo p') m'"
    and "inflight (p_tx_fifo p') m' = inflight (p_tx_fifo p) m @
      (if xmit_fits skb \<and> tx_sent (p_tx_fifo p) m (cursor (p_tx_fifo p)) then [skb_data skb] else [])"
    and "r = NETDEV_TX_BUSY \<longleftrightarrow> xmit_fits skb \<and> \<not> tx_sent (p_tx_fifo p) m (cursor (p_tx_fifo p))"
    using dma_tx.xmit_refines [OF assms(1) run] start_xmit_account(1) [OF run]
    unfolding dma_tx_ready_eq [OF ops wf] by simp_all
qed

text \<open>C15: transmission on the DMA ring. A linear buffer that fits a slot is accepted exactly if the
  slot at the cursor is free; then its bytes become the youngest frame in flight, the frames in
  flight before are untouched, the byte counter grows by its length, and the queue is stopped if
  the next slot is not free. Otherwise nothing reaches the ring. A buffer is freed exactly once
  unless it is refused as busy, in which case the stack keeps it.\<close>

theorem xmit_dma_refines:
  assumes "tx_inv (p_tx_fifo p) m" and "ccat_eth_start_xmit hw skb p m = (r, p', m')"
  shows "tx_inv (p_tx_fifo p') m' \<and>
    inflight (p_tx_fifo p') m' = inflight (p_tx_fifo p) m @
      (if xmit_fits skb \<and> tx_sent (p_tx_fifo p) m (cursor (p_tx_fifo p)) then [skb_data skb] else []) \<and>
    (r = NETDEV_TX_BUSY \<longleftrightarrow> xmit_fits skb \<and> \<not> tx_sent (p_tx_fifo p) m (cursor (p_tx_fifo p))) \<and>
    nd_freed (p_netdev p') = nd_freed (p_netdev p) @ (if r = NETDEV_TX_BUSY then [] else [skb]) \<and>
    f_dropped (p_tx_fifo p') = f_dropped (p_tx_fifo p) + (if xmit_fits skb then 0 else 1) \<and>
    f_bytes (p_tx_fifo p') = f_bytes (p_tx_fifo p) +
      (if xmit_fits skb \<and> r = NETDEV_TX_OK then of_nat (skb_len skb) else 0) \<and>
    (nd_stopped (p_netdev p') \<longleftrightarrow> nd_stopped (p_netdev p) \<or>
      (xmit_fits skb \<and> \<not> tx_sent (p_tx_fifo p') m' (cursor (p_tx_fifo p'))))"
proof -
  note run = assms(2) [unfolded ccat_eth_start_xmit_def]
  have rdy: "fst (tx_ready hw mac (p_tx_fifo p) m) = 0 \<longleftrightarrow> \<not> tx_sent (p_tx_fifo p) m (cursor (p_tx_fifo p))" for mac
    using assms(1) by (simp add: tx_inv_def dma_tx_ready_eq)
  have "r = NETDEV_TX_OK \<longleftrightarrow> r \<noteq> NETDEV_TX_BUSY" by (cases r) auto
  then show ?thesis
    using xmit_dma_inflight [OF assms] start_xmit_account(2-4) [OF run] xmit_dma_queue_state [OF assms]
    unfolding rdy by (simp split: if_splits)
qed

lemma machine0_tx:
  "tx_sent (p_tx_fifo eth_priv0) (machine0 1) i" "tx_inv (p_tx_fifo eth_priv0) (machine0 1)"
  "inflight (p_tx_fifo eth_priv0) (machine0 1) = []"
proof -
  show sent: "tx_sent (p_tx_fifo eth_priv0) (machine0 1) i" for i
    by (simp add: tx_sent_def machine0_read CCAT_FRAME_SENT_def)
  show "inflight (p_tx_fifo eth_priv0) (machine0 1) = []" by (simp add: inflight_def sent)
  show "tx_inv (p_tx_fifo eth_priv0) (machine0 1)" by (simp add: tx_inv_def sent) (simp add: eth_priv0_defs)
qed

definition skb0 :: sk_buff where "skb0 = \<lparr>skb_data = [1, 2, 3], skb_paged = []\<rparr>"

lemma skb0_fits: "xmit_fits skb0"
  by (simp add: xmit_fits_def skb0_def skb_is_nonlinear_def skb_len_def MAX_PAYLOAD_SIZE_eq)

theorem xmit_dma_refines_witness:
  "case ccat_eth_start_xmit ram_bus skb0 eth_priv0 (machine0 1) of
     (r, p', m') \<Rightarrow> r = NETDEV_TX_OK \<and> inflight (p_tx_fifo p') m' = [[1, 2, 3]] \<and> nd_freed (p_netdev p') = [skb0]"
proof -
  obtain r p' m' where run: "ccat_eth_start_xmit ram_bus skb0 eth_priv0 (machine0 1) = (r, p', m')"
    by (metis prod.collapse)
  have "nd_freed (p_netdev eth_priv0) = []" by (simp add: eth_priv0_def Let_def)
  then show ?thesis
    using xmit_dma_refines [OF machine0_tx(2) run] by (cases r) (simp_all add: run machine0_tx skb0_fits, simp add: skb0_def)
qed

text \<open>C23: transmission on an EIM fifo whose device obeys the window protocol hands the device exactly
  the bytes of the buffer, after the frames queued before, when the fifo level reads as empty;
  otherwise the device's queue is unchanged.\<close>

theorem xmit_eim_refines:
  assumes "eim_tx_inv hw (reg_mac (p_reg p)) cells q (p_tx_fifo p) m"
    and "ccat_eth_start_xmit hw skb p m = (r, p', m')"
  shows "eim_tx_inv hw (reg_mac (p_reg p')) cells q (p_tx_fifo p') m' \<and>
    q (dev m') = q (dev m) @
      (if xmit_fits skb \<and> fst (ioread8 hw (reg_mac (p_reg p) + 0x20) (dev m)) AND 0x3F = 0 then [skb_data skb] else [])"
proof -
  note run = assms(2) [unfolded ccat_eth_start_xmit_def]
  have "fst (tx_ready hw (reg_mac (p_reg p)) (p_tx_fifo p) m) \<noteq> 0 \<longleftrightarrow>
    fst (ioread8 hw (reg_mac (p_reg p) + 0x20) (dev m)) AND 0x3F = 0"
    using assms(1) by (simp add: eim_tx_inv_def tx_ready_def fifo_eim_tx_ready_def split: prod.split)
  then show ?thesis
    using eim_tx.xmit_refines [OF assms(1) run] start_xmit_account(5) [OF run] by (simp add: eim_inflight_def)
qed

text \<open>An EIM device with its transmit window as storage and a queue of frames to send.\<close>

definition eim_tx_device :: "(memory \<times> u8 list list) mmio" where
  "eim_tx_device = \<lparr>ioread8 = (\<lambda>a h. (0, h)), ioread16 = (\<lambda>a h. (0, h)), ioread32 = (\<lambda>a h. (0, h)),
     memcpy_fromio = (\<lambda>a n (c, q). (mem_read c a n, (c, q))),
     iowrite8 = (\<lambda>v a h. h), iowrite16 = (\<lambda>v a h. h),
     iowrite32 = (\<lambda>v a (c, q). (c, if a = 0x700 then q @ [eim_frame_at c (0x3000 + unat v)] else q)),
     memcpy_toio = (\<lambda>a bs (c, q). (mem_write c a bs, q)),
     schedule = (\<lambda>h. h)\<rparr>"

lemma eim_tx_device_law: "eim_tx_law eim_tx_device fst snd 0x3000 len 0x700 level"
  by (auto simp: eim_tx_law_def eim_tx_device_def)

theorem xmit_eim_refines_witness:
  "case ccat_eth_start_xmit eim_tx_device skb0 (eth_priv0\<lparr>p_tx_fifo := (p_tx_fifo eth_priv0)\<lparr>f_ops := Eim_Tx\<rparr>\<rparr>)
       \<lparr>ram = (\<lambda>_. 0), dev = ((\<lambda>_. 0), [])\<rparr> of
     (r, p', m') \<Rightarrow> snd (dev m') = [[1, 2, 3]]"
proof -
  let ?p = "eth_priv0\<lparr>p_tx_fifo := (p_tx_fifo eth_priv0)\<lparr>f_ops := Eim_Tx\<rparr>\<rparr>"
  let ?m = "\<lparr>ram = (\<lambda>_. 0), dev = ((\<lambda>_. 0), [])\<rparr> :: (memory \<times> u8 list list) machine"
  obtain r p' m' where run: "ccat_eth_start_xmit eim_tx_device skb0 ?p ?m = (r, p', m')"
    by (metis prod.collapse)
  have "eim_tx_inv eim_tx_device (reg_mac (p_reg ?p)) fst snd (p_tx_fifo ?p) ?m"
    by (simp add: eim_tx_inv_def eim_tx_device_law eth_priv0_def Let_def ring_wf_def)
  from xmit_eim_refines [OF this run] have "snd (dev m') = [skb_data skb0]"
    using skb0_fits by (simp add: eim_tx_device_def)
  then show ?thesis by (simp add: run) (simp add: skb0_def)
qed

section \<open>Transmit: the slots in flight\<close>

lemma ring_order_distinct:
  assumes "ring_wf f"
  shows "distinct (ring_order f)"
proof -
  have "(cursor f + j) mod nslots f \<noteq> (cursor f + k) mod nslots f" if "j < k" "k < nslots f" for j k
    using fifo_ring.slots_differ [OF assms that] fifo_ring.iter [OF assms] by simp
  then have "inj_on (\<lambda>k. (cursor f + k) mod nslots f) {0..<nslots f}"
    by (intro inj_onI) (metis atLeastLessThan_iff linorder_neqE_nat)
  then show ?thesis by (simp add: ring_order_def distinct_map)
qed

text \<open>Setting a slot's sent flag changes no other view of the ring.\<close>

lemma set_sent_views:
  fixes i :: nat and m :: "'h machine"
  assumes inv: "tx_inv f m" and bit: "v AND CCAT_FRAME_SENT \<noteq> 0"
  defines "m' \<equiv> ram_store (slot f i + dma_tx_flags) (le_bytes 4 v) m"
  shows "tx_sent f m' i" and "j \<noteq> i \<Longrightarrow> tx_sent f m' j = tx_sent f m j" and "tx_length f m' j = tx_length f m j"
    and "j < nslots f \<Longrightarrow> \<not> tx_sent f m j \<Longrightarrow> tx_frame f m' j = tx_frame f m j" and "tx_inv f m'"
proof -
  have other: "mem_read (ram m') (slot f j + a) n = mem_read (ram m) (slot f j + a) n"
    if "j \<noteq> i \<and> a + n \<le> sizeof_eth_frame \<or> a + n \<le> dma_tx_flags \<or> dma_tx_flags + 4 \<le> a \<and> a + n \<le> sizeof_eth_frame" for a n j
  proof (cases "j = i")
    case True
    then show ?thesis using that unfolding m'_def machine_simps by (intro mem_read_write_disjoint) auto
  next
    case False
    then have "a + n \<le> sizeof_eth_frame" using that by (auto simp: layout)
    then show ?thesis using slot_disjoint [OF False, of a n dma_tx_flags 4 f] unfolding m'_def machine_simps
      by (intro mem_read_write_disjoint) (simp add: layout)
  qed
  show s: "tx_sent f m' i" using bit by (simp add: m'_def tx_sent_def mem_simps codec_simps)
  show s': "tx_sent f m' j = tx_sent f m j" if "j \<noteq> i" for j
    using that by (simp add: tx_sent_def other layout)
  show l: "tx_length f m' j = tx_length f m j" for j by (simp add: tx_length_def other layout)
  show "tx_frame f m' j = tx_frame f m j" if "j < nslots f" "\<not> tx_sent f m j"
  proof -
    have "tx_length f m j \<le> MAX_PAYLOAD_SIZE" using inv that by (simp add: tx_inv_def)
    then show ?thesis unfolding tx_frame_def l by (intro other) (simp add: layout MAX_PAYLOAD_SIZE_eq)
  qed
  show "tx_inv f m'" using inv s s' l unfolding tx_inv_def by metis
qed

lemma sent_oldest:
  assumes inv: "tx_inv f m" and bit: "v AND CCAT_FRAME_SENT \<noteq> 0"
    and old: "filter (\<lambda>i. \<not> tx_sent f m i) (ring_order f) = i # is"
  shows "inflight f m = tx_frame f m i # inflight f (ram_store (slot f i + dma_tx_flags) (le_bytes 4 v) m)"
proof -
  let ?m = "ram_store (slot f i + dma_tx_flags) (le_bytes 4 v) m"
  have wf: "ring_wf f" using inv by (simp add: tx_inv_def)
  have "distinct (i # is)" using ring_order_distinct [OF wf] old by (metis distinct_filter)
  then have ni: "i \<notin> set is" by simp
  have eq: "(\<not> tx_sent f ?m j) = (\<not> tx_sent f m j \<and> j \<noteq> i)" for j
    using set_sent_views(1) [OF inv bit, of i] set_sent_views(2) [OF inv bit, of j i] by (cases "j = i") simp_all
  have "filter (\<lambda>j. \<not> tx_sent f ?m j) (ring_order f) = filter (\<lambda>j. j \<noteq> i) (filter (\<lambda>j. \<not> tx_sent f m j) (ring_order f))"
    unfolding eq filter_filter by (rule refl)
  also have "\<dots> = is" using ni by (simp add: old) (metis (mono_tags, lifting) filter_True)
  finally have f: "filter (\<lambda>j. \<not> tx_sent f ?m j) (ring_order f) = is" .
  have "tx_frame f ?m j = tx_frame f m j" if "j \<in> set is" for j
  proof -
    have "j \<in> set (filter (\<lambda>i. \<not> tx_sent f m i) (ring_order f))" using that old by simp
    then show ?thesis using set_sent_views(4) [OF inv bit] ring_order_bound by auto
  qed
  then show ?thesis by (simp add: inflight_def old f)
qed

lemma tx_inv_dev [simp]:
  "tx_inv f (m\<lparr>dev := h\<rparr>) = tx_inv f m" "inflight f (m\<lparr>dev := h\<rparr>) = inflight f m"
  by (simp_all add: tx_inv_def inflight_def tx_sent_def tx_length_def tx_frame_def)

lemma poll_tx_keeps:
  assumes "tx_inv (p_tx_fifo p) m" and "poll_tx hw p m = (p', m')"
  shows "p_tx_fifo p' = p_tx_fifo p" and "m' = m"
    and "nd_stopped (p_netdev p') \<longleftrightarrow> nd_stopped (p_netdev p) \<and> \<not> tx_sent (p_tx_fifo p) m (cursor (p_tx_fifo p))"
  using assms by (auto simp: poll_tx_def tx_inv_def dma_tx_ready_eq netdev_defs split: if_splits)

section \<open>The whole device: the timer's callback\<close>

text \<open>The memory of a ring, and what it means for an operation to write only there.\<close>

definition in_ring :: "'o ccat_eth_fifo \<Rightarrow> addr \<Rightarrow> bool" where
  "in_ring f a \<longleftrightarrow> f_start f \<le> a \<and> a < f_start f + nslots f * sizeof_eth_frame"

definition outside_same :: "'o ccat_eth_fifo \<Rightarrow> 'h machine \<Rightarrow> 'h machine \<Rightarrow> bool" where
  "outside_same f m m' \<longleftrightarrow> (\<forall>a. \<not> in_ring f a \<longrightarrow> ram m' a = ram m a)"

definition rings_apart :: "ccat_eth_priv \<Rightarrow> bool" where
  "rings_apart p \<longleftrightarrow> (\<forall>a. \<not> (in_ring (p_rx_fifo p) a \<and> in_ring (p_tx_fifo p) a))"

lemma outside_same_refl [simp]: "outside_same f m m" "outside_same f m (m\<lparr>dev := h\<rparr>)"
  by (simp_all add: outside_same_def)

lemma outside_same_trans: "outside_same f m m1 \<Longrightarrow> outside_same f m1 m2 \<Longrightarrow> outside_same f m m2"
  by (simp add: outside_same_def)

lemma in_ring_upd [simp]:
  "in_ring (f\<lparr>f_bytes := b\<rparr>) = in_ring f" "in_ring (f\<lparr>f_dropped := b\<rparr>) = in_ring f"
  "in_ring (f\<lparr>f_next := a\<rparr>) = in_ring f" "in_ring (ccat_eth_fifo_inc f) = in_ring f"
  by (simp_all add: fun_eq_iff in_ring_def)

lemma slot_in_ring:
  assumes "i < nslots f" and "slot f i + k \<le> a" and "a < slot f i + sizeof_eth_frame"
  shows "in_ring f a"
proof -
  have "slot f i + sizeof_eth_frame = f_start f + Suc i * sizeof_eth_frame" by (simp add: slot_def)
  also have "\<dots> \<le> f_start f + nslots f * sizeof_eth_frame" using assms(1) by (intro add_left_mono mult_le_mono1) simp
  finally show ?thesis using assms(2,3) by (simp add: in_ring_def slot_def)
qed

lemma rx_add_outside:
  assumes "ring_wf f" and "f_ops f = Dma_Rx"
  shows "outside_same f m (rx_add hw f m)"
proof -
  have "in_ring f a" if "f_next f + dma_rx_flags \<le> a" "a < f_next f + dma_rx_flags + 4" for a
    using that ring_next [OF assms(1)] ring_inc(3) [OF assms(1)]
    by (intro slot_in_ring [of "cursor f" f dma_rx_flags]) (simp_all add: layout)
  then show ?thesis
    using assms(2) by (auto simp: outside_same_def rx_add_def ccat_eth_rx_fifo_dma_add_def mem_write_def Let_def)
qed

text \<open>Polling the receive ring writes host memory only there, and leaves the transmit side and the
  queue state alone.\<close>

definition rx_only :: "ccat_eth_priv \<Rightarrow> ccat_eth_priv \<Rightarrow> bool" where
  "rx_only p p' \<longleftrightarrow> p_tx_fifo p' = p_tx_fifo p \<and> p_reg p' = p_reg p \<and>
     nd_stopped (p_netdev p') = nd_stopped (p_netdev p) \<and> nd_carrier (p_netdev p') = nd_carrier (p_netdev p) \<and>
     in_ring (p_rx_fifo p') = in_ring (p_rx_fifo p) \<and> ring_wf (p_rx_fifo p') \<and> f_ops (p_rx_fifo p') = Dma_Rx"

lemma rx_only_trans: "rx_only p p1 \<Longrightarrow> rx_only p1 p2 \<Longrightarrow> rx_only p p2"
  by (simp add: rx_only_def)

lemma rx_pure:
  assumes "f_ops f = Dma_Rx"
  shows "snd (rx_ready hw f m) = m" and "snd (rx_copy hw f n m) = m"
  using assms by (simp_all add: rx_ready_def rx_copy_def fifo_dma_rx_ready_def fifo_dma_copy_to_linear_skb_def Let_def)

lemma receive_rx_only:
  assumes "rx_only p p" and "ccat_eth_receive (rx_copy hw) skb_ok len p m = (p', m')"
  shows "rx_only p p'" and "m' = m"
  using assms rx_pure(2) [of "p_rx_fifo p" hw len m]
  by (auto simp: ccat_eth_receive_def rx_only_def netdev_defs Let_def split: if_splits prod.splits)

lemma poll_rx_loop_frame:
  assumes "rx_only p p"
    and "poll_rx_loop (rx_ready hw) (rx_copy hw) (rx_add hw) skb_ok len n p m = (p', m')"
  shows "rx_only p p' \<and> outside_same (p_rx_fifo p) m m'"
  using assms
proof (induction n arbitrary: len p m)
  case (Suc n)
  show ?case
  proof (cases "len \<noteq> 0 \<and> n \<noteq> 0")
    case True
    obtain p1 m1 where recv: "ccat_eth_receive (rx_copy hw) skb_ok len p m = (p1, m1)" by fastforce
    note r = receive_rx_only [OF Suc.prems(1) recv]
    let ?p2 = "on_rx ccat_eth_fifo_inc p1"
    let ?m2 = "rx_add hw (p_rx_fifo p1) m1"
    obtain len2 m3 where rdy: "rx_ready hw (p_rx_fifo ?p2) ?m2 = (len2, m3)" by fastforce
    have wf: "ring_wf (p_rx_fifo p1)" "f_ops (p_rx_fifo p1) = Dma_Rx" using r(1) by (simp_all add: rx_only_def)
    have m3: "m3 = ?m2" using rx_pure(1) [of "p_rx_fifo ?p2" hw ?m2] rdy wf by simp
    have p2: "rx_only p ?p2" "rx_only ?p2 ?p2" using r(1) ring_inc(1) [OF wf(1)] by (simp_all add: rx_only_def)
    have "poll_rx_loop (rx_ready hw) (rx_copy hw) (rx_add hw) skb_ok len2 n ?p2 m3 = (p', m')"
      using Suc.prems(2) True recv rdy by (simp add: Let_def)
    note ih = Suc.IH [OF p2(2) this]
    have ring: "in_ring (p_rx_fifo p1) = in_ring (p_rx_fifo p)" using r(1) by (simp add: rx_only_def)
    have "outside_same (p_rx_fifo p) m ?m2" "outside_same (p_rx_fifo p) ?m2 m'"
      using rx_add_outside [OF wf, of m hw] ih r(2) ring by (simp_all add: outside_same_def m3)
    then show ?thesis using ih rx_only_trans [OF p2(1)] outside_same_trans by blast
  next
    case False
    then show ?thesis using Suc.prems by (auto split: if_splits)
  qed
qed simp

lemma poll_rx_frame:
  assumes "ring_wf (p_rx_fifo p)" and "f_ops (p_rx_fifo p) = Dma_Rx" and "poll_rx hw skb_ok p m = (p', m')"
  shows "rx_only p p'" and "outside_same (p_rx_fifo p) m m'"
proof -
  have "rx_only p p" using assms(1,2) by (simp add: rx_only_def)
  moreover obtain len where "poll_rx_loop (rx_ready hw) (rx_copy hw) (rx_add hw) skb_ok len (FIFO_LENGTH div 2) p m = (p', m')"
    using assms(3) rx_pure(1) [OF assms(2), of hw m] by (auto simp: poll_rx_def poll_rx_with_def split: prod.splits)
  ultimately show "rx_only p p'" "outside_same (p_rx_fifo p) m m'" using poll_rx_loop_frame by blast+
qed

lemma tx_views_cong:
  assumes "\<And>a. in_ring f a \<Longrightarrow> ram m' a = ram m a" and "i < nslots f"
  shows "tx_sent f m' i = tx_sent f m i" and "tx_length f m' i = tx_length f m i"
proof -
  have "mem_read (ram m') (slot f i + a) n = mem_read (ram m) (slot f i + a) n" if "a + n \<le> sizeof_eth_frame" for a n
  proof (rule mem_read_cong)
    fix x assume "slot f i + a \<le> x" "x < slot f i + a + n"
    then have "in_ring f x" using that by (intro slot_in_ring [OF assms(2), of a]) simp_all
    then show "ram m' x = ram m x" by (rule assms(1))
  qed
  then show "tx_sent f m' i = tx_sent f m i" and "tx_length f m' i = tx_length f m i"
    by (simp_all add: tx_sent_def tx_length_def layout)
qed

lemma tx_inv_cong:
  assumes "\<And>a. in_ring f a \<Longrightarrow> ram m' a = ram m a"
  shows "tx_inv f m' = tx_inv f m"
  using tx_views_cong [OF assms] by (auto simp: tx_inv_def)

lemma inflight_cong:
  assumes "\<And>a. in_ring f a \<Longrightarrow> ram m' a = ram m a" and "tx_inv f m"
  shows "inflight f m' = inflight f m"
proof -
  have "tx_frame f m' i = tx_frame f m i" if "i < nslots f" "\<not> tx_sent f m i" for i
  proof -
    have "tx_length f m i \<le> MAX_PAYLOAD_SIZE" using assms(2) that by (simp add: tx_inv_def)
    moreover have "tx_length f m' i = tx_length f m i" using assms(1) that(1) by (rule tx_views_cong(2))
    moreover have "ram m' a = ram m a" if "slot f i + sizeof_dma_hdr \<le> a" "a < slot f i + sizeof_eth_frame" for a
      using assms(1) slot_in_ring [OF \<open>i < nslots f\<close> that] by simp
    ultimately show ?thesis by (auto simp: tx_frame_def layout MAX_PAYLOAD_SIZE_eq intro!: mem_read_cong)
  qed
  moreover have "filter (\<lambda>i. \<not> tx_sent f m' i) (ring_order f) = filter (\<lambda>i. \<not> tx_sent f m i) (ring_order f)"
    using tx_views_cong(1) [OF assms(1)] ring_order_bound by (intro filter_cong) auto
  ultimately show ?thesis using ring_order_bound by (auto simp: inflight_def)
qed

text \<open>
  The invariant of a DMA device between operations: both rings are well formed and apart, and
  while the queue is awake the slot at the transmit cursor is free.
\<close>

definition eth_inv :: "ccat_eth_priv \<Rightarrow> 'h machine \<Rightarrow> bool" where
  "eth_inv p m \<longleftrightarrow> tx_inv (p_tx_fifo p) m \<and> 2 \<le> nslots (p_tx_fifo p) \<and>
     ring_wf (p_rx_fifo p) \<and> f_ops (p_rx_fifo p) = Dma_Rx \<and> rings_apart p \<and>
     (\<not> nd_stopped (p_netdev p) \<longrightarrow> tx_sent (p_tx_fifo p) m (cursor (p_tx_fifo p)))"

lemma eth_inv_rx:
  assumes inv: "eth_inv p m" and rx: "rx_only p p'" and mem: "outside_same (p_rx_fifo p) m m'"
  shows "eth_inv p' m'"
proof -
  have tx: "p_tx_fifo p' = p_tx_fifo p" using rx by (simp add: rx_only_def)
  have "ram m' a = ram m a" if "in_ring (p_tx_fifo p) a" for a
    using that mem inv by (auto simp: outside_same_def eth_inv_def rings_apart_def)
  note views = tx_views_cong(1) [OF this] tx_inv_cong [OF this]
  have "cursor (p_tx_fifo p) < nslots (p_tx_fifo p)"
    using inv by (intro ring_inc(3)) (simp add: eth_inv_def tx_inv_def)
  then show ?thesis
    using inv rx views by (simp add: eth_inv_def rx_only_def tx rings_apart_def)
qed

lemma xmit_keeps_ring:
  assumes "ccat_eth_start_xmit hw skb p m = (r, p', m')"
  shows "p_rx_fifo p' = p_rx_fifo p" "p_reg p' = p_reg p" "nslots (p_tx_fifo p') = nslots (p_tx_fifo p)"
    "in_ring (p_tx_fifo p') = in_ring (p_tx_fifo p)" "nd_carrier (p_netdev p') = nd_carrier (p_netdev p)"
  using assms
  by (auto simp: ccat_eth_start_xmit_def start_xmit_def netdev_defs Let_def split: if_splits prod.splits)

text \<open>Bringing the link up on DMA rings.\<close>

lemma xmit_dma_accept:
  assumes "tx_inv (p_tx_fifo p) m" and "tx_sent (p_tx_fifo p) m (cursor (p_tx_fifo p))" and "xmit_fits skb"
    and "ccat_eth_start_xmit hw skb p m = (r, p', m')"
  shows "p_tx_fifo p' = ccat_eth_fifo_inc ((p_tx_fifo p)\<lparr>f_bytes := f_bytes (p_tx_fifo p) + of_nat (skb_len skb)\<rparr>)"
    and "m' = fifo_dma_queue_skb hw (p_tx_fifo p) skb m"
  using assms
  by (auto simp: ccat_eth_start_xmit_def start_xmit_def xmit_fits_def tx_inv_def dma_tx_ready_eq ring_inc(1)
      tx_queue_skb_def Let_def split: if_splits)

lemma xmit_dma_next_slot:
  assumes inv: "tx_inv (p_tx_fifo p) m" and sent: "\<And>i. i < nslots (p_tx_fifo p) \<Longrightarrow> tx_sent (p_tx_fifo p) m i"
    and two: "2 \<le> nslots (p_tx_fifo p)" and fits: "xmit_fits skb"
    and run: "ccat_eth_start_xmit hw skb p m = (r, p', m')"
  shows "tx_sent (p_tx_fifo p') m' (cursor (p_tx_fifo p'))"
proof -
  let ?f = "p_tx_fifo p"
  have wf: "ring_wf ?f" using inv by (simp add: tx_inv_def)
  note eq = xmit_dma_accept [OF inv sent [OF ring_inc(3) [OF wf]] fits run]
  have c: "cursor (p_tx_fifo p') = Suc (cursor ?f) mod nslots ?f" using wf by (simp add: eq ring_inc(2))
  have ne: "Suc (cursor ?f) mod nslots ?f \<noteq> cursor ?f"
    using fifo_ring.slots_differ [OF wf, of 0 1] two ring_inc(2) [OF wf] by simp
  have "tx_sent ?f m' (Suc (cursor ?f) mod nslots ?f)"
    using queue_other_views(1) [OF inv _ _ ne, of skb hw] fits sent unfolding eq by (simp add: xmit_fits_def)
  then show ?thesis unfolding c by (simp add: eq(1))
qed

lemma forward_frame_fits: "xmit_fits \<lparr>skb_data = frameForwardEthernetFrames, skb_paged = []\<rparr>"
  by (simp add: xmit_fits_def skb_is_nonlinear_def skb_len_def frameForwardEthernetFrames_def MAX_PAYLOAD_SIZE_eq)

lemma link_up_dma:
  assumes tx: "f_ops (p_tx_fifo p) = Dma_Tx" "f_start (p_tx_fifo p) \<le> f_end (p_tx_fifo p)" "2 \<le> nslots (p_tx_fifo p)"
    and rx: "f_start (p_rx_fifo p) \<le> f_end (p_rx_fifo p)"
    and run: "ccat_eth_link_up hw skb_ok p m = Inr (p', m')"
  shows "tx_inv (p_tx_fifo p') m'" and "inflight (p_tx_fifo p') m' = [frameForwardEthernetFrames]"
    and "tx_sent (p_tx_fifo p') m' (cursor (p_tx_fifo p'))"
    and "\<not> nd_stopped (p_netdev p')" and "nd_carrier (p_netdev p')"
    and "p_rx_fifo p' = (p_rx_fifo p)\<lparr>f_next := f_start (p_rx_fifo p)\<rparr>"
    and "in_ring (p_tx_fifo p') = in_ring (p_tx_fifo p)" and "nslots (p_tx_fifo p') = nslots (p_tx_fifo p)"
proof -
  let ?skb = "\<lparr>skb_data = frameForwardEthernetFrames, skb_paged = []\<rparr>"
  obtain m1 where r1: "ccat_eth_fifo_reset (rx_add hw) hw (p_rx_fifo p) m = ((p_rx_fifo p)\<lparr>f_next := f_start (p_rx_fifo p)\<rparr>, m1)"
    using fifo_reset_eq [OF rx] by blast
  let ?f = "(p_tx_fifo p)\<lparr>f_next := f_start (p_tx_fifo p)\<rparr>"
  obtain m2 where r2: "ccat_eth_fifo_reset tx_add hw (p_tx_fifo p) m1 = (?f, m2)"
    using fifo_reset_eq [OF tx(2)] by blast
  have sent: "tx_sent ?f m2 i" if "i < nslots ?f" for i
    using tx_add_fold_sent [OF tx(1)] that r2 by (auto simp: fifo_reset_eq [OF tx(2)])
  let ?p = "p\<lparr>p_rx_fifo := (p_rx_fifo p)\<lparr>f_next := f_start (p_rx_fifo p)\<rparr>, p_tx_fifo := ?f,
    p_netdev := (p_netdev p)\<lparr>nd_allocs := Suc (nd_allocs (p_netdev p))\<rparr>\<rparr>"
  obtain r p3 m3 where x3: "ccat_eth_start_xmit hw ?skb ?p m2 = (r, p3, m3)" by (metis prod.collapse)
  then have p': "p' = on_netdev netif_start_queue (on_netdev netif_carrier_on p3)" and "m3 = m'"
    using run r1 r2
    by (auto simp: ccat_eth_link_up_def ccat_eth_xmit_raw_def dev_alloc_skb_def Let_def split: if_splits prod.splits sum.splits)
  note x = x3 [unfolded \<open>m3 = m'\<close>]
  have inv: "tx_inv (p_tx_fifo ?p) m2" "inflight (p_tx_fifo ?p) m2 = []"
    using tx_reset_inflight [OF tx(1,2) r2] by simp_all
  have cur: "tx_sent (p_tx_fifo ?p) m2 (cursor (p_tx_fifo ?p))"
    using sent [OF ring_inc(3) [OF fifo_reset_wf [OF tx(2)]]] by simp
  show "tx_inv (p_tx_fifo p') m'" "inflight (p_tx_fifo p') m' = [frameForwardEthernetFrames]"
    using xmit_dma_inflight(1,2) [OF inv(1) x] cur inv(2) forward_frame_fits by (simp_all add: p')
  have "tx_sent (p_tx_fifo p3) m' (cursor (p_tx_fifo p3))"
    using sent tx(3) by (intro xmit_dma_next_slot [OF inv(1) _ _ forward_frame_fits x]) simp_all
  then show "tx_sent (p_tx_fifo p') m' (cursor (p_tx_fifo p'))" by (simp add: p')
  show "p_rx_fifo p' = (p_rx_fifo p)\<lparr>f_next := f_start (p_rx_fifo p)\<rparr>"
    "in_ring (p_tx_fifo p') = in_ring (p_tx_fifo p)" "nslots (p_tx_fifo p') = nslots (p_tx_fifo p)"
    using xmit_keeps_ring [OF x] by (simp_all add: p')
qed (use run in \<open>auto simp: ccat_eth_link_up_def netdev_defs Let_def split: sum.splits prod.splits\<close>)

lemma read_link_state_eq:
  "ccat_eth_priv_read_link_state hw p m =
     (fst (ccat_eth_priv_read_link_state hw p m), m\<lparr>dev := snd (ioread32 hw (reg_mii (p_reg p) + 0x8 + 4) (dev m))\<rparr>)"
  by (simp add: ccat_eth_priv_read_link_state_def split: prod.split)

lemma link_up_carrier:
  "ccat_eth_link_up hw skb_ok p m = Inr (p', m') \<Longrightarrow> nd_carrier (p_netdev p') \<and> \<not> nd_stopped (p_netdev p')"
  by (auto simp: ccat_eth_link_up_def netdev_defs Let_def split: sum.splits prod.splits)

lemma poll_link_cases:
  assumes "poll_link hw skb_ok p m = Inr (p', m')" and "ccat_eth_priv_read_link_state hw p m = (link, m1)"
  obtains (up) "link" "ccat_eth_link_up hw skb_ok p m1 = Inr (p', m')"
    | (down) "\<not> link" "p' = ccat_eth_link_down p" "m' = m1"
    | (none) "link = nd_carrier (p_netdev p)" "p' = p" "m' = m1"
proof -
  have eq: "(if link \<noteq> nd_carrier (p_netdev p) then
      if link then ccat_eth_link_up hw skb_ok p m1 else Inr (ccat_eth_link_down p, m1) else Inr (p, m1)) = Inr (p', m')"
    using assms by (simp add: poll_link_def)
  show thesis
  proof (cases "link = nd_carrier (p_netdev p)")
    case True
    moreover from this have "p' = p" "m' = m1" using eq by simp_all
    ultimately show thesis by (rule none)
  next
    case False
    show thesis
    proof (cases link)
      case True
      then show thesis using eq False by (intro up) simp_all
    next
      case l: False
      then have "p' = ccat_eth_link_down p" "m' = m1" using eq False by simp_all
      with l show thesis by (rule down)
    qed
  qed
qed

lemma poll_link_carrier:
  assumes "poll_link hw skb_ok p m = Inr (p', m')"
  shows "nd_carrier (p_netdev p') = fst (ccat_eth_priv_read_link_state hw p m)"
proof -
  obtain link m1 where rd: "ccat_eth_priv_read_link_state hw p m = (link, m1)" by fastforce
  from assms rd show ?thesis
    by (cases rule: poll_link_cases) (simp_all add: rd link_up_carrier ccat_eth_link_down_def netdev_defs)
qed

lemma poll_link_keeps_inv:
  assumes inv: "eth_inv p m" and run: "poll_link hw skb_ok p m = Inr (p', m')"
  shows "eth_inv p' m'"
proof -
  obtain link h where rd: "ccat_eth_priv_read_link_state hw p m = (link, m\<lparr>dev := h\<rparr>)"
    using read_link_state_eq by (rule that)
  have refl: "rx_only p p" using inv by (simp add: eth_inv_def rx_only_def)
  have same: "eth_inv p (m\<lparr>dev := h\<rparr>)" by (rule eth_inv_rx [OF inv refl]) simp
  from run rd show ?thesis
  proof (cases rule: poll_link_cases)
    case up
    have wf: "f_ops (p_tx_fifo p) = Dma_Tx" "f_start (p_tx_fifo p) \<le> f_end (p_tx_fifo p)" "2 \<le> nslots (p_tx_fifo p)"
      "f_start (p_rx_fifo p) \<le> f_end (p_rx_fifo p)"
      using inv by (auto simp: eth_inv_def tx_inv_def ring_wf_def)
    note l = link_up_dma [OF wf up(2)]
    show ?thesis using inv l fifo_reset_wf [OF wf(4)] by (simp add: eth_inv_def rings_apart_def)
  next
    case down
    then show ?thesis using same by (simp add: eth_inv_def ccat_eth_link_down_def netdev_defs rings_apart_def)
  next
    case none
    then show ?thesis using same by simp
  qed
qed

lemma timer_keeps_inv:
  assumes inv: "eth_inv p m" and run: "poll_timer_callback hw skb_ok p m = Inr (p', m')"
  shows "eth_inv p' m'"
    and "nd_stopped (p_netdev p') \<longleftrightarrow> \<not> tx_sent (p_tx_fifo p') m' (cursor (p_tx_fifo p'))"
proof -
  obtain p1 m1 where l: "poll_link hw skb_ok p m = Inr (p1, m1)"
    using run by (auto simp: poll_timer_callback_def split: sum.splits)
  obtain p2 m2 where r: "poll_rx hw skb_ok p1 m1 = (p2, m2)" by fastforce
  have t: "poll_tx hw p2 m2 = (p', m')" using run l r by (auto simp: poll_timer_callback_def split: prod.splits)
  have i1: "eth_inv p1 m1" by (rule poll_link_keeps_inv [OF inv l])
  then have "ring_wf (p_rx_fifo p1)" "f_ops (p_rx_fifo p1) = Dma_Rx" by (simp_all add: eth_inv_def)
  note rx = poll_rx_frame [OF this r]
  have i2: "eth_inv p2 m2" by (rule eth_inv_rx [OF i1 rx])
  then have "tx_inv (p_tx_fifo p2) m2" by (simp add: eth_inv_def)
  note k = poll_tx_keeps [OF this t]
  have "p_rx_fifo p' = p_rx_fifo p2" using t by (auto simp: poll_tx_def split: prod.splits if_splits)
  then show "eth_inv p' m'" "nd_stopped (p_netdev p') \<longleftrightarrow> \<not> tx_sent (p_tx_fifo p') m' (cursor (p_tx_fifo p'))"
    using i2 k by (auto simp: eth_inv_def rings_apart_def)
qed

lemma le_word_zero_bytes: "le_word (replicate n 0) = 0"
proof -
  have "le_nat (replicate n 0) = 0" by (induction n) simp_all
  then show ?thesis by (simp add: le_word_def)
qed

lemma eth_priv0_inv: "eth_inv eth_priv0 (machine0 1)"
proof -
  have "rings_apart eth_priv0" by (auto simp: rings_apart_def in_ring_def eth_priv0_defs)
  then show ?thesis
    by (simp add: eth_inv_def machine0_tx) (simp add: eth_priv0_defs)
qed

text \<open>C26: after a run of the timer callback the queue is awake exactly if the slot at the transmit
  cursor is free, so a queue stopped on a full ring is woken by the first run that finds the slot
  sent; the carrier is the link bit the run read.\<close>

theorem timer_wakes_queue:
  assumes "eth_inv p m" and "poll_timer_callback hw skb_ok p m = Inr (p', m')"
  shows "(nd_stopped (p_netdev p') \<longleftrightarrow> \<not> tx_sent (p_tx_fifo p') m' (cursor (p_tx_fifo p'))) \<and>
    nd_carrier (p_netdev p') = fst (ccat_eth_priv_read_link_state hw p m) \<and> eth_inv p' m'"
proof -
  obtain p1 m1 where l: "poll_link hw skb_ok p m = Inr (p1, m1)"
    using assms(2) by (auto simp: poll_timer_callback_def split: sum.splits)
  obtain p2 m2 where r: "poll_rx hw skb_ok p1 m1 = (p2, m2)" by fastforce
  have t: "poll_tx hw p2 m2 = (p', m')" using assms(2) l r by (auto simp: poll_timer_callback_def split: prod.splits)
  have "ring_wf (p_rx_fifo p1)" "f_ops (p_rx_fifo p1) = Dma_Rx"
    using poll_link_keeps_inv [OF assms(1) l] by (simp_all add: eth_inv_def)
  then have "rx_only p1 p2" using poll_rx_frame(1) [OF _ _ r] by blast
  then have "nd_carrier (p_netdev p') = nd_carrier (p_netdev p1)"
    using t by (auto simp: rx_only_def poll_tx_def netdev_defs split: prod.splits if_splits)
  then show ?thesis using timer_keeps_inv [OF assms] poll_link_carrier [OF l] by simp
qed

theorem timer_wakes_queue_witness:
  "\<exists>p' m'. poll_timer_callback ram_bus (\<lambda>_ _. True) eth_priv0 (machine0 1) = Inr (p', m') \<and>
     \<not> nd_carrier (p_netdev p') \<and> eth_inv p' m'"
proof -
  have link: "ccat_eth_priv_read_link_state ram_bus eth_priv0 (machine0 1) = (False, machine0 1)"
    by (simp add: ccat_eth_priv_read_link_state_def ram_bus_def machine0_def mem_read_const le_word_zero_bytes)
  have "nd_carrier (p_netdev eth_priv0)" by (simp add: eth_priv0_def Let_def)
  then obtain p1 m1 where "poll_link ram_bus (\<lambda>_ _. True) eth_priv0 (machine0 1) = Inr (p1, m1)"
    by (simp add: poll_link_def link)
  then obtain p' m' where "poll_timer_callback ram_bus (\<lambda>_ _. True) eth_priv0 (machine0 1) = Inr (p', m')"
    by (cases "poll_rx ram_bus (\<lambda>_ _. True) p1 m1") (simp add: poll_timer_callback_def, metis prod.collapse)
  with timer_wakes_queue [OF eth_priv0_inv this] link show ?thesis by auto
qed

text \<open>C32: \<open>ccat_eth_link_up\<close> on DMA rings, given a buffer for the forward frame: carrier on, queue awake,
  every transmit slot free except the one that carries the frame that enables forwarding, and the
  receive cursor back at the start of its ring. Without a buffer it dereferences a null pointer.\<close>

theorem link_up_sends_forward_frame:
  assumes "f_ops (p_tx_fifo p) = Dma_Tx" and "f_start (p_tx_fifo p) \<le> f_end (p_tx_fifo p)"
    and "2 \<le> nslots (p_tx_fifo p)" and "f_start (p_rx_fifo p) \<le> f_end (p_rx_fifo p)"
  shows "case ccat_eth_link_up hw skb_ok p m of
      Inl e \<Rightarrow> e = NullDeref \<and> \<not> skb_ok (nd_allocs (p_netdev p)) (length frameForwardEthernetFrames)
    | Inr (p', m') \<Rightarrow> skb_ok (nd_allocs (p_netdev p)) (length frameForwardEthernetFrames) \<and>
        nd_carrier (p_netdev p') \<and> \<not> nd_stopped (p_netdev p') \<and> tx_inv (p_tx_fifo p') m' \<and>
        inflight (p_tx_fifo p') m' = [frameForwardEthernetFrames] \<and> f_next (p_rx_fifo p') = f_start (p_rx_fifo p)"
proof (cases "ccat_eth_link_up hw skb_ok p m")
  case (Inl e)
  then show ?thesis
    by (auto simp: ccat_eth_link_up_def ccat_eth_xmit_raw_def dev_alloc_skb_def Let_def split: prod.splits if_splits)
next
  case (Inr s)
  obtain p' m' where s: "s = (p', m')" by fastforce
  have "skb_ok (nd_allocs (p_netdev p)) (length frameForwardEthernetFrames)"
    using Inr by (auto simp: ccat_eth_link_up_def ccat_eth_xmit_raw_def dev_alloc_skb_def Let_def
        split: prod.splits if_splits)
  with link_up_dma [OF assms Inr [unfolded s]] show ?thesis by (simp add: Inr s)
qed

theorem link_up_sends_forward_frame_witness:
  "(\<exists>p' m'. ccat_eth_link_up ram_bus (\<lambda>_ _. True) eth_priv0 (machine0 0) = Inr (p', m') \<and>
     inflight (p_tx_fifo p') m' = [frameForwardEthernetFrames]) \<and>
   ccat_eth_link_up ram_bus (\<lambda>_ _. False) eth_priv0 (machine0 0) = Inl NullDeref"
proof -
  have h: "f_ops (p_tx_fifo eth_priv0) = Dma_Tx" "f_start (p_tx_fifo eth_priv0) \<le> f_end (p_tx_fifo eth_priv0)"
    "2 \<le> nslots (p_tx_fifo eth_priv0)" "f_start (p_rx_fifo eth_priv0) \<le> f_end (p_rx_fifo eth_priv0)"
    by (simp_all add: eth_priv0_defs)
  show ?thesis
    using link_up_sends_forward_frame [OF h, of "\<lambda>_ _. True" ram_bus "machine0 0"]
      link_up_sends_forward_frame [OF h, of "\<lambda>_ _. False" ram_bus "machine0 0"] by (auto split: sum.splits)
qed

section \<open>Statistics and the fifo level\<close>

text \<open>the statistics are consistent: the receive errors are the sum of the four detailed counters
  (each a byte, so the sum cannot wrap), a full receive memory is reported both as overflow and as
  fifo error, and bytes and drops are the fifos' own counters.\<close>

theorem stats_consistent:
  assumes "ccat_eth_get_stats64 hw p m = (s, m')"
  shows "unat (st_rx_errors s) = unat (st_rx_length_errors s) + unat (st_rx_over_errors s) +
      unat (st_rx_crc_errors s) + unat (st_rx_frame_errors s) \<and>
    st_rx_fifo_errors s = st_rx_over_errors s \<and>
    st_rx_bytes s = f_bytes (p_rx_fifo p) \<and> st_tx_bytes s = f_bytes (p_tx_fifo p) \<and>
    st_rx_dropped s = f_dropped (p_rx_fifo p) \<and> st_tx_dropped s = f_dropped (p_tx_fifo p)"
proof -
  have small: "unat (a :: u8) + unat (b :: u8) + unat (c :: u8) + unat (d :: u8) < 2 ^ LENGTH(64)" for a b c d
    using unat_u8_less [of a] unat_u8_less [of b] unat_u8_less [of c] unat_u8_less [of d] by simp
  have up: "unat (ucast a :: u64) = unat a" for a :: u8 by (simp add: unsigned_ucast_eq take_bit_nat_eq_self_iff)
      (use unat_u8_less [of a] in simp)
  show ?thesis
    using assms unat_of_nat_small [OF small]
    by (auto simp: ccat_eth_get_stats64_def up Let_def split: prod.splits simp del: of_nat_add)
qed

text \<open>for a device whose MAC registers are storage the packet counters are the 32-bit words at
  offsets 0x14 (received) and 0x10 (transmitted) of the MAC register block.\<close>

theorem stats_packets:
  assumes "io_storage hw cells (reg_mac (p_reg p)) sizeof_mac_register"
    and "ccat_eth_get_stats64 hw p m = (s, m')"
  shows "unat (st_rx_packets s) = le_nat (mem_read (cells (dev m)) (reg_mac (p_reg p) + 0x14) 4) \<and>
    unat (st_tx_packets s) = le_nat (mem_read (cells (dev m)) (reg_mac (p_reg p) + 0x10) 4)"
proof -
  let ?bs = "mem_read (cells (dev m)) (reg_mac (p_reg p)) sizeof_mac_register"
  have bs: "fst (memcpy_fromio hw (reg_mac (p_reg p)) sizeof_mac_register (dev m)) = ?bs"
    using io_storage_read(1) [OF assms(1)] by simp
  have f: "field ?bs k 4 = mem_read (cells (dev m)) (reg_mac (p_reg p) + k) 4" if "k + 4 \<le> sizeof_mac_register" for k
    using that by (simp add: field_def take_mem_read drop_mem_read min_absorb1)
  have up: "unat (ucast (le_word xs :: u32) :: u64) = le_nat xs" if "length xs = 4" for xs
  proof -
    have "le_nat xs < 2 ^ 32" using le_nat_bound [of xs] that by simp
    then show ?thesis by (simp add: le_word_def unsigned_ucast_eq unat_of_nat_small take_bit_nat_eq_self_iff)
  qed
  show ?thesis
    using assms(2) bs f [of "0x14"] f [of "0x10"]
    by (auto simp: ccat_eth_get_stats64_def mac_register_of_bytes_def sizeof_mac_register_def up Let_def split: prod.splits)
qed

theorem stats_consistent_witness:
  "unat (st_rx_errors (fst (ccat_eth_get_stats64 ram_bus eth_priv0 (machine0 1)))) =
     unat (st_rx_length_errors (fst (ccat_eth_get_stats64 ram_bus eth_priv0 (machine0 1)))) +
     unat (st_rx_over_errors (fst (ccat_eth_get_stats64 ram_bus eth_priv0 (machine0 1)))) +
     unat (st_rx_crc_errors (fst (ccat_eth_get_stats64 ram_bus eth_priv0 (machine0 1)))) +
     unat (st_rx_frame_errors (fst (ccat_eth_get_stats64 ram_bus eth_priv0 (machine0 1))))"
  using stats_consistent [OF prod.collapse [symmetric], of ram_bus eth_priv0 "machine0 1"] by simp

theorem stats_packets_witness:
  "unat (st_rx_packets (fst (ccat_eth_get_stats64 ram_bus eth_priv0 (machine0 1)))) = 0"
proof -
  have "le_nat (replicate n 0) = 0" for n by (induction n) simp_all
  then show ?thesis
    using stats_packets [OF ram_bus_storage prod.collapse [symmetric], of eth_priv0 "machine0 1"]
    by (simp add: machine0_def mem_read_const)
qed

text \<open>the mask with which \<open>fifo_eim_tx_ready\<close> reads the fifo level has six bits, the level field of
  \<open>struct ccat_mac_register\<close> seven: a fifo that holds 64 entries reads as ready.\<close>

theorem eim_level_64_reads_ready:
  assumes "fst (ioread8 hw (mac + 0x20) (dev m)) AND 0x7F = 64"
  shows "fst (fifo_eim_tx_ready hw mac f m) = 1"
proof -
  let ?v = "fst (ioread8 hw (mac + 0x20) (dev m))"
  have "?v AND 0x3F = (?v AND 0x7F) AND 0x3F" by (simp add: and.assoc)
  also have "\<dots> = 0" unfolding assms by simp
  finally show ?thesis by (auto simp: fifo_eim_tx_ready_def split: prod.split)
qed

theorem eim_level_64_reads_ready_witness:
  "fst (fifo_eim_tx_ready ram_bus 0 (p_tx_fifo eth_priv0) \<lparr>ram = \<lambda>_. 0, dev = \<lambda>_. 64\<rparr>) = 1"
  by (rule eim_level_64_reads_ready) (simp add: ram_bus_def)

end
