(* ===== verification/Ccat_Race.thy ===== *)
theory Ccat_Race
  imports Ccat_Netdev
begin

text \<open>
  \<open>ccat_eth_start_xmit\<close> and the timer's callback of \<^verbatim>\<open>src/netdev.c\<close> at the grain at which they can really
  interleave. The network stack calls the one, one call at a time; the timer calls the other, and the
  driver has no lock between them. They share the cursor of the transmit ring, the flags of its slots
  and the queue's state, and the device sets the flags.

  The transmission is a thread with a program counter that makes one access to what they share per
  move; run on its own the thread is the function (\<open>xmit_moves\<close>). The increment of the cursor is two
  moves, as \<open>ccat_eth_fifo_inc\<close> first stores a pointer that may lie behind the ring and then corrects
  it. The stores that fill a slot are one move: the device looks at the slot only after the last of
  them, and the poll only at the flags, which the first one clears.

  The callback is a thread as well (\<open>callback_moves\<close>): the link poll, the receive poll, the test of
  \<open>poll_tx\<close> and the wake-up that follows it. The receive poll does not touch the transmit side and is
  one move. The link poll is one move; when the link comes up it resets the ring and transmits from the
  timer, which is modelled for the times at which no transmission of the stack is under way.
\<close>

section \<open>The threads\<close>

text \<open>Where the stack's thread is: outside the function, before the first test of the ring, before
  the frame is stored, before the cursor is incremented, before it is wrapped, before the second
  test, before the queue is stopped, and before the return.\<close>

datatype xmit_pc = X_Idle | X_Entry sk_buff | X_Queue sk_buff | X_Inc | X_Wrap | X_Full | X_Stop netdev_tx | X_Return netdev_tx

text \<open>The two halves of \<open>ccat_eth_fifo_inc\<close>.\<close>

definition fifo_advance :: "'o ccat_eth_fifo \<Rightarrow> 'o ccat_eth_fifo" where
  "fifo_advance f = f\<lparr>f_next := f_next f + sizeof_eth_frame\<rparr>"

definition fifo_wrap :: "'o ccat_eth_fifo \<Rightarrow> 'o ccat_eth_fifo" where
  "fifo_wrap f = (if f_end f < f_next f then f\<lparr>f_next := f_start f\<rparr> else f)"

fun xmit_move :: "'h mmio \<Rightarrow> xmit_pc \<times> ccat_eth_priv \<times> 'h machine \<Rightarrow> xmit_pc \<times> ccat_eth_priv \<times> 'h machine" where
  "xmit_move hw (X_Idle, p, m) = (X_Idle, p, m)"
| "xmit_move hw (X_Entry skb, p, m) =
     (if skb_is_nonlinear skb \<or> MAX_PAYLOAD_SIZE < skb_len skb then
        (X_Return NETDEV_TX_OK,
         on_netdev (dev_kfree_skb_any skb) (on_tx (\<lambda>f. f\<lparr>f_dropped := f_dropped f + 1\<rparr>) p), m)
      else
        let (r, m) = tx_ready hw (reg_mac (p_reg p)) (p_tx_fifo p) m
        in (if r = 0 then X_Stop NETDEV_TX_BUSY else X_Queue skb, p, m))"
| "xmit_move hw (X_Queue skb, p, m) =
     (X_Inc,
      on_netdev (dev_kfree_skb_any skb) (on_tx (\<lambda>f. f\<lparr>f_bytes := f_bytes f + of_nat (skb_len skb)\<rparr>) p),
      tx_queue_skb hw (p_tx_fifo p) skb m)"
| "xmit_move hw (X_Inc, p, m) = (X_Wrap, on_tx fifo_advance p, m)"
| "xmit_move hw (X_Wrap, p, m) = (X_Full, on_tx fifo_wrap p, m)"
| "xmit_move hw (X_Full, p, m) =
     (let (r, m) = tx_ready hw (reg_mac (p_reg p)) (p_tx_fifo p) m
      in (if r = 0 then X_Stop NETDEV_TX_OK else X_Return NETDEV_TX_OK, p, m))"
| "xmit_move hw (X_Stop r, p, m) = (X_Return r, on_netdev netif_stop_queue p, m)"
| "xmit_move hw (X_Return r, p, m) = (X_Idle, p, m)"

text \<open>The callback: not running, before the receive poll, before the test of \<open>poll_tx\<close>, and before the wake-up
  that the test led to.\<close>

datatype poll_pc = P_Idle | P_Rx | P_Tx | P_Wake

definition poll_test :: "'h mmio \<Rightarrow> ccat_eth_priv \<Rightarrow> 'h machine \<Rightarrow> bool \<times> 'h machine" where
  "poll_test hw p m = (let (r, m) = tx_ready hw (reg_mac (p_reg p)) (p_tx_fifo p) m in (r \<noteq> 0, m))"

definition poll_wake :: "ccat_eth_priv \<Rightarrow> ccat_eth_priv" where
  "poll_wake p = on_netdev netif_wake_queue p"

lemma fifo_inc_halves: "ccat_eth_fifo_inc f = fifo_wrap (fifo_advance f)"
  by (simp add: ccat_eth_fifo_inc_def fifo_wrap_def fifo_advance_def Let_def)

lemma poll_tx_halves: "poll_tx hw p m = (case poll_test hw p m of (b, m) \<Rightarrow> (if b then poll_wake p else p, m))"
  by (simp add: poll_tx_def poll_test_def poll_wake_def split: prod.split)

text \<open>The parts in a row are the callback.\<close>

lemma callback_moves:
  "poll_timer_callback hw skb_ok p m =
     (case poll_link hw skb_ok p m of
        Inl e \<Rightarrow> Inl e
      | Inr (p, m) \<Rightarrow> (case poll_rx hw skb_ok p m of (p, m) \<Rightarrow>
          (case poll_test hw p m of (b, m) \<Rightarrow> Inr (if b then poll_wake p else p, m))))"
  by (auto simp: poll_timer_callback_def poll_tx_halves split: sum.split prod.split)

text \<open>Stopping an interface: the queue is stopped, then the timer is cancelled, which waits for a running
  callback.\<close>

lemma stop_halves: "snd (ccat_eth_stop p) = (on_netdev netif_stop_queue p)\<lparr>p_timer := False\<rparr>"
  by (simp add: ccat_eth_stop_def)

lemma xmit_moves:
  assumes "ccat_eth_start_xmit hw skb p m = (r, p', m')"
  shows "\<exists>n \<le> 6. (xmit_move hw ^^ n) (X_Entry skb, p, m) = (X_Return r, p', m')"
proof (cases "skb_is_nonlinear skb \<or> MAX_PAYLOAD_SIZE < skb_len skb")
  case True
  then have "(xmit_move hw ^^ 1) (X_Entry skb, p, m) = (X_Return r, p', m')"
    using assms by (simp add: ccat_eth_start_xmit_def start_xmit_def split: if_splits)
  then show ?thesis by (intro exI [of _ 1]) simp
next
  case False
  obtain r1 m1 where t1: "tx_ready hw (reg_mac (p_reg p)) (p_tx_fifo p) m = (r1, m1)" by fastforce
  show ?thesis
  proof (cases "r1 = 0")
    case True
    then have "(xmit_move hw ^^ 2) (X_Entry skb, p, m) = (X_Return r, p', m')"
      using assms False t1 by (simp add: ccat_eth_start_xmit_def start_xmit_def numeral_2_eq_2)
    then show ?thesis by (intro exI [of _ 2]) simp
  next
    case busy: False
    define f where "f = ccat_eth_fifo_inc ((p_tx_fifo p)\<lparr>f_bytes := f_bytes (p_tx_fifo p) + of_nat (skb_len skb)\<rparr>)"
    obtain r2 m2 where t2: "tx_ready hw (reg_mac (p_reg p)) f (tx_queue_skb hw (p_tx_fifo p) skb m1) = (r2, m2)" by fastforce
    let ?n = "if r2 = 0 then 6 else 5 :: nat"
    have "(xmit_move hw ^^ ?n) (X_Entry skb, p, m) = (X_Return r, p', m')"
      using assms False t1 busy t2 unfolding f_def
      by (simp add: ccat_eth_start_xmit_def start_xmit_def fifo_inc_halves numeral_eq_Suc Let_def split: if_splits)
    then show ?thesis by (intro exI [of _ ?n]) simp
  qed
qed

section \<open>Interleavings\<close>

text \<open>How a frame leaves the ring.\<close>

datatype fate = On_Wire | Discarded

text \<open>The driver and the machine, the two threads, and logs: the frames that fit a slot with which
  \<open>ccat_eth_start_xmit\<close> was called, the frames stored in the ring, the frames that left it, and how often
  the link came up.\<close>

record 'h tx_threads =
  ts_xmit :: "xmit_pc \<times> ccat_eth_priv \<times> 'h machine"
  ts_poll :: poll_pc
  ts_asked :: "u8 list list"
  ts_acc :: "u8 list list"
  ts_out :: "(fate \<times> u8 list) list"
  ts_ups :: nat

fun stored_frame :: "xmit_pc \<Rightarrow> u8 list list" where
  "stored_frame (X_Queue skb) = [skb_data skb]"
| "stored_frame _ = []"

text \<open>The ring as the device has to see it: between the store of a frame and the wrapped cursor, the
  ring with the cursor already moved.\<close>

fun settled :: "xmit_pc \<Rightarrow> tx_ops ccat_eth_fifo \<Rightarrow> tx_ops ccat_eth_fifo" where
  "settled X_Inc f = ccat_eth_fifo_inc f"
| "settled X_Wrap f = fifo_wrap f"
| "settled _ f = f"

text \<open>The condition under which \<open>poll_link\<close> calls \<open>ccat_eth_link_up\<close>.\<close>

definition link_comes_up :: "'h mmio \<Rightarrow> ccat_eth_priv \<Rightarrow> 'h machine \<Rightarrow> bool" where
  "link_comes_up hw p m \<longleftrightarrow> fst (ccat_eth_priv_read_link_state hw p m) \<and> \<not> nd_carrier (p_netdev p)"

text \<open>
  With \<open>smp\<close> the threads run on different processors and interleave freely. Without it there is one
  processor: the timer's interrupt can come between any two moves of the stack's thread, but then
  runs to its end. The stack calls the driver when the queue is awake, the timer runs while the
  interface is open. A callback that faults does not return, so it has no step. The device sends the oldest
  frame in flight, and everything outside the transmit ring (its registers, the receive ring) may
  change at any time.
\<close>

inductive tx_interleave :: "bool \<Rightarrow> 'h mmio \<Rightarrow> skb_env \<Rightarrow> 'h tx_threads \<Rightarrow> 'h tx_threads \<Rightarrow> bool" for smp hw skb_ok where
  Call: "smp \<or> ts_poll s = P_Idle \<Longrightarrow> ts_xmit s = (X_Idle, p, m) \<Longrightarrow> \<not> nd_stopped (p_netdev p) \<Longrightarrow>
    tx_interleave smp hw skb_ok s
      (s\<lparr>ts_xmit := (X_Entry skb, p, m), ts_asked := ts_asked s @ (if xmit_fits skb then [skb_data skb] else [])\<rparr>)"
| Move: "smp \<or> ts_poll s = P_Idle \<Longrightarrow> ts_xmit s = (pc, p, m) \<Longrightarrow>
    tx_interleave smp hw skb_ok s (s\<lparr>ts_xmit := xmit_move hw (pc, p, m), ts_acc := ts_acc s @ stored_frame pc\<rparr>)"
| Link: "ts_poll s = P_Idle \<Longrightarrow> ts_xmit s = (pc, p, m) \<Longrightarrow> p_timer p \<Longrightarrow> \<not> link_comes_up hw p m \<Longrightarrow>
    poll_link hw skb_ok p m = Inr (p', m') \<Longrightarrow>
    tx_interleave smp hw skb_ok s (s\<lparr>ts_xmit := (pc, p', m'), ts_poll := P_Rx\<rparr>)"
| Link_Up: "ts_poll s = P_Idle \<Longrightarrow> ts_xmit s = (X_Idle, p, m) \<Longrightarrow> p_timer p \<Longrightarrow> link_comes_up hw p m \<Longrightarrow>
    poll_link hw skb_ok p m = Inr (p', m') \<Longrightarrow>
    tx_interleave smp hw skb_ok s
      (s\<lparr>ts_xmit := (X_Idle, p', m'), ts_poll := P_Rx, ts_asked := ts_asked s @ [frameForwardEthernetFrames],
         ts_acc := ts_acc s @ [frameForwardEthernetFrames],
         ts_out := ts_out s @ map (Pair Discarded) (inflight (p_tx_fifo p) m), ts_ups := Suc (ts_ups s)\<rparr>)"
| Rx: "ts_poll s = P_Rx \<Longrightarrow> ts_xmit s = (pc, p, m) \<Longrightarrow> poll_rx hw skb_ok p m = (p', m') \<Longrightarrow>
    tx_interleave smp hw skb_ok s (s\<lparr>ts_xmit := (pc, p', m'), ts_poll := P_Tx\<rparr>)"
| Test: "ts_poll s = P_Tx \<Longrightarrow> ts_xmit s = (pc, p, m) \<Longrightarrow> poll_test hw p m = (b, m') \<Longrightarrow>
    tx_interleave smp hw skb_ok s (s\<lparr>ts_xmit := (pc, p, m'), ts_poll := (if b then P_Wake else P_Idle)\<rparr>)"
| Wake: "ts_poll s = P_Wake \<Longrightarrow> ts_xmit s = (pc, p, m) \<Longrightarrow>
    tx_interleave smp hw skb_ok s (s\<lparr>ts_xmit := (pc, poll_wake p, m), ts_poll := P_Idle\<rparr>)"
| Sent: "ts_xmit s = (pc, p, m) \<Longrightarrow> f = settled pc (p_tx_fifo p) \<Longrightarrow>
    filter (\<lambda>i. \<not> tx_sent f m i) (ring_order f) = i # is \<Longrightarrow> v AND CCAT_FRAME_SENT \<noteq> 0 \<Longrightarrow>
    tx_interleave smp hw skb_ok s (s\<lparr>ts_xmit := (pc, p, ram_store (slot f i + dma_tx_flags) (le_bytes 4 v) m),
      ts_out := ts_out s @ [(On_Wire, tx_frame f m i)]\<rparr>)"
| Other: "ts_xmit s = (pc, p, m) \<Longrightarrow> (\<And>a. in_ring (p_tx_fifo p) a \<Longrightarrow> ram m' a = ram m a) \<Longrightarrow>
    tx_interleave smp hw skb_ok s (s\<lparr>ts_xmit := (pc, p, m')\<rparr>)"
| Open: "ts_xmit s = (pc, p, m) \<Longrightarrow> ccat_eth_open p = (r, p') \<Longrightarrow>
    tx_interleave smp hw skb_ok s (s\<lparr>ts_xmit := (pc, p', m)\<rparr>)"
| Stop: "ts_xmit s = (pc, p, m) \<Longrightarrow>
    tx_interleave smp hw skb_ok s (s\<lparr>ts_xmit := (pc, on_netdev netif_stop_queue p, m)\<rparr>)"
| Cancel: "ts_poll s = P_Idle \<Longrightarrow> ts_xmit s = (pc, p, m) \<Longrightarrow>
    tx_interleave smp hw skb_ok s (s\<lparr>ts_xmit := (pc, p\<lparr>p_timer := False\<rparr>, m)\<rparr>)"

text \<open>Both threads outside the driver; the frames in flight count as stored.\<close>

definition tx_threads0 :: "ccat_eth_priv \<Rightarrow> 'h machine \<Rightarrow> 'h tx_threads" where
  "tx_threads0 p m = \<lparr>ts_xmit = (X_Idle, p, m), ts_poll = P_Idle, ts_asked = inflight (p_tx_fifo p) m,
     ts_acc = inflight (p_tx_fifo p) m, ts_out = [], ts_ups = 0\<rparr>"

section \<open>The order of frames\<close>

text \<open>The rings between any two moves: well formed and apart, and before a frame is stored its slot is
  free.\<close>

definition ring_inv :: "xmit_pc \<times> ccat_eth_priv \<times> 'h machine \<Rightarrow> bool" where
  "ring_inv x \<longleftrightarrow> (case x of (pc, p, m) \<Rightarrow>
     let f = settled pc (p_tx_fifo p)
     in tx_inv f m \<and> 2 \<le> nslots f \<and> ring_wf (p_rx_fifo p) \<and> f_ops (p_rx_fifo p) = Dma_Rx \<and> rings_apart p \<and>
        (\<forall>skb. pc = X_Queue skb \<longrightarrow> xmit_fits skb \<and> tx_sent f m (cursor f)))"

definition ring_frames :: "xmit_pc \<times> ccat_eth_priv \<times> 'h machine \<Rightarrow> u8 list list" where
  "ring_frames x = (case x of (pc, p, m) \<Rightarrow> inflight (settled pc (p_tx_fifo p)) m)"

abbreviation discards :: "(fate \<times> u8 list) list \<Rightarrow> nat" where
  "discards out \<equiv> length (filter (\<lambda>x. fst x = Discarded) out)"

text \<open>What every interleaving keeps: the frames stored are those that left the ring followed by those in
  flight, and each time the link came up at most a ring of them was discarded.\<close>

definition order_inv :: "nat \<Rightarrow> 'h tx_threads \<Rightarrow> bool" where
  "order_inv n s \<longleftrightarrow> ring_inv (ts_xmit s) \<and> ts_acc s = map snd (ts_out s) @ ring_frames (ts_xmit s) \<and>
     nslots (p_tx_fifo (fst (snd (ts_xmit s)))) = n \<and> discards (ts_out s) \<le> ts_ups s * n"

lemma settled_simps [simp]:
  "f_ops (settled pc f) = f_ops f" "f_start (settled pc f) = f_start f" "slot (settled pc f) = slot f"
  "tx_sent (settled pc f) = tx_sent f" "tx_length (settled pc f) = tx_length f" "tx_frame (settled pc f) = tx_frame f"
  "nslots (settled pc f) = nslots f" "in_ring (settled pc f) = in_ring f"
proof -
  show st: "f_start (settled pc f) = f_start f" by (cases pc) (simp_all add: fifo_wrap_def)
  show "f_ops (settled pc f) = f_ops f" by (cases pc) (simp_all add: fifo_wrap_def)
  show "slot (settled pc f) = slot f" by (simp add: fun_eq_iff slot_def st)
  then show "tx_sent (settled pc f) = tx_sent f" "tx_length (settled pc f) = tx_length f" "tx_frame (settled pc f) = tx_frame f"
    by (simp_all add: fun_eq_iff tx_sent_def tx_length_def tx_frame_def)
  show n: "nslots (settled pc f) = nslots f" by (cases pc) (simp_all add: fifo_wrap_def nslots_def)
  show "in_ring (settled pc f) = in_ring f" by (simp add: fun_eq_iff in_ring_def st n)
qed

lemma settled_stats [simp]:
  "settled pc (f\<lparr>f_bytes := b\<rparr>) = (settled pc f)\<lparr>f_bytes := b\<rparr>" "settled pc (f\<lparr>f_dropped := d\<rparr>) = (settled pc f)\<lparr>f_dropped := d\<rparr>"
  by (cases pc; simp add: fifo_wrap_def ccat_eth_fifo_inc_def Let_def)+

text \<open>On DMA a test of the ring reads host memory only.\<close>

lemma dma_ready_pure: "f_ops f = Dma_Tx \<Longrightarrow> tx_ready hw mac f m = (fst (fifo_dma_tx_ready f m), m)"
  by (simp add: tx_ready_def fifo_dma_tx_ready_def)

lemma queue_settled:
  assumes inv: "tx_inv f m" and fits: "xmit_fits skb" and sent: "tx_sent f m (cursor f)"
  shows "tx_inv (ccat_eth_fifo_inc (f\<lparr>f_bytes := b\<rparr>)) (tx_queue_skb hw f skb m)"
    and "inflight (ccat_eth_fifo_inc (f\<lparr>f_bytes := b\<rparr>)) (tx_queue_skb hw f skb m) = inflight f m @ [skb_data skb]"
proof -
  have inc: "ccat_eth_fifo_inc (f\<lparr>f_bytes := b\<rparr>) = (ccat_eth_fifo_inc f)\<lparr>f_bytes := b\<rparr>"
    by (simp add: ccat_eth_fifo_inc_def Let_def)
  have "tx_ready hw 0 f m = (1, m)" using inv sent by (simp add: dma_tx_ready_eq tx_inv_def)
  note q = dma_tx.queue_appends [OF inv this]
  show "tx_inv (ccat_eth_fifo_inc (f\<lparr>f_bytes := b\<rparr>)) (tx_queue_skb hw f skb m)"
    and "inflight (ccat_eth_fifo_inc (f\<lparr>f_bytes := b\<rparr>)) (tx_queue_skb hw f skb m) = inflight f m @ [skb_data skb]"
    unfolding inc dma_tx.stats using q fits by (simp_all add: xmit_fits_def)
qed

lemma ring_inv_tx:
  assumes "ring_inv (pc, p, m)"
  shows "f_ops (p_tx_fifo p) = Dma_Tx" and "pc \<notin> {X_Inc, X_Wrap} \<Longrightarrow> tx_inv (p_tx_fifo p) m"
    and "tx_inv (settled pc (p_tx_fifo p)) m"
proof -
  show inv: "tx_inv (settled pc (p_tx_fifo p)) m" using assms by (simp add: ring_inv_def Let_def)
  then show "f_ops (p_tx_fifo p) = Dma_Tx" by (simp add: tx_inv_def)
  show "tx_inv (p_tx_fifo p) m" if "pc \<notin> {X_Inc, X_Wrap}" using inv that by (cases pc) simp_all
qed

lemma move_keeps_ring:
  assumes inv: "ring_inv (pc, p, m)" and move: "xmit_move hw (pc, p, m) = (pc', p', m')"
  shows "ring_inv (pc', p', m')" and "ring_frames (pc', p', m') = ring_frames (pc, p, m) @ stored_frame pc"
    and "nslots (p_tx_fifo p') = nslots (p_tx_fifo p)"
proof -
  have "ring_inv (pc', p', m') \<and> ring_frames (pc', p', m') = ring_frames (pc, p, m) @ stored_frame pc \<and>
    nslots (p_tx_fifo p') = nslots (p_tx_fifo p)"
  proof (cases pc)
    case (X_Entry skb)
    have tinv: "tx_inv (p_tx_fifo p) m" using inv X_Entry by (simp add: ring_inv_def Let_def)
    then have "f_ops (p_tx_fifo p) = Dma_Tx" "ring_wf (p_tx_fifo p)" by (simp_all add: tx_inv_def)
    then show ?thesis
      using inv move X_Entry tinv
      by (auto simp: ring_inv_def ring_frames_def dma_tx_ready_eq dma_tx.stats xmit_fits_def
          rings_apart_def Let_def split: if_splits)
  next
    case (X_Queue skb)
    then have "tx_inv (p_tx_fifo p) m" "xmit_fits skb" "tx_sent (p_tx_fifo p) m (cursor (p_tx_fifo p))"
      using inv by (simp_all add: ring_inv_def Let_def)
    from queue_settled [OF this] show ?thesis
      using inv move X_Queue by (auto simp: ring_inv_def ring_frames_def rings_apart_def Let_def)
  next
    case X_Full
    then have "f_ops (p_tx_fifo p) = Dma_Tx" using ring_inv_tx [OF inv] by simp
    then show ?thesis using inv move X_Full by (auto simp: ring_inv_def ring_frames_def dma_ready_pure Let_def split: if_splits)
  next
    case X_Inc
    have "settled X_Wrap (fifo_advance (p_tx_fifo p)) = settled X_Inc (p_tx_fifo p)" by (simp add: fifo_inc_halves)
    moreover have "in_ring (fifo_advance (p_tx_fifo p)) = in_ring (p_tx_fifo p)" "nslots (fifo_advance (p_tx_fifo p)) = nslots (p_tx_fifo p)"
      by (simp_all add: fifo_advance_def nslots_def)
    ultimately show ?thesis using inv move X_Inc by (auto simp: ring_inv_def ring_frames_def rings_apart_def Let_def)
  next
    case X_Wrap
    have "in_ring (fifo_wrap (p_tx_fifo p)) = in_ring (p_tx_fifo p)" "nslots (fifo_wrap (p_tx_fifo p)) = nslots (p_tx_fifo p)"
      by (simp_all add: fifo_wrap_def nslots_def)
    then show ?thesis using inv move X_Wrap by (auto simp: ring_inv_def ring_frames_def rings_apart_def Let_def)
  qed (use inv move in \<open>auto simp: ring_inv_def ring_frames_def rings_apart_def Let_def\<close>)
  then show "ring_inv (pc', p', m')" and "ring_frames (pc', p', m') = ring_frames (pc, p, m) @ stored_frame pc"
    and "nslots (p_tx_fifo p') = nslots (p_tx_fifo p)" by simp_all
qed

text \<open>What leaves the transmit fifo and the memory of its ring alone keeps all that.\<close>

definition same_rings :: "ccat_eth_priv \<Rightarrow> ccat_eth_priv \<Rightarrow> bool" where
  "same_rings p p' \<longleftrightarrow> p_tx_fifo p' = p_tx_fifo p \<and> in_ring (p_rx_fifo p') = in_ring (p_rx_fifo p) \<and>
     (ring_wf (p_rx_fifo p) \<and> f_ops (p_rx_fifo p) = Dma_Rx \<longrightarrow> ring_wf (p_rx_fifo p') \<and> f_ops (p_rx_fifo p') = Dma_Rx)"

lemma same_rings_simps [simp]:
  "same_rings p p" "same_rings p (on_netdev g p)" "same_rings p (p\<lparr>p_timer := b\<rparr>)" "rx_only p p' \<Longrightarrow> same_rings p p'"
  by (auto simp: same_rings_def rx_only_def)

lemma same_rings_keep:
  assumes inv: "ring_inv (pc, p, m)" and same: "same_rings p p'"
    and mem: "\<forall>a. in_ring (p_tx_fifo p) a \<longrightarrow> ram m' a = ram m a"
  shows "ring_inv (pc, p', m')" and "ring_frames (pc, p', m') = ring_frames (pc, p, m)"
    and "pc \<notin> {X_Inc, X_Wrap} \<Longrightarrow> tx_sent (p_tx_fifo p) m' (cursor (p_tx_fifo p)) = tx_sent (p_tx_fifo p) m (cursor (p_tx_fifo p))"
proof -
  let ?f = "settled pc (p_tx_fifo p)"
  have tx: "p_tx_fifo p' = p_tx_fifo p" using same by (simp add: same_rings_def)
  have tinv: "tx_inv ?f m" and wf: "ring_wf ?f" using ring_inv_tx(3) [OF inv] by (simp_all add: tx_inv_def)
  have mem': "in_ring ?f a \<Longrightarrow> ram m' a = ram m a" for a using mem by simp
  have sent: "tx_sent ?f m' (cursor ?f) = tx_sent ?f m (cursor ?f)"
    using ring_inc(3) [OF wf] by (intro tx_views_cong(1) [OF mem']) simp_all
  have tinv': "tx_inv ?f m'" using tx_inv_cong [of ?f m' m, OF mem'] tinv by simp
  show "ring_inv (pc, p', m')"
    using inv same tinv' sent by (auto simp: ring_inv_def tx same_rings_def rings_apart_def Let_def)
  show "ring_frames (pc, p', m') = ring_frames (pc, p, m)"
    using inflight_cong [of ?f m' m, OF mem' tinv] by (simp add: ring_frames_def tx)
  show "tx_sent (p_tx_fifo p) m' (cursor (p_tx_fifo p)) = tx_sent (p_tx_fifo p) m (cursor (p_tx_fifo p))" if "pc \<notin> {X_Inc, X_Wrap}"
    using sent that by (cases pc) simp_all
qed

lemma rx_poll_memory:
  assumes "ring_inv (pc, p, m)" and "poll_rx hw skb_ok p m = (p', m')"
  shows "rx_only p p'" and "in_ring (p_tx_fifo p) a \<Longrightarrow> ram m' a = ram m a"
proof -
  have wf: "ring_wf (p_rx_fifo p)" "f_ops (p_rx_fifo p) = Dma_Rx" "rings_apart p" using assms(1) by (simp_all add: ring_inv_def Let_def)
  note f = poll_rx_frame [OF wf(1,2) assms(2)]
  show "rx_only p p'" by (rule f(1))
  show "ram m' a = ram m a" if "in_ring (p_tx_fifo p) a" using f(2) wf(3) that by (auto simp: outside_same_def rings_apart_def)
qed

text \<open>A link poll in which the link does not come up stops the queue or does nothing.\<close>

lemma link_poll_quiet:
  assumes "poll_link hw skb_ok p m = Inr (p', m')" and "\<not> link_comes_up hw p m"
  shows "p' = p \<or> p' = ccat_eth_link_down p" and "ram m' = ram m"
proof -
  obtain link h where rd: "ccat_eth_priv_read_link_state hw p m = (link, m\<lparr>dev := h\<rparr>)"
    using read_link_state_eq by (rule that)
  have "(p' = p \<or> p' = ccat_eth_link_down p) \<and> m' = m\<lparr>dev := h\<rparr>"
    using assms rd by (auto simp: poll_link_def link_comes_up_def split: if_splits)
  then show "p' = p \<or> p' = ccat_eth_link_down p" and "ram m' = ram m" by auto
qed

lemma link_poll_up:
  assumes inv: "ring_inv (X_Idle, p, m)" and up: "link_comes_up hw p m" and run: "poll_link hw skb_ok p m = Inr (p', m')"
  shows "ring_inv (X_Idle, p', m')" and "ring_frames (X_Idle, p', m') = [frameForwardEthernetFrames]"
    and "nslots (p_tx_fifo p') = nslots (p_tx_fifo p)" and "tx_sent (p_tx_fifo p') m' (cursor (p_tx_fifo p'))"
proof -
  obtain link m1 where rd: "ccat_eth_priv_read_link_state hw p m = (link, m1)" by fastforce
  have r: "ccat_eth_link_up hw skb_ok p m1 = Inr (p', m')" using run up rd by (simp add: poll_link_def link_comes_up_def)
  have wf: "f_ops (p_tx_fifo p) = Dma_Tx" "f_start (p_tx_fifo p) \<le> f_end (p_tx_fifo p)" "2 \<le> nslots (p_tx_fifo p)"
    "f_start (p_rx_fifo p) \<le> f_end (p_rx_fifo p)"
    using inv by (auto simp: ring_inv_def tx_inv_def ring_wf_def Let_def)
  note l = link_up_dma [OF wf r]
  show "ring_inv (X_Idle, p', m')" using inv l fifo_reset_wf [OF wf(4)] by (simp add: ring_inv_def rings_apart_def Let_def)
  show "ring_frames (X_Idle, p', m') = [frameForwardEthernetFrames]" using l(2) by (simp add: ring_frames_def)
  show "nslots (p_tx_fifo p') = nslots (p_tx_fifo p)" "tx_sent (p_tx_fifo p') m' (cursor (p_tx_fifo p'))" using l(3,8) by simp_all
qed

lemma sent_keeps:
  assumes inv: "ring_inv (pc, p, m)" and f: "f = settled pc (p_tx_fifo p)"
    and old: "filter (\<lambda>i. \<not> tx_sent f m i) (ring_order f) = i # is" and bit: "v AND CCAT_FRAME_SENT \<noteq> 0"
  defines "m' \<equiv> ram_store (slot f i + dma_tx_flags) (le_bytes 4 v) m"
  shows "ring_inv (pc, p, m')" and "ring_frames (pc, p, m) = tx_frame f m i # ring_frames (pc, p, m')"
    and "tx_sent (p_tx_fifo p) m j \<Longrightarrow> tx_sent (p_tx_fifo p) m' j"
proof -
  have tinv: "tx_inv f m" using ring_inv_tx(3) [OF inv] f by simp
  show keep: "tx_sent (p_tx_fifo p) m' j" if "tx_sent (p_tx_fifo p) m j" for j
    using set_sent_views(1,2) [OF tinv bit] that f unfolding m'_def by (metis settled_simps(4))
  show "ring_inv (pc, p, m')"
    using inv keep set_sent_views(5) [OF tinv bit] f unfolding m'_def by (auto simp: ring_inv_def Let_def)
  show "ring_frames (pc, p, m) = tx_frame f m i # ring_frames (pc, p, m')"
    using sent_oldest [OF tinv bit old] f unfolding m'_def by (simp add: ring_frames_def)
qed

lemma ring_frames_bound:
  assumes "ring_inv (X_Idle, p, m)"
  shows "length (inflight (p_tx_fifo p) m) \<le> nslots (p_tx_fifo p)"
  using length_filter_le [of _ "ring_order (p_tx_fifo p)"] by (simp add: inflight_def ring_order_def)

text \<open>One rule for the steps that touch neither ring nor logs.\<close>

lemma order_inv_fields [simp]:
  "order_inv n (s\<lparr>ts_poll := b\<rparr>) = order_inv n s" "order_inv n (s\<lparr>ts_asked := fs\<rparr>) = order_inv n s"
  by (simp_all add: order_inv_def)

lemma quiet_keeps_order:
  assumes "order_inv n s" and "ts_xmit s = (pc, p, m)" and "same_rings p p'"
    and "\<forall>a. in_ring (p_tx_fifo p) a \<longrightarrow> ram m' a = ram m a"
  shows "order_inv n (s\<lparr>ts_xmit := (pc, p', m')\<rparr>)"
  using assms same_rings_keep(1,2) [of pc p m p' m'] by (simp add: order_inv_def same_rings_def)

lemma poll_test_pure:
  assumes "ring_inv (pc, p, m)" and "poll_test hw p m = (b, m')"
  shows "m' = m"
  using assms(2) ring_inv_tx(1) [OF assms(1)] by (simp add: poll_test_def dma_ready_pure)

lemma link_down_rings: "same_rings p (ccat_eth_link_down p)"
  by (simp add: ccat_eth_link_down_def same_rings_def)

lemma interleave_keeps_order:
  assumes "tx_interleave smp hw skb_ok s s'" and "order_inv n s"
  shows "order_inv n s'"
  using assms
proof (induction rule: tx_interleave.induct)
  case (Call s p m skb)
  then show ?case by (simp add: order_inv_def ring_inv_def ring_frames_def)
next
  case (Move s pc p m)
  obtain pc' p' m' where mv: "xmit_move hw (pc, p, m) = (pc', p', m')" by (metis prod.collapse)
  have "ring_inv (pc, p, m)" using Move by (simp add: order_inv_def)
  from move_keeps_ring [OF this mv] Move mv show ?case by (simp add: order_inv_def)
next
  case (Link s pc p m p' m')
  note q = link_poll_quiet [OF Link(5,4)]
  have "same_rings p p'" using q(1) link_down_rings by auto
  then show ?case using quiet_keeps_order [OF Link(6,2)] q(2) by simp
next
  case (Link_Up s p m p' m')
  have ring: "ring_inv (X_Idle, p, m)" using Link_Up by (simp add: order_inv_def)
  have all: "filter (\<lambda>x. fst x = Discarded) (map (Pair Discarded) fs) = map (Pair Discarded) fs" for fs :: "u8 list list"
    by (induction fs) simp_all
  show ?case
    using link_poll_up [OF ring Link_Up(4,5)] Link_Up(2,6) ring_frames_bound [OF ring]
    by (simp add: order_inv_def ring_frames_def all comp_def)
next
  case (Rx s pc p m p' m')
  have ring: "ring_inv (pc, p, m)" using Rx by (simp add: order_inv_def)
  note r = rx_poll_memory [OF ring Rx(3)]
  have "same_rings p p'" using r(1) by simp
  then show ?case using quiet_keeps_order [OF Rx(4,2)] r(2) by simp
next
  case (Test s pc p m b m')
  have ring: "ring_inv (pc, p, m)" using Test by (simp add: order_inv_def)
  show ?case using Test poll_test_pure [OF ring Test(3)] quiet_keeps_order [OF Test(4,2), of p m] by simp
next
  case (Wake s pc p m)
  then show ?case using quiet_keeps_order [OF Wake(3,2), of "poll_wake p" m] by (simp add: poll_wake_def)
next
  case (Sent s pc p m f i "is" v)
  have ring: "ring_inv (pc, p, m)" using Sent by (simp add: order_inv_def)
  show ?case using sent_keeps(1,2) [OF ring Sent(2-4)] Sent(1,5) by (simp add: order_inv_def)
next
  case (Other s pc p m m')
  then show ?case using quiet_keeps_order [OF Other(3,1), of p m'] by simp
next
  case (Open s pc p m r p')
  then have "p' = p\<lparr>p_timer := True\<rparr>" by (simp add: ccat_eth_open_def)
  then show ?case using quiet_keeps_order [OF Open(3,1), of p' m] by simp
next
  case (Stop s pc p m)
  then show ?case using quiet_keeps_order [OF Stop(2,1), of "on_netdev netif_stop_queue p" m] by simp
next
  case (Cancel s pc p m)
  then show ?case using quiet_keeps_order [OF Cancel(3,2), of "p\<lparr>p_timer := False\<rparr>" m] by simp
qed

lemma reach_order:
  assumes "(tx_interleave smp hw skb_ok)\<^sup>*\<^sup>* s s'" and "order_inv n s"
  shows "order_inv n s'"
  using assms by (induction rule: rtranclp_induct) (blast intro: interleave_keeps_order)+

section \<open>One processor: an awake queue has a free slot\<close>

text \<open>The slot at the cursor is free when the stack's thread enters, and outside the driver when the
  queue is awake or about to be woken; no call ends as busy.\<close>

fun awake_at :: "xmit_pc \<Rightarrow> bool \<Rightarrow> bool \<Rightarrow> bool" where
  "awake_at X_Idle awake free = (awake \<longrightarrow> free)"
| "awake_at (X_Entry skb) awake free = free"
| "awake_at (X_Stop r) awake free = (r = NETDEV_TX_OK)"
| "awake_at (X_Return r) awake free = (r = NETDEV_TX_OK \<and> (awake \<longrightarrow> free))"
| "awake_at _ awake free = True"

definition slot_free :: "ccat_eth_priv \<Rightarrow> 'h machine \<Rightarrow> bool" where
  "slot_free p m \<longleftrightarrow> tx_sent (p_tx_fifo p) m (cursor (p_tx_fifo p))"

definition awake_inv :: "'h tx_threads \<Rightarrow> bool" where
  "awake_inv s \<longleftrightarrow> (case ts_xmit s of (pc, p, m) \<Rightarrow>
     awake_at pc (ts_poll s = P_Wake \<or> \<not> nd_stopped (p_netdev p)) (slot_free p m))"

text \<open>A frame with which the stack's thread has entered and which it has not stored yet.\<close>

fun pending_frame :: "xmit_pc \<Rightarrow> u8 list list" where
  "pending_frame (X_Entry skb) = (if xmit_fits skb then [skb_data skb] else [])"
| "pending_frame (X_Queue skb) = [skb_data skb]"
| "pending_frame _ = []"

definition asked_inv :: "'h tx_threads \<Rightarrow> bool" where
  "asked_inv s \<longleftrightarrow> ts_asked s = ts_acc s @ pending_frame (fst (ts_xmit s))"

lemma awake_at_mono:
  assumes "awake_at pc a b" and "a' \<Longrightarrow> a" and "b \<Longrightarrow> b'"
  shows "awake_at pc a' b'"
  using assms by (cases pc) auto

lemma ready_free:
  assumes "ring_inv (pc, p, m)" and "pc \<notin> {X_Inc, X_Wrap}"
  shows "tx_ready hw mac (p_tx_fifo p) m = (if slot_free p m then 1 else 0, m)"
  using ring_inv_tx(2) [OF assms] by (simp add: tx_inv_def slot_free_def dma_tx_ready_eq)

lemma move_keeps_awake:
  assumes "awake_inv s" and "ring_inv (pc, p, m)" and "ts_xmit s = (pc, p, m)" and "ts_poll s = P_Idle"
  shows "awake_inv (s\<lparr>ts_xmit := xmit_move hw (pc, p, m), ts_acc := acc\<rparr>)"
proof (cases "pc \<in> {X_Inc, X_Wrap}")
  case True
  then show ?thesis by (auto simp: awake_inv_def)
next
  case False
  show ?thesis
    using assms(1,3,4) ready_free [OF assms(2) False] False
    by (cases pc) (auto simp: awake_inv_def slot_free_def netdev_defs cursor_def)
qed

lemma move_keeps_asked:
  assumes "asked_inv s" and "awake_inv s" and "ring_inv (pc, p, m)" and "ts_xmit s = (pc, p, m)"
  shows "asked_inv (s\<lparr>ts_xmit := xmit_move hw (pc, p, m), ts_acc := ts_acc s @ stored_frame pc\<rparr>)"
proof (cases pc)
  case (X_Entry skb)
  then show ?thesis
    using assms ready_free [OF assms(3)] by (auto simp: asked_inv_def awake_inv_def xmit_fits_def)
next
  case X_Full
  then show ?thesis using assms ready_free [OF assms(3)] by (auto simp: asked_inv_def)
qed (use assms in \<open>simp_all add: asked_inv_def\<close>)

text \<open>One rule for the steps that free no slot and fill none.\<close>

lemma quiet_keeps_awake:
  assumes "awake_inv s" and "ring_inv (pc, p, m)" and "ts_xmit s = (pc, p, m)" and "same_rings p p'"
    and "\<forall>a. in_ring (p_tx_fifo p) a \<longrightarrow> ram m' a = ram m a"
    and "b = P_Wake \<or> \<not> nd_stopped (p_netdev p') \<Longrightarrow> ts_poll s = P_Wake \<or> \<not> nd_stopped (p_netdev p)"
  shows "awake_inv (s\<lparr>ts_xmit := (pc, p', m'), ts_poll := b\<rparr>)"
proof (cases "pc \<in> {X_Inc, X_Wrap}")
  case True
  then show ?thesis by (auto simp: awake_inv_def)
next
  case False
  then have "slot_free p' m' = slot_free p m"
    using same_rings_keep(3) [OF assms(2,4,5)] assms(4) by (simp add: slot_free_def same_rings_def)
  then show ?thesis using assms(1,3,6) by (auto simp: awake_inv_def elim: awake_at_mono)
qed

lemma interleave_keeps_awake:
  assumes "tx_interleave False hw skb_ok s s'" and "order_inv n s" and "awake_inv s"
  shows "awake_inv s'"
  using assms
proof (induction rule: tx_interleave.induct)
  case (Call s p m skb)
  then show ?case by (simp add: awake_inv_def)
next
  case (Move s pc p m)
  then have ring: "ring_inv (pc, p, m)" by (simp add: order_inv_def)
  show ?case using move_keeps_awake [OF Move(4) ring Move(2)] Move(1) by simp
next
  case (Link s pc p m p' m')
  then have ring: "ring_inv (pc, p, m)" by (simp add: order_inv_def)
  note q = link_poll_quiet [OF Link(5,4)]
  show ?case
    using q link_down_rings [of p] by (intro quiet_keeps_awake [OF Link(7) ring Link(2)])
      (auto simp: ccat_eth_link_down_def netdev_defs)
next
  case (Link_Up s p m p' m')
  then have ring: "ring_inv (X_Idle, p, m)" by (simp add: order_inv_def)
  show ?case using link_poll_up(4) [OF ring Link_Up(4,5)] by (simp add: awake_inv_def slot_free_def)
next
  case (Rx s pc p m p' m')
  then have ring: "ring_inv (pc, p, m)" by (simp add: order_inv_def)
  note r = rx_poll_memory [OF ring Rx(3)]
  show ?case using r Rx(1) by (intro quiet_keeps_awake [OF Rx(5) ring Rx(2)]) (auto simp: rx_only_def)
next
  case (Test s pc p m b m')
  then have ring: "ring_inv (pc, p, m)" by (simp add: order_inv_def)
  have m: "m' = m" by (rule poll_test_pure [OF ring Test(3)])
  show ?case
  proof (cases "pc \<in> {X_Inc, X_Wrap}")
    case True
    then show ?thesis by (auto simp: awake_inv_def)
  next
    case False
    then have "b \<longleftrightarrow> slot_free p m" using Test(3) ready_free [OF ring False] by (auto simp: poll_test_def split: if_splits)
    then show ?thesis using Test(1,2,5) by (cases pc) (auto simp: awake_inv_def m)
  qed
next
  case (Wake s pc p m)
  then have ring: "ring_inv (pc, p, m)" by (simp add: order_inv_def)
  show ?case using Wake(1) by (intro quiet_keeps_awake [OF Wake(4) ring Wake(2)]) (simp_all add: poll_wake_def)
next
  case (Sent s pc p m f i "is" v)
  then have ring: "ring_inv (pc, p, m)" by (simp add: order_inv_def)
  show ?case
    using sent_keeps(3) [OF ring Sent(2-4)] Sent(1,6) by (auto simp: awake_inv_def slot_free_def elim: awake_at_mono)
next
  case (Other s pc p m m')
  then have ring: "ring_inv (pc, p, m)" by (simp add: order_inv_def)
  show ?case using Other(2) quiet_keeps_awake [OF Other(4) ring Other(1), of p m' "ts_poll s"] by simp
next
  case (Open s pc p m r p')
  then have ring: "ring_inv (pc, p, m)" and p': "p' = p\<lparr>p_timer := True\<rparr>" by (simp_all add: order_inv_def ccat_eth_open_def)
  show ?case using quiet_keeps_awake [OF Open(4) ring Open(1), of p' m "ts_poll s"] by (simp add: p')
next
  case (Stop s pc p m)
  then have ring: "ring_inv (pc, p, m)" by (simp add: order_inv_def)
  show ?case using quiet_keeps_awake [OF Stop(3) ring Stop(1), of "on_netdev netif_stop_queue p" m "ts_poll s"] by (simp add: netdev_defs)
next
  case (Cancel s pc p m)
  then have ring: "ring_inv (pc, p, m)" by (simp add: order_inv_def)
  show ?case using quiet_keeps_awake [OF Cancel(4) ring Cancel(2), of "p\<lparr>p_timer := False\<rparr>" m "ts_poll s"] by simp
qed

lemma interleave_keeps_asked:
  assumes "tx_interleave False hw skb_ok s s'" and "order_inv n s" and "awake_inv s" and "asked_inv s"
  shows "asked_inv s'"
  using assms
proof (induction rule: tx_interleave.induct)
  case (Move s pc p m)
  then have "ring_inv (pc, p, m)" by (simp add: order_inv_def)
  then show ?case using move_keeps_asked [OF Move(5,4) _ Move(2)] by simp
qed (simp_all add: asked_inv_def)

lemma reach_one_processor:
  assumes "(tx_interleave False hw skb_ok)\<^sup>*\<^sup>* s s'" and "order_inv n s" and "awake_inv s" and "asked_inv s"
  shows "order_inv n s' \<and> awake_inv s' \<and> asked_inv s'"
  using assms
proof (induction rule: rtranclp_induct)
  case (step s' s'')
  then show ?case using interleave_keeps_order interleave_keeps_awake interleave_keeps_asked by blast
qed simp

section \<open>Properties\<close>

lemma threads0_inv:
  assumes "eth_inv p m"
  shows "order_inv (nslots (p_tx_fifo p)) (tx_threads0 p m)" and "awake_inv (tx_threads0 p m)" and "asked_inv (tx_threads0 p m)"
  using assms
  by (simp_all add: order_inv_def awake_inv_def asked_inv_def slot_free_def tx_threads0_def eth_inv_def ring_inv_def ring_frames_def Let_def)

text \<open>C8: however the accesses of stack, timer and device interleave, on one processor or on several, and
  however often the link goes down and comes up, as long as it comes up only while no transmission of
  the stack is under way: the frames stored are those that left the ring followed by those in flight,
  so none is duplicated, reordered or altered. A frame leaves by being sent or by being discarded when
  the link comes up, which happens to at most one ring of frames each time; while the link does not
  come up none is lost.\<close>

theorem tx_threads_wire_order:
  assumes "(tx_interleave smp hw skb_ok)\<^sup>*\<^sup>* (tx_threads0 p0 m0) s" and "ts_xmit s = (pc, p, m)" and "eth_inv p0 m0"
  shows "ts_acc s = map snd (ts_out s) @ inflight (settled pc (p_tx_fifo p)) m \<and>
    length (filter (\<lambda>x. fst x = Discarded) (ts_out s)) \<le> ts_ups s * nslots (p_tx_fifo p0)"
  using reach_order [OF assms(1) threads0_inv(1) [OF assms(3)]] assms(2) by (simp add: order_inv_def ring_frames_def)

text \<open>C9: on one processor, where the timer's callback interrupts the stack's thread between any two
  accesses (with a link that comes up only while no transmission is under way), a call made with an
  awake queue is never refused as busy.\<close>

theorem one_processor_never_busy:
  assumes "(tx_interleave False hw skb_ok)\<^sup>*\<^sup>* (tx_threads0 p0 m0) s" and "eth_inv p0 m0"
  shows "fst (ts_xmit s) \<noteq> X_Return NETDEV_TX_BUSY"
proof
  assume "fst (ts_xmit s) = X_Return NETDEV_TX_BUSY"
  moreover have "awake_inv s" using reach_one_processor [OF assms(1) threads0_inv [OF assms(2)]] by simp
  ultimately show False by (auto simp: awake_inv_def split: prod.splits)
qed

section \<open>Several processors: a full ring with an awake queue\<close>

lemma moves_reach:
  assumes "smp \<or> ts_poll s = P_Idle"
  shows "\<exists>acc. (tx_interleave smp hw skb_ok)\<^sup>*\<^sup>* s (s\<lparr>ts_xmit := (xmit_move hw ^^ n) (ts_xmit s), ts_acc := acc\<rparr>)"
proof (induction n)
  case 0
  show ?case by (intro exI [of _ "ts_acc s"]) simp
next
  case (Suc n)
  then obtain acc where
    "(tx_interleave smp hw skb_ok)\<^sup>*\<^sup>* s (s\<lparr>ts_xmit := (xmit_move hw ^^ n) (ts_xmit s), ts_acc := acc\<rparr>)" by blast
  moreover obtain pc p m where now: "(xmit_move hw ^^ n) (ts_xmit s) = (pc, p, m)" by (metis prod.collapse)
  ultimately show ?case
    using tx_interleave.Move [of smp "s\<lparr>ts_xmit := (pc, p, m), ts_acc := acc\<rparr>" pc p m hw skb_ok] assms
    by (intro exI [of _ "acc @ stored_frame pc"]) (auto intro: rtranclp.rtrancl_into_rtrancl)
qed

text \<open>A whole call, uninterrupted.\<close>

lemma call_reach:
  assumes "smp \<or> ts_poll s = P_Idle" and "ts_xmit s = (X_Idle, p, m)" and "\<not> nd_stopped (p_netdev p)"
    and "ccat_eth_start_xmit hw skb p m = (r, p', m')"
  shows "\<exists>acc. (tx_interleave smp hw skb_ok)\<^sup>*\<^sup>* s
    (s\<lparr>ts_asked := ts_asked s @ (if xmit_fits skb then [skb_data skb] else []), ts_xmit := (X_Return r, p', m'), ts_acc := acc\<rparr>)"
proof -
  let ?s = "s\<lparr>ts_xmit := (X_Entry skb, p, m), ts_asked := ts_asked s @ (if xmit_fits skb then [skb_data skb] else [])\<rparr>"
  obtain n where n: "(xmit_move hw ^^ n) (X_Entry skb, p, m) = (X_Return r, p', m')" using xmit_moves [OF assms(4)] by blast
  have "tx_interleave smp hw skb_ok s ?s" using tx_interleave.Call [OF assms(1-3)] .
  moreover obtain acc where "(tx_interleave smp hw skb_ok)\<^sup>*\<^sup>* ?s (?s\<lparr>ts_xmit := (xmit_move hw ^^ n) (ts_xmit ?s), ts_acc := acc\<rparr>)"
    using moves_reach [of smp ?s hw skb_ok n] assms(1) by auto
  ultimately have "(tx_interleave smp hw skb_ok)\<^sup>*\<^sup>* s (?s\<lparr>ts_xmit := (X_Return r, p', m'), ts_acc := acc\<rparr>)"
    using n by (auto intro: converse_rtranclp_into_rtranclp)
  then show ?thesis by auto
qed

lemma call_reach_idle:
  assumes "smp \<or> ts_poll s = P_Idle" and "ts_xmit s = (X_Idle, p, m)" and "\<not> nd_stopped (p_netdev p)"
    and "ccat_eth_start_xmit hw skb p m = (r, p', m')"
  shows "\<exists>q acc. (tx_interleave smp hw skb_ok)\<^sup>*\<^sup>* s (s\<lparr>ts_asked := q, ts_xmit := (X_Idle, p', m'), ts_acc := acc\<rparr>)"
proof -
  obtain q acc where r: "(tx_interleave smp hw skb_ok)\<^sup>*\<^sup>* s (s\<lparr>ts_asked := q, ts_xmit := (X_Return r, p', m'), ts_acc := acc\<rparr>)"
    using call_reach [OF assms] by blast
  have "tx_interleave smp hw skb_ok (s\<lparr>ts_asked := q, ts_xmit := (X_Return r, p', m'), ts_acc := acc\<rparr>)
      (s\<lparr>ts_asked := q, ts_xmit := (X_Idle, p', m'), ts_acc := acc\<rparr>)"
    using tx_interleave.Move [of smp "s\<lparr>ts_asked := q, ts_xmit := (X_Return r, p', m'), ts_acc := acc\<rparr>" "X_Return r" p' m' hw skb_ok]
      assms(1) by simp
  with r show ?thesis by (auto intro: rtranclp.rtrancl_into_rtrancl)
qed

text \<open>Two transmissions fill a ring of two slots; the first leaves the queue awake.\<close>

lemma full_ring:
  assumes "tx_inv f m" and "length (inflight f m) = nslots f" and "i \<in> set (ring_order f)"
  shows "\<not> tx_sent f m i"
proof -
  have "length (filter (\<lambda>i. \<not> tx_sent f m i) (ring_order f)) = length (ring_order f)"
    using assms(2) by (simp add: inflight_def ring_order_def)
  then have "filter (\<lambda>i. \<not> tx_sent f m i) (ring_order f) = ring_order f"
    using length_filter_less by (metis (mono_tags, lifting) filter_id_conv nless_le)
  then show ?thesis using assms(3) by (metis (mono_tags, lifting) filter_id_conv)
qed

lemma first_xmit:
  assumes inv: "tx_inv (p_tx_fifo p0) m0" and free: "\<And>i. i < 2 \<Longrightarrow> tx_sent (p_tx_fifo p0) m0 i"
    and n: "nslots (p_tx_fifo p0) = 2" "\<not> nd_stopped (p_netdev p0)" and run: "ccat_eth_start_xmit hw skb0 p0 m0 = (r, p, m)"
  shows "r = NETDEV_TX_OK" and "tx_inv (p_tx_fifo p) m" and "inflight (p_tx_fifo p) m = [skb_data skb0]"
    and "nslots (p_tx_fifo p) = 2" and "tx_sent (p_tx_fifo p) m (cursor (p_tx_fifo p))" and "\<not> nd_stopped (p_netdev p)"
proof -
  have "ring_wf (p_tx_fifo p0)" using inv by (simp add: tx_inv_def)
  then have cur: "tx_sent (p_tx_fifo p0) m0 (cursor (p_tx_fifo p0))" using free ring_inc(3) n(1) by metis
  have "inflight (p_tx_fifo p0) m0 = []" using free ring_order_bound [of _ "p_tx_fifo p0"] n(1) by (simp add: inflight_def filter_empty_conv)
  note x = xmit_dma_inflight [OF inv run, unfolded this]
  show "r = NETDEV_TX_OK" using x(3) cur by (cases r) auto
  show "tx_inv (p_tx_fifo p) m" "inflight (p_tx_fifo p) m = [skb_data skb0]"
    using x(1,2) cur by (simp_all add: skb0_fits)
  show "nslots (p_tx_fifo p) = 2" using xmit_keeps_ring [OF run] n by simp
  show sent: "tx_sent (p_tx_fifo p) m (cursor (p_tx_fifo p))"
    by (rule xmit_dma_next_slot [OF inv _ _ skb0_fits run]) (simp_all add: n free)
  show "\<not> nd_stopped (p_netdev p)" using xmit_dma_queue_state [OF inv run] n(2) sent by simp
qed

lemma second_xmit_full:
  assumes inv: "tx_inv (p_tx_fifo p1) m1" and one: "length (inflight (p_tx_fifo p1) m1) = 1" "nslots (p_tx_fifo p1) = 2"
    and free: "tx_sent (p_tx_fifo p1) m1 (cursor (p_tx_fifo p1))" and run: "ccat_eth_start_xmit hw skb0 p1 m1 = (r, p, m)"
  shows "tx_inv (p_tx_fifo p) m" and "\<not> tx_sent (p_tx_fifo p) m (cursor (p_tx_fifo p))"
proof -
  note x = xmit_dma_inflight [OF inv run]
  show "tx_inv (p_tx_fifo p) m" by (rule x(1))
  show "\<not> tx_sent (p_tx_fifo p) m (cursor (p_tx_fifo p))"
  proof (rule full_ring [OF x(1)])
    have "nslots (p_tx_fifo p) = 2" using xmit_keeps_ring [OF run] one(2) by simp
    then show "length (inflight (p_tx_fifo p) m) = nslots (p_tx_fifo p)" using x(2) one(1) free skb0_fits by simp
    show "cursor (p_tx_fifo p) \<in> set (ring_order (p_tx_fifo p))" using x(1) by (simp add: ring_order_Cons tx_inv_def)
  qed
qed

text \<open>A device whose registers read as ones everywhere has its link up.\<close>

lemma link_bit: "fst (ccat_eth_priv_read_link_state ram_bus p (m\<lparr>dev := \<lambda>_. 1\<rparr>))"
proof -
  have "replicate 4 (1 :: u8) = [1, 1, 1, 1]" by (simp add: numeral_eq_Suc)
  then show ?thesis
    by (simp add: ccat_eth_priv_read_link_state_def ram_bus_def mem_read_const le_word_def)
qed

text \<open>The callback up to its test of the transmit ring, while the link stays up.\<close>

lemma callback_to_test:
  fixes s :: "memory tx_threads"
  assumes "ring_inv (pc, p, m)" and "ts_xmit s = (pc, p, m)" and "ts_poll s = P_Idle" and "p_timer p" and "nd_carrier (p_netdev p)"
  shows "\<exists>p' m'. (tx_interleave smp ram_bus skb_ok)\<^sup>*\<^sup>* s (s\<lparr>ts_xmit := (pc, p', m'), ts_poll := P_Tx\<rparr>) \<and>
    rx_only p p' \<and> (\<forall>a. in_ring (p_tx_fifo p) a \<longrightarrow> ram m' a = ram m a)"
proof -
  let ?m = "m\<lparr>dev := \<lambda>_. 1\<rparr>" and ?step = "tx_interleave smp ram_bus skb_ok"
  have a: "?step s (s\<lparr>ts_xmit := (pc, p, ?m)\<rparr>)" using assms(2) by (intro tx_interleave.Other) simp_all
  obtain l h where rd: "ccat_eth_priv_read_link_state ram_bus p ?m = (l, ?m\<lparr>dev := h\<rparr>)" using read_link_state_eq by (rule that)
  then have l: "l" using link_bit [of p m] by simp
  then have "poll_link ram_bus skb_ok p ?m = Inr (p, ?m\<lparr>dev := h\<rparr>)" using rd assms(5) by (simp add: poll_link_def)
  then have b: "?step (s\<lparr>ts_xmit := (pc, p, ?m)\<rparr>) (s\<lparr>ts_xmit := (pc, p, ?m\<lparr>dev := h\<rparr>), ts_poll := P_Rx\<rparr>)"
    using tx_interleave.Link [of "s\<lparr>ts_xmit := (pc, p, ?m)\<rparr>" pc p ?m ram_bus skb_ok p "?m\<lparr>dev := h\<rparr>" smp] assms(3-5)
    by (simp add: link_comes_up_def)
  obtain p' m' where run: "poll_rx ram_bus skb_ok p (?m\<lparr>dev := h\<rparr>) = (p', m')" by fastforce
  have c: "?step (s\<lparr>ts_xmit := (pc, p, ?m\<lparr>dev := h\<rparr>), ts_poll := P_Rx\<rparr>) (s\<lparr>ts_xmit := (pc, p', m'), ts_poll := P_Tx\<rparr>)"
    using tx_interleave.Rx [of "s\<lparr>ts_xmit := (pc, p, ?m\<lparr>dev := h\<rparr>), ts_poll := P_Rx\<rparr>" pc p "?m\<lparr>dev := h\<rparr>" ram_bus skb_ok p' m' smp] run
    by simp
  have "ring_inv (pc, p, ?m\<lparr>dev := h\<rparr>)" using same_rings_keep(1) [OF assms(1), of p "?m\<lparr>dev := h\<rparr>"] by simp
  note r = rx_poll_memory [OF this run]
  have reach: "?step\<^sup>*\<^sup>* s (s\<lparr>ts_xmit := (pc, p', m'), ts_poll := P_Tx\<rparr>)"
    using a b c by (meson converse_rtranclp_into_rtranclp r_into_rtranclp)
  show ?thesis using reach r by (intro exI [of _ p'] exI [of _ m']) simp
qed

text \<open>On several processors the branch of \<open>ccat_eth_start_xmit\<close> that reports a full ring with an awake
  queue can be reached: the timer finds a free slot, the stack fills it and stops the queue, the
  timer wakes the queue.\<close>

theorem smp_busy_reachable:
  "\<exists>s. (tx_interleave True ram_bus (\<lambda>_ _. True))\<^sup>*\<^sup>* (tx_threads0 eth_priv0 (machine0 1)) s \<and>
     fst (ts_xmit s) = X_Return NETDEV_TX_BUSY"
proof -
  let ?step = "tx_interleave True ram_bus (\<lambda>_ _. True)" and ?s0 = "tx_threads0 eth_priv0 (machine0 1)"
  have ring0: "ring_inv (X_Idle, eth_priv0, machine0 1)" using threads0_inv(1) [OF eth_priv0_inv] by (simp add: order_inv_def tx_threads0_def)
  have n0: "nslots (p_tx_fifo eth_priv0) = 2" "\<not> nd_stopped (p_netdev eth_priv0)" "p_timer eth_priv0" "nd_carrier (p_netdev eth_priv0)"
    by (simp_all add: eth_priv0_defs)
  obtain p m where s1: "?step\<^sup>*\<^sup>* ?s0 (?s0\<lparr>ts_xmit := (X_Idle, p, m), ts_poll := P_Tx\<rparr>)"
    and rx: "rx_only eth_priv0 p" and mem: "\<forall>a. in_ring (p_tx_fifo eth_priv0) a \<longrightarrow> ram m a = ram (machine0 1) a"
    using callback_to_test [OF ring0, of ?s0 True "\<lambda>_ _. True"] n0 by (auto simp: tx_threads0_def)
  have tx: "p_tx_fifo p = p_tx_fifo eth_priv0" "\<not> nd_stopped (p_netdev p)" using rx n0(2) by (simp_all add: rx_only_def)
  have inv: "tx_inv (p_tx_fifo p) m" using mem machine0_tx(2) unfolding tx(1) by (subst tx_inv_cong [of _ m "machine0 1"]) simp_all
  have free: "tx_sent (p_tx_fifo p) m i" if "i < 2" for i
    using mem machine0_tx(1) that n0(1) unfolding tx(1) by (subst tx_views_cong(1) [of _ m "machine0 1"]) simp_all
  let ?s1 = "?s0\<lparr>ts_xmit := (X_Idle, p, m), ts_poll := P_Tx\<rparr>"
  obtain r1 p1 m1 where run1: "ccat_eth_start_xmit ram_bus skb0 p m = (r1, p1, m1)" by (metis prod.collapse)
  note f = first_xmit [OF inv free _ tx(2) run1, unfolded tx(1), OF _ n0(1)]
  obtain q2 a2 where s2: "?step\<^sup>*\<^sup>* ?s1 (?s1\<lparr>ts_asked := q2, ts_xmit := (X_Idle, p1, m1), ts_acc := a2\<rparr>)"
    using call_reach_idle [OF _ _ tx(2) run1, of True ?s1 "\<lambda>_ _. True"] by auto
  let ?s2 = "?s1\<lparr>ts_asked := q2, ts_xmit := (X_Idle, p1, m1), ts_acc := a2\<rparr>"
  let ?s3 = "?s2\<lparr>ts_poll := P_Wake\<rparr>"
  have "poll_test ram_bus p1 m1 = (True, m1)" using f(2,5) by (simp add: poll_test_def dma_tx_ready_eq tx_inv_def)
  then have s3: "?step ?s2 ?s3"
    using tx_interleave.Test [of ?s2 X_Idle p1 m1 ram_bus True m1 True "\<lambda>_ _. True"] by (simp add: tx_threads0_def)
  obtain r2 p2 m2 where run2: "ccat_eth_start_xmit ram_bus skb0 p1 m1 = (r2, p2, m2)" by (metis prod.collapse)
  have one: "length (inflight (p_tx_fifo p1) m1) = 1" by (simp add: f(3))
  note g = second_xmit_full [OF f(2) one f(4,5) run2]
  obtain q4 a4 where s4: "?step\<^sup>*\<^sup>* ?s3 (?s3\<lparr>ts_asked := q4, ts_xmit := (X_Idle, p2, m2), ts_acc := a4\<rparr>)"
    using call_reach_idle [OF _ _ f(6) run2, of True ?s3 "\<lambda>_ _. True"] by auto
  let ?s4 = "?s3\<lparr>ts_asked := q4, ts_xmit := (X_Idle, p2, m2), ts_acc := a4\<rparr>"
  let ?s5 = "?s4\<lparr>ts_xmit := (X_Idle, poll_wake p2, m2), ts_poll := P_Idle\<rparr>"
  have s5: "?step ?s4 ?s5" using tx_interleave.Wake [of ?s4 X_Idle p2 m2 True ram_bus "\<lambda>_ _. True"] by simp
  obtain r3 p3 m3 where run3: "ccat_eth_start_xmit ram_bus skb0 (poll_wake p2) m2 = (r3, p3, m3)" by (metis prod.collapse)
  have busy: "r3 = NETDEV_TX_BUSY"
    using xmit_dma_inflight(3) [OF _ run3] g skb0_fits by (simp add: poll_wake_def)
  obtain q6 a6 where s6: "?step\<^sup>*\<^sup>* ?s5 (?s5\<lparr>ts_asked := q6, ts_xmit := (X_Return r3, p3, m3), ts_acc := a6\<rparr>)"
    using call_reach [OF _ _ _ run3, of True ?s5 "\<lambda>_ _. True"] by (auto simp: poll_wake_def netdev_defs)
  have "?step\<^sup>*\<^sup>* ?s0 ?s3" using s1 s2 s3 by (meson rtranclp.rtrancl_into_rtrancl rtranclp_trans)
  moreover have "?step\<^sup>*\<^sup>* ?s3 ?s5" using s4 s5 by (meson rtranclp.rtrancl_into_rtrancl)
  ultimately show ?thesis
    using s6 busy by (intro exI [of _ "?s5\<lparr>ts_asked := q6, ts_xmit := (X_Return r3, p3, m3), ts_acc := a6\<rparr>"])
      (auto intro: rtranclp_trans)
qed

section \<open>The cursor behind the ring\<close>

text \<open>Between the two stores of \<open>ccat_eth_fifo_inc\<close> the cursor can lie behind the last slot, even on one
  processor; a poll of the timer there reads flags that belong to no slot. On one processor the second
  test of the stack's thread comes after it and decides the state of the queue (\<open>interleave_keeps_awake\<close>).\<close>

lemma first_xmit0:
  assumes "ccat_eth_start_xmit ram_bus skb0 eth_priv0 (machine0 1) = (r, p, m)"
  shows "r = NETDEV_TX_OK" and "tx_inv (p_tx_fifo p) m" and "inflight (p_tx_fifo p) m = [skb_data skb0]"
    and "tx_sent (p_tx_fifo p) m (cursor (p_tx_fifo p))" and "\<not> nd_stopped (p_netdev p)"
  using first_xmit [OF machine0_tx(2) machine0_tx(1) _ _ assms] by (simp_all add: eth_priv0_defs)

theorem poll_reads_behind_ring:
  "\<exists>s p m. (tx_interleave False ram_bus skb_ok)\<^sup>*\<^sup>* (tx_threads0 eth_priv0 (machine0 1)) s \<and> ts_xmit s = (X_Wrap, p, m) \<and>
     ts_poll s = P_Idle \<and> f_end (p_tx_fifo p) < f_next (p_tx_fifo p)"
proof -
  let ?s0 = "tx_threads0 eth_priv0 (machine0 1)" and ?reach = "(tx_interleave False ram_bus skb_ok)\<^sup>*\<^sup>*"
  obtain r1 p1 m1 where run1: "ccat_eth_start_xmit ram_bus skb0 eth_priv0 (machine0 1) = (r1, p1, m1)" by (metis prod.collapse)
  note f = first_xmit0 [OF run1]
  have "\<not> nd_stopped (p_netdev eth_priv0)" by (simp add: eth_priv0_defs)
  then obtain q1 a1 where s1: "?reach ?s0 (?s0\<lparr>ts_asked := q1, ts_xmit := (X_Idle, p1, m1), ts_acc := a1\<rparr>)"
    using call_reach_idle [OF _ _ _ run1, of False ?s0 skb_ok] by (auto simp: tx_threads0_def)
  let ?s1 = "?s0\<lparr>ts_asked := q1, ts_xmit := (X_Idle, p1, m1), ts_acc := a1\<rparr>"
  let ?s2 = "?s1\<lparr>ts_xmit := (X_Entry skb0, p1, m1), ts_asked := ts_asked ?s1 @ (if xmit_fits skb0 then [skb_data skb0] else [])\<rparr>"
  have s2: "tx_interleave False ram_bus skb_ok ?s1 ?s2" using f(5) by (intro tx_interleave.Call) (simp_all add: tx_threads0_def)
  obtain a2 where s3: "?reach ?s2 (?s2\<lparr>ts_xmit := (xmit_move ram_bus ^^ 3) (ts_xmit ?s2), ts_acc := a2\<rparr>)"
    using moves_reach [of False ?s2 ram_bus skb_ok 3] by (auto simp: tx_threads0_def)
  have reach: "?reach ?s0 (?s2\<lparr>ts_xmit := (xmit_move ram_bus ^^ 3) (ts_xmit ?s2), ts_acc := a2\<rparr>)"
    using s1 s2 s3 by (meson converse_rtranclp_into_rtranclp rtranclp_trans)
  have acc: "xmit_move ram_bus (X_Entry skb0, p1, m1) = (X_Queue skb0, p1, m1)"
    using f(2,4) skb0_fits by (simp add: xmit_fits_def dma_tx_ready_eq tx_inv_def)
  have nx: "f_next (p_tx_fifo p1) = 0x3800 \<and> f_end (p_tx_fifo p1) = 0x3800"
    using xmit_dma_accept(1) [OF machine0_tx(2) machine0_tx(1) skb0_fits run1]
    by (simp add: eth_priv0_defs ccat_eth_fifo_inc_def)
  obtain p m where three: "(xmit_move ram_bus ^^ 3) (X_Entry skb0, p1, m1) = (X_Wrap, p, m)"
    and "f_end (p_tx_fifo p) < f_next (p_tx_fifo p)"
    using nx acc by (simp add: numeral_3_eq_3 fifo_advance_def layout)
  then show ?thesis
    using reach by (intro exI [of _ "?s2\<lparr>ts_xmit := (X_Wrap, p, m), ts_acc := a2\<rparr>"] exI [of _ p] exI [of _ m])
      (simp add: tx_threads0_def)
qed

section \<open>Closed instances\<close>

text \<open>The example device with its carrier off: a frame is stored, then the link comes up.\<close>

definition eth_priv_down :: ccat_eth_priv where
  "eth_priv_down = eth_priv0\<lparr>p_netdev := (p_netdev eth_priv0)\<lparr>nd_carrier := False\<rparr>\<rparr>"

lemma eth_priv_down_inv: "eth_inv eth_priv_down (machine0 1)"
  using eth_priv0_inv by (simp add: eth_priv_down_def eth_inv_def rings_apart_def)

lemma link_up_returns: "\<exists>p' m'. ccat_eth_link_up hw (\<lambda>_ _. True) p m = Inr (p', m')"
  by (simp add: ccat_eth_link_up_def ccat_eth_xmit_raw_def dev_alloc_skb_def Let_def split: prod.split)

lemma frame_then_link_up:
  "\<exists>s p m. (tx_interleave smp ram_bus (\<lambda>_ _. True))\<^sup>*\<^sup>* (tx_threads0 eth_priv_down (machine0 1)) s \<and>
     ts_xmit s = (X_Idle, p, m) \<and> ts_out s = [(Discarded, [1, 2, 3])] \<and> ts_ups s = 1 \<and>
     inflight (p_tx_fifo p) m = [frameForwardEthernetFrames]"
proof -
  let ?step = "tx_interleave smp ram_bus (\<lambda>_ _. True)" and ?s0 = "tx_threads0 eth_priv_down (machine0 1)"
  have tx: "p_tx_fifo eth_priv_down = p_tx_fifo eth_priv0" by (simp add: eth_priv_down_def)
  have n: "nslots (p_tx_fifo eth_priv_down) = 2" "\<not> nd_stopped (p_netdev eth_priv_down)" by (simp_all add: eth_priv_down_def eth_priv0_defs)
  obtain r p m where run: "ccat_eth_start_xmit ram_bus skb0 eth_priv_down (machine0 1) = (r, p, m)" by (metis prod.collapse)
  have fl: "inflight (p_tx_fifo p) m = [[1, 2, 3]]"
    using first_xmit(3) [OF _ _ n run] by (simp add: tx machine0_tx) (simp add: skb0_def)
  obtain q a where s1: "?step\<^sup>*\<^sup>* ?s0 (?s0\<lparr>ts_asked := q, ts_xmit := (X_Idle, p, m), ts_acc := a\<rparr>)"
    using call_reach_idle [OF _ _ n(2) run, of smp ?s0 "\<lambda>_ _. True"] by (auto simp: tx_threads0_def)
  let ?s1 = "?s0\<lparr>ts_asked := q, ts_xmit := (X_Idle, p, m), ts_acc := a\<rparr>" and ?m = "m\<lparr>dev := \<lambda>_. 1\<rparr>"
  have inv: "order_inv 2 ?s1" using reach_order [OF s1 threads0_inv(1) [OF eth_priv_down_inv]] n by simp
  have s2: "?step ?s1 (?s1\<lparr>ts_xmit := (X_Idle, p, ?m)\<rparr>)" by (intro tx_interleave.Other) simp_all
  have down: "\<not> nd_carrier (p_netdev p)" "p_timer p"
    using xmit_keeps_ring(5) [OF run] start_xmit_account(5) [OF run [unfolded ccat_eth_start_xmit_def]]
    by (simp_all add: eth_priv_down_def eth_priv0_def Let_def)
  have up: "link_comes_up ram_bus p ?m" using down link_bit by (simp add: link_comes_up_def)
  obtain m2 where rd: "ccat_eth_priv_read_link_state ram_bus p ?m = (True, m2)"
    using up by (cases "ccat_eth_priv_read_link_state ram_bus p ?m") (simp add: link_comes_up_def)
  obtain p' m' where "ccat_eth_link_up ram_bus (\<lambda>_ _. True) p m2 = Inr (p', m')" using link_up_returns by blast
  then have lk: "poll_link ram_bus (\<lambda>_ _. True) p ?m = Inr (p', m')" using rd down by (simp add: poll_link_def)
  have ring: "ring_inv (X_Idle, p, ?m)" using inv same_rings_keep(1) [of X_Idle p m p ?m] by (simp add: order_inv_def)
  let ?s3 = "?s1\<lparr>ts_xmit := (X_Idle, p', m'), ts_poll := P_Rx, ts_asked := q @ [frameForwardEthernetFrames],
    ts_acc := a @ [frameForwardEthernetFrames], ts_out := [(Discarded, [1, 2, 3])], ts_ups := 1\<rparr>"
  have s3: "?step (?s1\<lparr>ts_xmit := (X_Idle, p, ?m)\<rparr>) ?s3"
    using tx_interleave.Link_Up [of "?s1\<lparr>ts_xmit := (X_Idle, p, ?m)\<rparr>" p ?m ram_bus "\<lambda>_ _. True" p' m' smp] down up lk fl
    by (simp add: tx_threads0_def)
  have "?step\<^sup>*\<^sup>* ?s0 ?s3" using s1 s2 s3 by (meson rtranclp.rtrancl_into_rtrancl)
  moreover have "inflight (p_tx_fifo p') m' = [frameForwardEthernetFrames]"
    using link_poll_up(2) [OF ring up lk] by (simp add: ring_frames_def)
  ultimately show ?thesis by (intro exI [of _ ?s3] exI [of _ p'] exI [of _ m']) simp
qed

theorem tx_threads_wire_order_witness:
  "\<exists>s. (tx_interleave True ram_bus (\<lambda>_ _. True))\<^sup>*\<^sup>* (tx_threads0 eth_priv_down (machine0 1)) s \<and>
     ts_acc s = [[1, 2, 3], frameForwardEthernetFrames] \<and> ts_out s = [(Discarded, [1, 2, 3])]"
proof -
  obtain s p m where s: "(tx_interleave True ram_bus (\<lambda>_ _. True))\<^sup>*\<^sup>* (tx_threads0 eth_priv_down (machine0 1)) s"
    and x: "ts_xmit s = (X_Idle, p, m)" "ts_out s = [(Discarded, [1, 2, 3])]"
      "inflight (p_tx_fifo p) m = [frameForwardEthernetFrames]"
    using frame_then_link_up [of True] by blast
  from tx_threads_wire_order [OF s x(1) eth_priv_down_inv] have "ts_acc s = [[1, 2, 3], frameForwardEthernetFrames]" by (simp add: x)
  with s x show ?thesis by blast
qed

theorem one_processor_never_busy_witness:
  "\<exists>s. (tx_interleave False ram_bus (\<lambda>_ _. True))\<^sup>*\<^sup>* (tx_threads0 eth_priv0 (machine0 1)) s \<and> fst (ts_xmit s) \<noteq> X_Idle \<and>
     fst (ts_xmit s) \<noteq> X_Return NETDEV_TX_BUSY"
proof -
  let ?s0 = "tx_threads0 eth_priv0 (machine0 1)"
  obtain r p m where run: "ccat_eth_start_xmit ram_bus skb0 eth_priv0 (machine0 1) = (r, p, m)" by (metis prod.collapse)
  have "\<not> nd_stopped (p_netdev eth_priv0)" by (simp add: eth_priv0_defs)
  then obtain q a where s: "(tx_interleave False ram_bus (\<lambda>_ _. True))\<^sup>*\<^sup>* ?s0 (?s0\<lparr>ts_asked := q, ts_xmit := (X_Return r, p, m), ts_acc := a\<rparr>)"
    using call_reach [OF _ _ _ run, of False ?s0 "\<lambda>_ _. True"] by (auto simp: tx_threads0_def)
  from one_processor_never_busy [OF s eth_priv0_inv] s show ?thesis
    by (intro exI [of _ "?s0\<lparr>ts_asked := q, ts_xmit := (X_Return r, p, m), ts_acc := a\<rparr>"]) simp
qed

end
