(* ===== verification/Ccat_Rx_Race.thy ===== *)
theory Ccat_Rx_Race
  imports Ccat_Netdev "HOL-Library.Sublist"
begin

text \<open>
  \<open>poll_rx\<close> of \<^verbatim>\<open>src/netdev.c\<close> on the DMA ring while the device receives. The device owns the slots the
  driver gave back, fills the oldest of them whenever a frame arrives, and takes notice of a slot
  only by the descriptor the driver writes to its register. Here the poll is a thread with a program
  counter that makes one access to what driver and device share per move, and frames arrive between
  any two moves; everything else of the machine and of the driver may change meanwhile.
\<close>

section \<open>The thread\<close>

text \<open>The two halves of \<open>ccat_eth_rx_fifo_dma_add\<close>: the flag is cleared, then the slot is given to the
  device.\<close>

definition rx_clear :: "rx_ops ccat_eth_fifo \<Rightarrow> 'h machine \<Rightarrow> 'h machine" where
  "rx_clear f m = ram_store (f_next f + dma_rx_flags) (le_bytes 4 (0 :: u32)) m"

definition rx_descriptor :: "rx_ops ccat_eth_fifo \<Rightarrow> u32" where
  "rx_descriptor f = push_bit 31 1 OR of_nat (f_next f - f_start f)"

definition rx_give :: "'h mmio \<Rightarrow> rx_ops ccat_eth_fifo \<Rightarrow> 'h machine \<Rightarrow> 'h machine" where
  "rx_give hw f m = io_write32 hw (rx_descriptor f) (f_reg f) m"

lemma rx_add_halves: "ccat_eth_rx_fifo_dma_add hw f m = rx_give hw f (rx_clear f m)"
  by (simp add: ccat_eth_rx_fifo_dma_add_def rx_clear_def rx_give_def rx_descriptor_def Let_def)

text \<open>Where the poll is: not running, before a test of the ring with \<open>rx_per_poll\<close> as it then is, before
  a frame of the tested length is received, before the flag of its slot is cleared, before the slot
  is given back, and before the cursor moves on.\<close>

datatype rx_pc = R_Idle | R_Ready nat | R_Receive nat nat | R_Clear nat | R_Give nat | R_Inc nat

fun rx_move :: "'h mmio \<Rightarrow> skb_env \<Rightarrow> rx_pc \<times> ccat_eth_priv \<times> 'h machine \<Rightarrow> rx_pc \<times> ccat_eth_priv \<times> 'h machine" where
  "rx_move hw skb_ok (R_Idle, p, m) = (R_Ready (FIFO_LENGTH div 2), p, m)"
| "rx_move hw skb_ok (R_Ready n, p, m) =
     (let (len, m) = rx_ready hw (p_rx_fifo p) m
      in (if len \<noteq> 0 \<and> n - 1 \<noteq> 0 then R_Receive len (n - 1) else R_Idle, p, m))"
| "rx_move hw skb_ok (R_Receive len n, p, m) =
     (let (p, m) = ccat_eth_receive (rx_copy hw) skb_ok len p m in (R_Clear n, p, m))"
| "rx_move hw skb_ok (R_Clear n, p, m) = (R_Give n, p, rx_clear (p_rx_fifo p) m)"
| "rx_move hw skb_ok (R_Give n, p, m) = (R_Inc n, p, rx_give hw (p_rx_fifo p) m)"
| "rx_move hw skb_ok (R_Inc n, p, m) = (R_Ready n, on_rx ccat_eth_fifo_inc p, m)"

text \<open>Run on its own, the thread is the loop of \<open>poll_rx\<close>.\<close>

lemma receive_ops: "f_ops (p_rx_fifo (fst (ccat_eth_receive copy skb_ok len p m))) = f_ops (p_rx_fifo p)"
  by (simp add: ccat_eth_receive_def netdev_defs Let_def split: prod.split)

lemma rx_moves_loop:
  assumes "f_ops (p_rx_fifo p) = Dma_Rx" and "rx_ready hw (p_rx_fifo p) m = (len, m1)"
    and "poll_rx_loop (rx_ready hw) (rx_copy hw) (rx_add hw) skb_ok len (Suc n) p m1 = (p', m')"
  shows "\<exists>k. (rx_move hw skb_ok ^^ k) (R_Ready (Suc n), p, m) = (R_Idle, p', m') \<and>
    (\<forall>j < k. fst ((rx_move hw skb_ok ^^ j) (R_Ready (Suc n), p, m)) \<noteq> R_Idle)"
  using assms
proof (induction n arbitrary: len p m m1)
  case 0
  then have "(rx_move hw skb_ok ^^ 1) (R_Ready (Suc 0), p, m) = (R_Idle, p', m')" by simp
  then show ?case by (intro exI [of _ 1]) simp
next
  case (Suc n)
  show ?case
  proof (cases "len = 0")
    case True
    then have "(rx_move hw skb_ok ^^ 1) (R_Ready (Suc (Suc n)), p, m) = (R_Idle, p', m')" using Suc.prems by simp
    then show ?thesis by (intro exI [of _ 1]) simp
  next
    case False
    obtain p1 m2 where recv: "ccat_eth_receive (rx_copy hw) skb_ok len p m1 = (p1, m2)" by fastforce
    let ?p2 = "on_rx ccat_eth_fifo_inc p1"
    let ?m3 = "rx_add hw (p_rx_fifo p1) m2"
    have ops: "f_ops (p_rx_fifo p1) = Dma_Rx" using receive_ops [of "rx_copy hw" skb_ok len p m1] recv Suc.prems(1) by simp
    obtain len2 m4 where rdy: "rx_ready hw (p_rx_fifo ?p2) ?m3 = (len2, m4)" by fastforce
    have "poll_rx_loop (rx_ready hw) (rx_copy hw) (rx_add hw) skb_ok len2 (Suc n) ?p2 m4 = (p', m')"
      using Suc.prems(3) False recv rdy by (simp add: Let_def)
    then obtain k where k: "(rx_move hw skb_ok ^^ k) (R_Ready (Suc n), ?p2, ?m3) = (R_Idle, p', m')"
      "\<forall>j < k. fst ((rx_move hw skb_ok ^^ j) (R_Ready (Suc n), ?p2, ?m3)) \<noteq> R_Idle"
      using Suc.IH [OF _ rdy] ops by auto
    have five: "(rx_move hw skb_ok ^^ 5) (R_Ready (Suc (Suc n)), p, m) = (R_Ready (Suc n), ?p2, ?m3)"
      using Suc.prems(2) False recv ops by (simp add: numeral_eq_Suc rx_add_def rx_add_halves)
    have "(rx_move hw skb_ok ^^ (k + 5)) (R_Ready (Suc (Suc n)), p, m) = (R_Idle, p', m')"
      unfolding funpow_add o_apply five by (rule k(1))
    moreover have "fst ((rx_move hw skb_ok ^^ j) (R_Ready (Suc (Suc n)), p, m)) \<noteq> R_Idle" if "j < k + 5" for j
    proof (cases "j < 5")
      case True
      then have "j \<in> {0, 1, 2, 3, 4}" by auto
      then show ?thesis using Suc.prems(2) False recv by (auto simp: numeral_eq_Suc)
    next
      case False
      then have i: "j = (j - 5) + 5" "j - 5 < k" using that by simp_all
      show ?thesis by (subst i(1), unfold funpow_add o_apply five) (use k(2) i(2) in blast)
    qed
    ultimately show ?thesis by blast
  qed
qed

lemma rx_moves:
  assumes "f_ops (p_rx_fifo p) = Dma_Rx" and "poll_rx hw skb_ok p m = (p', m')"
  shows "\<exists>k. (rx_move hw skb_ok ^^ Suc k) (R_Idle, p, m) = (R_Idle, p', m') \<and>
    (\<forall>j < k. fst ((rx_move hw skb_ok ^^ Suc j) (R_Idle, p, m)) \<noteq> R_Idle)"
proof -
  obtain len m1 where rdy: "rx_ready hw (p_rx_fifo p) m = (len, m1)" by fastforce
  have "poll_rx_loop (rx_ready hw) (rx_copy hw) (rx_add hw) skb_ok len (Suc 31) p m1 = (p', m')"
    using assms(2) rdy by (simp add: poll_rx_def poll_rx_with_def FIFO_LENGTH_def)
  from rx_moves_loop [OF assms(1) rdy this] obtain k where
    "(rx_move hw skb_ok ^^ k) (rx_move hw skb_ok (R_Idle, p, m)) = (R_Idle, p', m')"
    "\<forall>j < k. fst ((rx_move hw skb_ok ^^ j) (rx_move hw skb_ok (R_Idle, p, m))) \<noteq> R_Idle" by (auto simp: FIFO_LENGTH_def)
  then show ?thesis by (intro exI [of _ k]) (simp only: funpow_Suc_right o_apply simp_thms)
qed

section \<open>Interleavings with the device\<close>

text \<open>Driver and machine, the slots the device owns in the order they were given to it, the frames that
  arrived in a slot and those the driver took from one.\<close>

record 'h rx_threads =
  rt_poll :: "rx_pc \<times> ccat_eth_priv \<times> 'h machine"
  rt_owned :: "nat list"
  rt_arrived :: "u8 list list"
  rt_handled :: "u8 list list"

text \<open>The device stores the frame, its length and the flag; \<open>v\<close> are the flags it sets.\<close>

definition dev_fill :: "rx_ops ccat_eth_fifo \<Rightarrow> nat \<Rightarrow> u32 \<Rightarrow> u8 list \<Rightarrow> 'h machine \<Rightarrow> 'h machine" where
  "dev_fill f i v bs m =
     ram_store (slot f i + dma_rx_flags) (le_bytes 4 v)
       (ram_store (slot f i + dma_length) (le_bytes 2 (of_nat (dma_rx_flags + length bs) :: u16))
          (ram_store (slot f i + sizeof_dma_hdr) bs m))"

text \<open>The slots a descriptor gives to the device: with its highest bit set, the one at the offset in the
  other bits; otherwise none.\<close>

definition dev_slots :: "u32 \<Rightarrow> nat list" where
  "dev_slots d =
     (let offset = unat (take_bit 31 d)
      in if bit d 31 \<and> sizeof_eth_frame dvd offset then [offset div sizeof_eth_frame] else [])"

text \<open>What a move of the thread means for the device, which decodes the descriptor written to its register,
  and for the record of frames.\<close>

fun given :: "rx_pc \<Rightarrow> ccat_eth_priv \<Rightarrow> nat list" where
  "given (R_Give n) p = dev_slots (rx_descriptor (p_rx_fifo p))"
| "given _ p = []"

fun taken :: "rx_pc \<Rightarrow> ccat_eth_priv \<Rightarrow> 'h machine \<Rightarrow> u8 list list" where
  "taken (R_Receive len n) p m = [mem_read (ram m) (f_next (p_rx_fifo p) + sizeof_dma_hdr) len]"
| "taken _ p m = []"

definition rx_same :: "ccat_eth_priv \<Rightarrow> ccat_eth_priv \<Rightarrow> bool" where
  "rx_same p p' \<longleftrightarrow> p_rx_fifo p' = p_rx_fifo p \<and> nd_rx (p_netdev p') = nd_rx (p_netdev p) \<and>
     nd_allocs (p_netdev p') = nd_allocs (p_netdev p)"

inductive rx_interleave :: "'h mmio \<Rightarrow> skb_env \<Rightarrow> 'h rx_threads \<Rightarrow> 'h rx_threads \<Rightarrow> bool" for hw skb_ok where
  Move: "rt_poll s = (pc, p, m) \<Longrightarrow>
    rx_interleave hw skb_ok s
      (s\<lparr>rt_poll := rx_move hw skb_ok (pc, p, m), rt_owned := rt_owned s @ given pc p,
         rt_handled := rt_handled s @ taken pc p m\<rparr>)"
| Arrive: "rt_poll s = (pc, p, m) \<Longrightarrow> rt_owned s = i # is \<Longrightarrow> bs \<noteq> [] \<Longrightarrow> length bs \<le> MAX_PAYLOAD_SIZE \<Longrightarrow>
    v AND CCAT_FRAME_RECEIVED \<noteq> 0 \<Longrightarrow>
    rx_interleave hw skb_ok s
      (s\<lparr>rt_poll := (pc, p, dev_fill (p_rx_fifo p) i v bs m), rt_owned := is, rt_arrived := rt_arrived s @ [bs]\<rparr>)"
| Other: "rt_poll s = (pc, p, m) \<Longrightarrow> rx_same p p' \<Longrightarrow> (\<And>a. in_ring (p_rx_fifo p) a \<Longrightarrow> ram m' a = ram m a) \<Longrightarrow>
    rx_interleave hw skb_ok s (s\<lparr>rt_poll := (pc, p', m')\<rparr>)"

text \<open>After a reset of the ring, before anything arrived: the device owns every slot.\<close>

definition rx_threads0 :: "ccat_eth_priv \<Rightarrow> 'h machine \<Rightarrow> 'h rx_threads" where
  "rx_threads0 p m = \<lparr>rt_poll = (R_Idle, p, m), rt_owned = ring_order (p_rx_fifo p), rt_arrived = [], rt_handled = []\<rparr>"

section \<open>Views of the ring\<close>

text \<open>A slot's views depend on the memory of the slot only.\<close>

lemma rx_views_cong:
  assumes "\<And>x. slot f i \<le> x \<Longrightarrow> x < slot f i + sizeof_eth_frame \<Longrightarrow> ram m' x = ram m x"
  shows "rx_len f m' i = rx_len f m i"
    and "rx_len f m i \<le> MAX_PAYLOAD_SIZE \<Longrightarrow> rx_frame f m' i = rx_frame f m i"
proof -
  have rd: "mem_read (ram m') (slot f i + a) n = mem_read (ram m) (slot f i + a) n" if "a + n \<le> sizeof_eth_frame" for a n
    using that by (intro mem_read_cong assms) simp_all
  show len: "rx_len f m' i = rx_len f m i" by (rule rx_len_cong) (rule rd)
  show "rx_frame f m' i = rx_frame f m i" if "rx_len f m i \<le> MAX_PAYLOAD_SIZE"
    using that rd [of sizeof_dma_hdr "rx_len f m i"] by (simp add: rx_frame_def len MAX_PAYLOAD_SIZE_eq layout)
qed

lemma slot_apart:
  assumes "i \<noteq> j" and "slot f i \<le> x" and "x < slot f i + sizeof_eth_frame" and "b + k \<le> sizeof_eth_frame"
  shows "x < slot f j + b \<or> slot f j + b + k \<le> x"
  using slot_disjoint [OF assms(1), of 0 sizeof_eth_frame b k f] assms(2-4) by auto

lemma rx_clear_ram: "ring_wf f \<Longrightarrow> ram (rx_clear f m) = mem_write (ram m) (slot f (cursor f) + dma_rx_flags) (le_bytes 4 (0 :: u32))"
  using ring_next [of f] by (simp add: rx_clear_def)

lemma rx_clear_views:
  assumes "ring_wf f"
  shows "rx_len f (rx_clear f m) (cursor f) = 0"
    and "i \<noteq> cursor f \<Longrightarrow> rx_len f (rx_clear f m) i = rx_len f m i"
    and "i \<noteq> cursor f \<Longrightarrow> rx_len f m i \<le> MAX_PAYLOAD_SIZE \<Longrightarrow> rx_frame f (rx_clear f m) i = rx_frame f m i"
proof -
  show "rx_len f (rx_clear f m) (cursor f) = 0"
    by (simp add: rx_len_def fifo_dma_rx_ready_def rx_clear_ram [OF assms] mem_simps codec_simps)
  have other: "ram (rx_clear f m) x = ram m x"
    if "i \<noteq> cursor f" "slot f i \<le> x" "x < slot f i + sizeof_eth_frame" for i x
    using slot_apart [OF that, of dma_rx_flags 4] unfolding rx_clear_ram [OF assms]
    by (intro mem_write_outside) (simp add: layout)
  show "i \<noteq> cursor f \<Longrightarrow> rx_len f (rx_clear f m) i = rx_len f m i"
    and "i \<noteq> cursor f \<Longrightarrow> rx_len f m i \<le> MAX_PAYLOAD_SIZE \<Longrightarrow> rx_frame f (rx_clear f m) i = rx_frame f m i"
    using rx_views_cong [of f i "rx_clear f m" m] other by auto
qed

lemma dev_fill_views:
  assumes bs: "bs \<noteq> []" "length bs \<le> MAX_PAYLOAD_SIZE" and v: "v AND CCAT_FRAME_RECEIVED \<noteq> 0"
  shows "rx_len f (dev_fill f i v bs m) i = length bs" and "rx_frame f (dev_fill f i v bs m) i = bs"
    and "j \<noteq> i \<Longrightarrow> rx_len f (dev_fill f i v bs m) j = rx_len f m j"
    and "j \<noteq> i \<Longrightarrow> rx_len f m j \<le> MAX_PAYLOAD_SIZE \<Longrightarrow> rx_frame f (dev_fill f i v bs m) j = rx_frame f m j"
proof -
  have small: "unat (of_nat (dma_rx_flags + length bs) :: u16) = dma_rx_flags + length bs"
    using bs(2) by (simp add: unat_of_nat MAX_PAYLOAD_SIZE_eq layout del: of_nat_add)
  show len: "rx_len f (dev_fill f i v bs m) i = length bs"
    using v small by (simp add: rx_len_def fifo_dma_rx_ready_def dev_fill_def mem_simps codec_simps layout Let_def)
  show "rx_frame f (dev_fill f i v bs m) i = bs"
    unfolding rx_frame_def len by (simp add: dev_fill_def mem_simps layout)
  have other: "ram (dev_fill f i v bs m) x = ram m x"
    if "j \<noteq> i" "slot f j \<le> x" "x < slot f j + sizeof_eth_frame" for j x
    using slot_apart [OF that, of dma_rx_flags 4] slot_apart [OF that, of dma_length 2]
      slot_apart [OF that, of sizeof_dma_hdr "length bs"] bs(2)
    by (simp add: dev_fill_def mem_write_outside layout MAX_PAYLOAD_SIZE_eq)
  show "j \<noteq> i \<Longrightarrow> rx_len f (dev_fill f i v bs m) j = rx_len f m j"
    and "j \<noteq> i \<Longrightarrow> rx_len f m j \<le> MAX_PAYLOAD_SIZE \<Longrightarrow> rx_frame f (dev_fill f i v bs m) j = rx_frame f m j"
    using rx_views_cong [of f j "dev_fill f i v bs m" m] other by auto
qed

lemma rx_same_ring_views:
  assumes "\<And>a. in_ring f a \<Longrightarrow> ram m' a = ram m a" and "i < nslots f"
  shows "rx_len f m' i = rx_len f m i"
    and "rx_len f m i \<le> MAX_PAYLOAD_SIZE \<Longrightarrow> rx_frame f m' i = rx_frame f m i"
  using rx_views_cong [of f i m' m] assms slot_in_ring [of i f 0] by auto

text \<open>The descriptor gives the device the slot at the cursor.\<close>

lemma descriptor_slot:
  assumes "ring_wf f" and "nslots f \<le> FIFO_LENGTH"
  shows "dev_slots (rx_descriptor f) = [cursor f]"
proof -
  let ?o = "cursor f * sizeof_eth_frame"
  have lt: "cursor f < nslots f" using ring_inc(3) [OF assms(1)] .
  have off: "f_next f - f_start f = ?o" using ring_next [OF assms(1)] by (simp add: slot_def)
  have small: "?o < 2 ^ 31" using lt assms(2) by (simp add: FIFO_LENGTH_def layout)
  have u: "unat (of_nat ?o :: u32) = ?o" using small by (simp add: unat_of_nat del: of_nat_mult)
  have "take_bit 31 (of_nat ?o :: u32) = of_nat ?o"
    using small u by (simp add: word_unat_eq_iff unsigned_take_bit_eq take_bit_nat_eq_self_iff del: of_nat_mult)
  moreover have "take_bit 31 (push_bit 31 1 OR x) = take_bit 31 x" for x :: u32 by simp
  ultimately have "unat (take_bit 31 (rx_descriptor f)) = ?o" using u by (simp only: rx_descriptor_def off)
  moreover have "bit (rx_descriptor f) 31" by (simp add: rx_descriptor_def bit_simps)
  ultimately show ?thesis by (simp add: dev_slots_def Let_def layout)
qed

section \<open>The invariant\<close>

text \<open>The ring from the cursor on: the slot at work, if its frame has been taken and it is not given
  back yet, the filled slots, and the slots the device owns. The cursor is the settled one.\<close>

fun at_work :: "rx_pc \<Rightarrow> rx_ops ccat_eth_fifo \<Rightarrow> nat list" where
  "at_work (R_Clear n) f = [cursor f]"
| "at_work (R_Give n) f = [cursor f]"
| "at_work _ f = []"

fun rx_settled :: "rx_pc \<Rightarrow> rx_ops ccat_eth_fifo \<Rightarrow> rx_ops ccat_eth_fifo" where
  "rx_settled (R_Inc n) f = ccat_eth_fifo_inc f"
| "rx_settled _ f = f"

text \<open>The frame the thread tested for is the oldest filled one; a slot about to be given is clear.\<close>

fun rx_local :: "rx_pc \<Rightarrow> rx_ops ccat_eth_fifo \<Rightarrow> 'h machine \<Rightarrow> nat list \<Rightarrow> bool" where
  "rx_local (R_Receive len n) f m fs \<longleftrightarrow> fs \<noteq> [] \<and> len = rx_len f m (hd fs)"
| "rx_local (R_Give n) f m fs \<longleftrightarrow> rx_len f m (cursor f) = 0"
| "rx_local _ f m fs \<longleftrightarrow> True"

definition ring_split :: "rx_pc \<Rightarrow> rx_ops ccat_eth_fifo \<Rightarrow> 'h machine \<Rightarrow> nat list \<Rightarrow> nat list \<Rightarrow> bool" where
  "ring_split pc f m fs os \<longleftrightarrow> f_ops f = Dma_Rx \<and> ring_wf f \<and> nslots f \<le> FIFO_LENGTH \<and>
     ring_order (rx_settled pc f) = at_work pc f @ fs @ os \<and>
     (\<forall>i \<in> set fs. 0 < rx_len f m i \<and> rx_len f m i \<le> MAX_PAYLOAD_SIZE) \<and>
     (\<forall>i \<in> set os. rx_len f m i = 0) \<and> rx_local pc f m fs"

definition rx_log_inv :: "skb_env \<Rightarrow> ccat_eth_priv \<Rightarrow> 'h rx_threads \<Rightarrow> bool" where
  "rx_log_inv skb_ok p0 s \<longleftrightarrow> (case rt_poll s of (pc, p, m) \<Rightarrow>
     \<exists>fs. ring_split pc (p_rx_fifo p) m fs (rt_owned s) \<and>
       rt_arrived s = rt_handled s @ map (rx_frame (p_rx_fifo p) m) fs \<and> rx_counts skb_ok (rt_handled s) p0 p)"

lemma ring_split_distinct:
  assumes "ring_split pc f m fs os"
  shows "distinct (at_work pc f @ fs @ os)" and "\<forall>i \<in> set (at_work pc f @ fs @ os). i < nslots f"
proof -
  have wf: "ring_wf (rx_settled pc f)" using assms ring_inc(1) [of f] by (cases pc) (simp_all add: ring_split_def)
  have n: "nslots (rx_settled pc f) = nslots f" by (cases pc) simp_all
  show "distinct (at_work pc f @ fs @ os)"
    using ring_order_distinct [OF wf] assms unfolding ring_split_def by metis
  show "\<forall>i \<in> set (at_work pc f @ fs @ os). i < nslots f"
    using ring_order_bound [of _ "rx_settled pc f"] assms unfolding ring_split_def n by metis
qed

lemma receive_counts:
  assumes "f_ops (p_rx_fifo p) = Dma_Rx" and "ccat_eth_receive (rx_copy hw) skb_ok len p m = (p', m')"
  shows "rx_counts skb_ok [mem_read (ram m) (f_next (p_rx_fifo p) + sizeof_dma_hdr) len] p p'" and "m' = m"
    and "\<exists>b. p_rx_fifo p' = (p_rx_fifo p)\<lparr>f_bytes := b\<rparr> \<or> p_rx_fifo p' = (p_rx_fifo p)\<lparr>f_dropped := b\<rparr>"
  using assms
  by (auto simp: ccat_eth_receive_def rx_counts_def rx_copy_def fifo_dma_copy_to_linear_skb_def netdev_defs Let_def split: if_splits)

lemma ring_split_stat [simp]:
  "ring_split pc (f\<lparr>f_bytes := b\<rparr>) m fs os = ring_split pc f m fs os"
  "ring_split pc (f\<lparr>f_dropped := b\<rparr>) m fs os = ring_split pc f m fs os"
proof -
  have inc: "ccat_eth_fifo_inc (f\<lparr>f_bytes := b\<rparr>) = (ccat_eth_fifo_inc f)\<lparr>f_bytes := b\<rparr>"
    "ccat_eth_fifo_inc (f\<lparr>f_dropped := b\<rparr>) = (ccat_eth_fifo_inc f)\<lparr>f_dropped := b\<rparr>"
    by (simp_all add: ccat_eth_fifo_inc_def Let_def)
  show "ring_split pc (f\<lparr>f_bytes := b\<rparr>) m fs os = ring_split pc f m fs os"
    "ring_split pc (f\<lparr>f_dropped := b\<rparr>) m fs os = ring_split pc f m fs os"
    by (cases pc; simp add: ring_split_def inc)+
qed

text \<open>One lemma for each move of the thread.\<close>

lemma split_ready:
  assumes "ring_split (R_Ready n) f m fs os" and "rx_ready hw f m = (len, m')"
  shows "m' = m" and "len \<noteq> 0 \<Longrightarrow> ring_split (R_Receive len k) f m fs os"
proof -
  have ops: "f_ops f = Dma_Rx" and wf: "ring_wf f" and ro: "ring_order f = fs @ os"
    and clear: "\<forall>i \<in> set os. rx_len f m i = 0" using assms(1) by (simp_all add: ring_split_def)
  show "m' = m" using rx_pure(1) [OF ops, of hw m] assms(2) by simp
  have len: "len = rx_len f m (cursor f)"
    using assms(2) ops rx_len_cursor [OF wf, of m] by (simp add: rx_ready_def)
  assume "len \<noteq> 0"
  then have "cursor f \<notin> set os" using clear len by auto
  moreover have "hd (fs @ os) = cursor f" "fs @ os \<noteq> []" using ring_order_Cons [OF wf] ro by simp_all
  ultimately have "fs \<noteq> [] \<and> hd fs = cursor f" by (cases fs; cases os) auto
  then show "ring_split (R_Receive len k) f m fs os" using assms(1) len by (simp add: ring_split_def)
qed

lemma split_receive:
  assumes "ring_split (R_Receive len n) f m fs os"
  shows "ring_split (R_Clear n) f m (tl fs) os"
    and "map (rx_frame f m) fs = mem_read (ram m) (f_next f + sizeof_dma_hdr) len # map (rx_frame f m) (tl fs)"
proof -
  have wf: "ring_wf f" and ro: "ring_order f = fs @ os" and fs: "fs \<noteq> []" and len: "len = rx_len f m (hd fs)"
    using assms by (simp_all add: ring_split_def)
  obtain i js where js: "fs = i # js" using fs by (cases fs) auto
  have i: "cursor f = i" using ro ring_order_Cons [OF wf] js by simp
  show "ring_split (R_Clear n) f m (tl fs) os" using assms by (simp add: ring_split_def js i)
  show "map (rx_frame f m) fs = mem_read (ram m) (f_next f + sizeof_dma_hdr) len # map (rx_frame f m) (tl fs)"
    using ring_next [OF wf] by (simp add: js rx_frame_def len i)
qed

lemma split_clear:
  assumes "ring_split (R_Clear n) f m fs os"
  shows "ring_split (R_Give n) f (rx_clear f m) fs os" and "map (rx_frame f (rx_clear f m)) fs = map (rx_frame f m) fs"
proof -
  have wf: "ring_wf f" using assms by (simp add: ring_split_def)
  note v = rx_clear_views [OF wf, where m = m]
  have ne: "i \<noteq> cursor f" if "i \<in> set fs \<union> set os" for i using ring_split_distinct(1) [OF assms] that by auto
  show "ring_split (R_Give n) f (rx_clear f m) fs os" using assms ne v by (simp add: ring_split_def)
  show "map (rx_frame f (rx_clear f m)) fs = map (rx_frame f m) fs" using assms ne v(3) by (simp add: ring_split_def)
qed

lemma rx_views_ram:
  assumes "ram m' = ram m"
  shows "rx_len f m' = rx_len f m" and "rx_frame f m' = rx_frame f m"
  by (intro ext; simp add: rx_len_def rx_frame_def fifo_dma_rx_ready_def Let_def assms)+

lemma split_give:
  assumes "ring_split (R_Give n) f m fs os"
  shows "ring_split (R_Inc n) f (rx_give hw f m) fs (os @ dev_slots (rx_descriptor f))"
    and "rx_frame f (rx_give hw f m) = rx_frame f m"
proof -
  have wf: "ring_wf f" "nslots f \<le> FIFO_LENGTH" and ro: "ring_order f = cursor f # fs @ os" using assms by (simp_all add: ring_split_def)
  have "ram (rx_give hw f m) = ram m" by (simp add: rx_give_def)
  note v = rx_views_ram [OF this]
  show "ring_split (R_Inc n) f (rx_give hw f m) fs (os @ dev_slots (rx_descriptor f))"
    using assms ring_order_inc [OF wf(1)] ro by (simp add: ring_split_def v descriptor_slot [OF wf])
  show "rx_frame f (rx_give hw f m) = rx_frame f m" by (rule v)
qed

lemma split_inc:
  assumes "ring_split (R_Inc n) f m fs os"
  shows "ring_split (R_Ready n) (ccat_eth_fifo_inc f) m fs os"
  using assms ring_inc(1) [of f] by (simp add: ring_split_def)

lemma split_idle: "ring_split (R_Ready n) f m fs os \<longleftrightarrow> ring_split R_Idle f m fs os"
  by (simp add: ring_split_def)

text \<open>The device's step and changes elsewhere.\<close>

lemma split_fill:
  fixes f :: "rx_ops ccat_eth_fifo"
  assumes split: "ring_split pc f m fs (i # is)" and bs: "bs \<noteq> []" "length bs \<le> MAX_PAYLOAD_SIZE"
    and v: "v AND CCAT_FRAME_RECEIVED \<noteq> 0"
  defines "m' \<equiv> dev_fill f i v bs m"
  shows "ring_split pc f m' (fs @ [i]) is" and "map (rx_frame f m') (fs @ [i]) = map (rx_frame f m) fs @ [bs]"
proof -
  note w = dev_fill_views [OF bs v, where f = f and i = i and m = m, folded m'_def]
  have ne: "j \<noteq> i" if "j \<in> set (at_work pc f) \<union> set fs \<union> set is" for j
    using ring_split_distinct(1) [OF split] that by auto
  have loc: "rx_local pc f m' (fs @ [i])"
    using split ne w(3) by (cases pc) (auto simp: ring_split_def hd_append)
  show "ring_split pc f m' (fs @ [i]) is"
    using split ne w(1,3) bs loc by (simp add: ring_split_def)
  show "map (rx_frame f m') (fs @ [i]) = map (rx_frame f m) fs @ [bs]"
    using split ne w(2,4) by (simp add: ring_split_def)
qed

lemma split_other:
  assumes split: "ring_split pc f m fs os" and same: "\<And>a. in_ring f a \<Longrightarrow> ram m' a = ram m a"
  shows "ring_split pc f m' fs os" and "map (rx_frame f m') fs = map (rx_frame f m) fs"
proof -
  have "i < nslots f" if "i \<in> set (at_work pc f) \<union> set fs \<union> set os" for i
    using ring_split_distinct(2) [OF split] that by auto
  then have len: "rx_len f m' i = rx_len f m i" if "i \<in> set (at_work pc f) \<union> set fs \<union> set os" for i
    using rx_same_ring_views(1) [OF same] that by blast
  have loc: "rx_local pc f m' fs" using split len by (cases pc) (auto simp: ring_split_def)
  show "ring_split pc f m' fs os" using split len loc by (simp add: ring_split_def)
  show "map (rx_frame f m') fs = map (rx_frame f m) fs"
    using split rx_same_ring_views(2) [OF same] ring_split_distinct(2) [OF split] by (simp add: ring_split_def)
qed

lemma move_keeps_log:
  assumes "rx_log_inv skb_ok p0 s" and "rt_poll s = (pc, p, m)"
  shows "rx_log_inv skb_ok p0 (s\<lparr>rt_poll := rx_move hw skb_ok (pc, p, m), rt_owned := rt_owned s @ given pc p,
    rt_handled := rt_handled s @ taken pc p m\<rparr>)"
proof -
  let ?f = "p_rx_fifo p"
  obtain fs where split: "ring_split pc ?f m fs (rt_owned s)"
    and log: "rt_arrived s = rt_handled s @ map (rx_frame ?f m) fs" and cnt: "rx_counts skb_ok (rt_handled s) p0 p"
    using assms by (auto simp: rx_log_inv_def)
  show ?thesis
  proof (cases pc)
    case R_Idle
    then show ?thesis using split log cnt by (auto simp: rx_log_inv_def split_idle)
  next
    case (R_Ready n)
    obtain len m' where r: "rx_ready hw ?f m = (len, m')" by fastforce
    note sr = split_ready [OF split [unfolded R_Ready] r]
    show ?thesis using split log cnt sr by (auto simp: rx_log_inv_def R_Ready r split_idle)
  next
    case (R_Receive len n)
    note sr = split_receive [OF split [unfolded R_Receive]]
    have ops: "f_ops ?f = Dma_Rx" using split by (simp add: ring_split_def)
    obtain p1 m1 where r: "ccat_eth_receive (rx_copy hw) skb_ok len p m = (p1, m1)" by fastforce
    note rc = receive_counts [OF ops r]
    have "ring_split (R_Clear n) (p_rx_fifo p1) m (tl fs) (rt_owned s)" "rx_frame (p_rx_fifo p1) m = rx_frame ?f m"
      using rc(3) sr(1) by auto
    then show ?thesis
      using log sr(2) rx_counts_trans [OF cnt rc(1)] by (auto simp: rx_log_inv_def R_Receive r rc(2))
  next
    case (R_Clear n)
    then show ?thesis using split_clear [OF split [unfolded R_Clear]] log cnt by (auto simp: rx_log_inv_def)
  next
    case (R_Give n)
    then show ?thesis using split_give [OF split [unfolded R_Give], of hw] log cnt by (auto simp: rx_log_inv_def)
  next
    case (R_Inc n)
    then show ?thesis using split_inc [OF split [unfolded R_Inc]] log cnt by (auto simp: rx_log_inv_def rx_counts_def)
  qed
qed

lemma interleave_keeps_log:
  assumes "rx_interleave hw skb_ok s s'" and "rx_log_inv skb_ok p0 s"
  shows "rx_log_inv skb_ok p0 s'"
  using assms
proof (induction rule: rx_interleave.induct)
  case (Move s pc p m)
  then show ?case using move_keeps_log by blast
next
  case (Arrive s pc p m i "is" bs v)
  then show ?case using split_fill [OF _ Arrive(3,4,5)] by (fastforce simp: rx_log_inv_def)
next
  case (Other s pc p m p' m')
  then show ?case using split_other [OF _ Other(3)] by (fastforce simp: rx_log_inv_def rx_same_def rx_counts_def)
qed

lemma reach_log:
  assumes "(rx_interleave hw skb_ok)\<^sup>*\<^sup>* s s'" and "rx_log_inv skb_ok p0 s"
  shows "rx_log_inv skb_ok p0 s'"
  using assms by (induction rule: rtranclp_induct) (blast intro: interleave_keeps_log)+

lemma rx_threads0_inv:
  assumes "f_ops (p_rx_fifo p) = Dma_Rx" and "ring_wf (p_rx_fifo p)" and "nslots (p_rx_fifo p) \<le> FIFO_LENGTH"
    and "\<forall>i < nslots (p_rx_fifo p). rx_len (p_rx_fifo p) m i = 0"
  shows "rx_log_inv skb_ok p (rx_threads0 p m)"
  using assms ring_order_bound [of _ "p_rx_fifo p"] by (auto simp: rx_log_inv_def rx_threads0_def ring_split_def)

section \<open>Properties\<close>

text \<open>the thread of moves is \<open>poll_rx\<close>: run on its own on a DMA ring it comes back to its start, and
  when it does so for the first time it is in the state \<open>poll_rx\<close> computes.\<close>

theorem poll_rx_thread:
  assumes "f_ops (p_rx_fifo p) = Dma_Rx"
  shows "\<exists>k. (rx_move hw skb_ok ^^ Suc k) (R_Idle, p, m) = (R_Idle, poll_rx hw skb_ok p m) \<and>
    (\<forall>j < k. fst ((rx_move hw skb_ok ^^ Suc j) (R_Idle, p, m)) \<noteq> R_Idle)"
  using rx_moves [OF assms, of hw skb_ok m] by (metis prod.collapse)

text \<open>C11: however the accesses of the receive poll and the arrivals of frames interleave, with a device that
  fills the slots named by the descriptors the driver wrote and a ring of at most 64 slots, the frames the
  driver took are the oldest that arrived, in order and with their bytes, and each was passed to the
  network stack or counted as dropped; when the poll is not running, those that are left are the
  pending frames of the ring.\<close>

theorem rx_threads_order:
  assumes "(rx_interleave hw skb_ok)\<^sup>*\<^sup>* (rx_threads0 p0 m0) s" and "rt_poll s = (pc, p, m)"
    and "f_ops (p_rx_fifo p0) = Dma_Rx" and "ring_wf (p_rx_fifo p0)" and "nslots (p_rx_fifo p0) \<le> FIFO_LENGTH"
    and "\<forall>i < nslots (p_rx_fifo p0). rx_len (p_rx_fifo p0) m0 i = 0"
  shows "rx_counts skb_ok (rt_handled s) p0 p \<and> prefix (rt_handled s) (rt_arrived s) \<and>
    (pc = R_Idle \<longrightarrow> rt_arrived s = rt_handled s @ dma_pending (p_rx_fifo p) m)"
proof -
  obtain fs where split: "ring_split pc (p_rx_fifo p) m fs (rt_owned s)"
    and log: "rt_arrived s = rt_handled s @ map (rx_frame (p_rx_fifo p) m) fs"
    and cnt: "rx_counts skb_ok (rt_handled s) p0 p"
    using reach_log [OF assms(1) rx_threads0_inv [OF assms(3-6)]] assms(2) by (auto simp: rx_log_inv_def)
  have "map (rx_frame (p_rx_fifo p) m) fs = dma_pending (p_rx_fifo p) m" if "pc = R_Idle"
  proof -
    have "takeWhile (\<lambda>i. rx_len (p_rx_fifo p) m i \<noteq> 0) (fs @ rt_owned s) = fs"
      using split by (cases "rt_owned s") (auto simp: ring_split_def takeWhile_append takeWhile_eq_all_conv [THEN iffD2])
    then show ?thesis using split that by (simp add: dma_pending_def ring_split_def)
  qed
  then show ?thesis using log cnt by simp
qed

section \<open>Closed instances\<close>

theorem poll_rx_thread_witness:
  "\<exists>k p' m'. (rx_move ram_bus (\<lambda>n k. n = 0) ^^ Suc k) (R_Idle, eth_priv0, machine0 1) = (R_Idle, p', m') \<and>
     nd_rx (p_netdev p') = [replicate 253 1]"
proof -
  have ops: "f_ops (p_rx_fifo eth_priv0) = Dma_Rx" by (simp add: eth_priv0_defs)
  obtain p' m' where run: "poll_rx ram_bus (\<lambda>n k. n = 0) eth_priv0 (machine0 1) = (p', m')" by fastforce
  have "\<exists>hs. hs @ dma_pending (p_rx_fifo p') m' = dma_pending (p_rx_fifo eth_priv0) (machine0 1) \<and>
      rx_account (\<lambda>n k. n = 0) hs eth_priv0 p' \<and> (length hs = 31 \<or> dma_pending (p_rx_fifo p') m' = [])"
    using dma_rx.poll_conserves [OF eth_priv0_rx(1) run [unfolded poll_rx_def]] by auto
  then have "rx_counts (\<lambda>n k. n = 0) [replicate 253 1, replicate 253 1] eth_priv0 p'"
    by (auto simp: eth_priv0_rx(2) rx_account_def append_eq_Cons_conv)
  then have "nd_rx (p_netdev p') = [replicate 253 1]" by (simp add: rx_counts_def) (simp add: eth_priv0_defs)
  then show ?thesis using poll_rx_thread [OF ops, of ram_bus "\<lambda>n k. n = 0" "machine0 1"] run by (metis (no_types))
qed

lemma machine0_empty: "rx_len (p_rx_fifo eth_priv0) (machine0 0) i = 0"
  by (simp add: rx_len_def fifo_dma_rx_ready_def machine0_def mem_read_const le_word_zero_bytes)

theorem rx_threads_order_witness:
  "\<exists>s m. (rx_interleave ram_bus (\<lambda>n k. True))\<^sup>*\<^sup>* (rx_threads0 eth_priv0 (machine0 0)) s \<and>
     rt_poll s = (R_Idle, eth_priv0, m) \<and> dma_pending (p_rx_fifo eth_priv0) m = [[1, 2, 3]]"
proof -
  let ?f = "p_rx_fifo eth_priv0" and ?s0 = "rx_threads0 eth_priv0 (machine0 0)" and ?bs = "[1, 2, 3] :: u8 list"
  have wf: "f_ops ?f = Dma_Rx" "ring_wf ?f" "nslots ?f \<le> FIFO_LENGTH" by (simp_all add: eth_priv0_defs FIFO_LENGTH_def)
  have ro: "ring_order ?f = [0, 1]" by (simp add: eth_priv0_defs upt_rec)
  define m where "m = dev_fill ?f 0 1 ?bs (machine0 0)"
  define s where "s = ?s0\<lparr>rt_poll := (R_Idle, eth_priv0, m), rt_owned := [1], rt_arrived := [?bs]\<rparr>"
  have "rx_interleave ram_bus (\<lambda>n k. True) ?s0 s"
    using rx_interleave.Arrive [of ?s0 R_Idle eth_priv0 "machine0 0" 0 "[1]" ?bs 1]
    by (simp add: rx_threads0_def ro s_def m_def MAX_PAYLOAD_SIZE_eq CCAT_FRAME_RECEIVED_def)
  then have reach: "(rx_interleave ram_bus (\<lambda>n k. True))\<^sup>*\<^sup>* ?s0 s" by (rule r_into_rtranclp)
  have at: "rt_poll s = (R_Idle, eth_priv0, m)" by (simp add: s_def)
  have "rt_arrived s = [?bs]" "rt_handled s = []" by (simp_all add: s_def rx_threads0_def)
  then have "dma_pending ?f m = [?bs]"
    using rx_threads_order [OF reach at wf] machine0_empty by auto
  then show ?thesis using reach at by blast
qed

end
