(* ===== verification/Ccat_Eim.thy ===== *)
theory Ccat_Eim
  imports Ccat_Race
begin

text \<open>
  The transmit queue of the EIM variant (\<^verbatim>\<open>src/netdev.c\<close>) on one processor, with the threads of
  \<open>Ccat_Race\<close>: the stack's transmission access by access, interrupted by the timer's callback. The fifo
  is ready when its level reads as zero. As long as the link does not come up, a transmission starts
  only while the fifo is empty; when it comes up, \<open>ccat_eth_link_up\<close> starts the queue behind the frame
  it has just sent.
\<close>

section \<open>The device\<close>

text \<open>What is assumed of the device: \<open>level\<close> is the number of frames in its transmit fifo, the seven bits of
  \<open>tx_fifo_level\<close> tell it, and an empty fifo stays empty under every access but the posting of a frame.
  The fifo holds fewer than 64 frames: \<open>fifo_eim_tx_ready\<close> looks at six bits only
  (\<open>eim_level_64_reads_ready\<close> shows what happens otherwise).\<close>

definition eim_level_law :: "'h mmio \<Rightarrow> ('h \<Rightarrow> nat) \<Rightarrow> addr \<Rightarrow> bool" where
  "eim_level_law hw level mac \<longleftrightarrow>
     (\<forall>h. level h < 64 \<and> unat (fst (ioread8 hw (mac + 0x20) h) AND 0x7F) = level h \<and>
       (level h = 0 \<longrightarrow> level (snd (ioread8 hw (mac + 0x20) h)) = 0)) \<and>
     (\<forall>a h. level h = 0 \<longrightarrow> level (snd (ioread16 hw a h)) = 0 \<and> level (snd (ioread32 hw a h)) = 0) \<and>
     (\<forall>a n h. level h = 0 \<longrightarrow> level (snd (memcpy_fromio hw a n h)) = 0) \<and>
     (\<forall>v a h. level h = 0 \<longrightarrow> level (iowrite16 hw v a h) = 0)"

lemma low_bits:
  fixes v :: u8
  assumes "unat (v AND 0x7F) < 64"
  shows "v AND 0x3F = v AND 0x7F"
proof -
  have m: "(0x3F :: u8) = mask 6" "(0x7F :: u8) = mask 7" by (simp_all add: mask_eq_exp_minus_1)
  have "unat (v AND mask 7) = unat v mod 128" "unat (v AND mask 6) = unat v mod 64"
    by (simp_all add: unsigned_take_bit_eq take_bit_eq_mod unat_mod_distrib flip: take_bit_eq_mask)
  moreover have "unat v mod 128 mod 64 = unat v mod 64" by (simp add: mod_mod_cancel)
  ultimately show ?thesis using assms unfolding m by (metis mod_less word_unat_eq_iff)
qed

lemma eim_level_zero:
  assumes "eim_level_law hw level mac"
  shows "fst (ioread8 hw (mac + 0x20) h) AND 0x3F = 0 \<longleftrightarrow> level h = 0"
proof -
  let ?v = "fst (ioread8 hw (mac + 0x20) h)"
  have l: "level h < 64" "unat (?v AND 0x7F) = level h" using assms by (simp_all add: eim_level_law_def)
  then show ?thesis using low_bits [of ?v] by (metis unat_0 unat_eq_zero)
qed

lemma eim_ready:
  assumes "eim_level_law hw level mac" and "f_ops f = Eim_Tx" and "tx_ready hw mac f m = (r, m')"
  shows "r \<noteq> 0 \<longleftrightarrow> level (dev m) = 0" and "level (dev m) = 0 \<Longrightarrow> level (dev m') = 0"
proof -
  obtain v h where rd: "ioread8 hw (mac + 0x20) (dev m) = (v, h)" by fastforce
  have law: "v AND 0x3F = 0 \<longleftrightarrow> level (dev m) = 0" "level (dev m) = 0 \<longrightarrow> level h = 0"
    using eim_level_zero [OF assms(1), of "dev m"] assms(1) rd unfolding eim_level_law_def by (metis fst_conv, metis snd_conv)
  show "r \<noteq> 0 \<longleftrightarrow> level (dev m) = 0" and "level (dev m) = 0 \<Longrightarrow> level (dev m') = 0"
    using assms(2,3) rd law by (auto simp: tx_ready_def fifo_eim_tx_ready_def split: if_splits)
qed

section \<open>Stack, timer and device\<close>

text \<open>The threads as in \<open>tx_interleave False\<close>: the timer's callback comes between any two moves of the stack's
  thread and runs to its end, and the link does not come up. The device sends frames and changes its
  registers and the host's memory at its will.\<close>

record 'h eim_threads =
  et_xmit :: "xmit_pc \<times> ccat_eth_priv \<times> 'h machine"
  et_poll :: poll_pc

inductive eim_interleave :: "'h mmio \<Rightarrow> skb_env \<Rightarrow> ('h \<Rightarrow> nat) \<Rightarrow> 'h eim_threads \<Rightarrow> 'h eim_threads \<Rightarrow> bool"
  for hw skb_ok level where
  Call: "et_poll s = P_Idle \<Longrightarrow> et_xmit s = (X_Idle, p, m) \<Longrightarrow> \<not> nd_stopped (p_netdev p) \<Longrightarrow>
    eim_interleave hw skb_ok level s (s\<lparr>et_xmit := (X_Entry skb, p, m)\<rparr>)"
| Move: "et_poll s = P_Idle \<Longrightarrow> et_xmit s = (pc, p, m) \<Longrightarrow>
    eim_interleave hw skb_ok level s (s\<lparr>et_xmit := xmit_move hw (pc, p, m)\<rparr>)"
| Link: "et_poll s = P_Idle \<Longrightarrow> et_xmit s = (pc, p, m) \<Longrightarrow> p_timer p \<Longrightarrow> \<not> link_comes_up hw p m \<Longrightarrow>
    poll_link hw skb_ok p m = Inr (p', m') \<Longrightarrow>
    eim_interleave hw skb_ok level s (s\<lparr>et_xmit := (pc, p', m'), et_poll := P_Rx\<rparr>)"
| Rx: "et_poll s = P_Rx \<Longrightarrow> et_xmit s = (pc, p, m) \<Longrightarrow> poll_rx hw skb_ok p m = (p', m') \<Longrightarrow>
    eim_interleave hw skb_ok level s (s\<lparr>et_xmit := (pc, p', m'), et_poll := P_Tx\<rparr>)"
| Test: "et_poll s = P_Tx \<Longrightarrow> et_xmit s = (pc, p, m) \<Longrightarrow> poll_test hw p m = (b, m') \<Longrightarrow>
    eim_interleave hw skb_ok level s (s\<lparr>et_xmit := (pc, p, m'), et_poll := (if b then P_Wake else P_Idle)\<rparr>)"
| Wake: "et_poll s = P_Wake \<Longrightarrow> et_xmit s = (pc, p, m) \<Longrightarrow>
    eim_interleave hw skb_ok level s (s\<lparr>et_xmit := (pc, poll_wake p, m), et_poll := P_Idle\<rparr>)"
| Device: "et_xmit s = (pc, p, m) \<Longrightarrow> (level (dev m) = 0 \<longrightarrow> level (dev m') = 0) \<Longrightarrow>
    eim_interleave hw skb_ok level s (s\<lparr>et_xmit := (pc, p, m')\<rparr>)"
| Open: "et_xmit s = (pc, p, m) \<Longrightarrow> ccat_eth_open p = (r, p') \<Longrightarrow>
    eim_interleave hw skb_ok level s (s\<lparr>et_xmit := (pc, p', m)\<rparr>)"
| Stop: "et_xmit s = (pc, p, m) \<Longrightarrow>
    eim_interleave hw skb_ok level s (s\<lparr>et_xmit := (pc, on_netdev netif_stop_queue p, m)\<rparr>)"
| Cancel: "et_poll s = P_Idle \<Longrightarrow> et_xmit s = (pc, p, m) \<Longrightarrow>
    eim_interleave hw skb_ok level s (s\<lparr>et_xmit := (pc, p\<lparr>p_timer := False\<rparr>, m)\<rparr>)"

definition eim_threads0 :: "ccat_eth_priv \<Rightarrow> 'h machine \<Rightarrow> 'h eim_threads" where
  "eim_threads0 p m = \<lparr>et_xmit = (X_Idle, p, m), et_poll = P_Idle\<rparr>"

definition eim_fifos :: "'h mmio \<Rightarrow> ('h \<Rightarrow> nat) \<Rightarrow> ccat_eth_priv \<Rightarrow> bool" where
  "eim_fifos hw level p \<longleftrightarrow> eim_level_law hw level (reg_mac (p_reg p)) \<and> f_ops (p_tx_fifo p) = Eim_Tx \<and> f_ops (p_rx_fifo p) = Eim_Rx"

definition eim_inv :: "'h mmio \<Rightarrow> ('h \<Rightarrow> nat) \<Rightarrow> 'h eim_threads \<Rightarrow> bool" where
  "eim_inv hw level s \<longleftrightarrow> (case et_xmit s of (pc, p, m) \<Rightarrow> eim_fifos hw level p \<and>
     awake_at pc (et_poll s = P_Wake \<or> \<not> nd_stopped (p_netdev p)) (level (dev m) = 0))"

lemma eim_fifos_simps [simp]:
  "eim_fifos hw level (on_netdev g p) = eim_fifos hw level p" "eim_fifos hw level (p\<lparr>p_timer := b\<rparr>) = eim_fifos hw level p"
  by (simp_all add: eim_fifos_def)

lemma eim_move_fifos:
  assumes "eim_fifos hw level p" and "xmit_move hw (pc, p, m) = (pc', p', m')"
  shows "eim_fifos hw level p'"
  using assms by (cases pc) (auto simp: eim_fifos_def fifo_advance_def fifo_wrap_def netdev_defs split: if_splits prod.splits)

lemma eim_move_keeps:
  assumes inv: "eim_inv hw level s" and at: "et_xmit s = (pc, p, m)" "et_poll s = P_Idle"
  shows "eim_inv hw level (s\<lparr>et_xmit := xmit_move hw (pc, p, m)\<rparr>)"
proof -
  have fifos: "eim_fifos hw level p" using inv at by (simp add: eim_inv_def)
  then have law: "eim_level_law hw level (reg_mac (p_reg p))" "f_ops (p_tx_fifo p) = Eim_Tx" by (simp_all add: eim_fifos_def)
  obtain r m1 where rdy: "tx_ready hw (reg_mac (p_reg p)) (p_tx_fifo p) m = (r, m1)" by fastforce
  note e = eim_ready [OF law rdy]
  obtain pc' p' m' where mv: "xmit_move hw (pc, p, m) = (pc', p', m')" by (metis prod.collapse)
  have "awake_at pc' (\<not> nd_stopped (p_netdev p')) (level (dev m') = 0)"
    using inv at mv rdy e by (cases pc) (auto simp: eim_inv_def netdev_defs split: if_splits)
  then show ?thesis using eim_move_fifos [OF fifos mv] at mv by (simp add: eim_inv_def)
qed

text \<open>What the receive poll leaves alone.\<close>

definition eim_rx_same :: "('h \<Rightarrow> nat) \<Rightarrow> ccat_eth_priv \<times> 'h machine \<Rightarrow> ccat_eth_priv \<times> 'h machine \<Rightarrow> bool" where
  "eim_rx_same level s s' \<longleftrightarrow> p_reg (fst s') = p_reg (fst s) \<and> p_tx_fifo (fst s') = p_tx_fifo (fst s) \<and>
     f_ops (p_rx_fifo (fst s')) = f_ops (p_rx_fifo (fst s)) \<and> nd_stopped (p_netdev (fst s')) = nd_stopped (p_netdev (fst s)) \<and>
     (level (dev (snd s)) = 0 \<longrightarrow> level (dev (snd s')) = 0)"

lemma eim_receive_same:
  assumes law: "eim_level_law hw level mac" and ops: "f_ops (p_rx_fifo p) = Eim_Rx"
  shows "eim_rx_same level (p, m) (ccat_eth_receive (rx_copy hw) skb_ok len p m)"
  using law ops
  by (simp add: ccat_eth_receive_def rx_copy_def fifo_eim_copy_to_linear_skb_def eim_rx_same_def eim_level_law_def netdev_defs Let_def
      split: prod.split) (metis snd_conv)

lemma eim_rx_dev:
  assumes law: "eim_level_law hw level mac" and ops: "f_ops f = Eim_Rx" and e: "level (dev m) = 0"
  shows "level (dev (snd (rx_ready hw f m))) = 0" and "level (dev (rx_add hw f m)) = 0"
  using assms
  by (auto simp: rx_ready_def rx_add_def fifo_eim_rx_ready_def fifo_eim_rx_add_def eim_level_law_def Let_def split: prod.split)
    (metis snd_conv)

lemma eim_poll_loop_same:
  assumes law: "eim_level_law hw level mac" and ops: "f_ops (p_rx_fifo p) = Eim_Rx"
  shows "eim_rx_same level (p, m) (poll_rx_loop (rx_ready hw) (rx_copy hw) (rx_add hw) skb_ok len n p m)"
  using ops
proof (induction n arbitrary: len p m)
  case 0
  then show ?case by (simp add: eim_rx_same_def)
next
  case (Suc n)
  obtain p1 m1 where recv: "ccat_eth_receive (rx_copy hw) skb_ok len p m = (p1, m1)" by fastforce
  have same: "eim_rx_same level (p, m) (p1, m1)" using eim_receive_same [OF law Suc.prems, of m skb_ok len] recv by simp
  then have ops1: "f_ops (p_rx_fifo p1) = Eim_Rx" using Suc.prems by (simp add: eim_rx_same_def)
  let ?p = "on_rx ccat_eth_fifo_inc p1"
  obtain len' m2 where rdy: "rx_ready hw (p_rx_fifo ?p) (rx_add hw (p_rx_fifo p1) m1) = (len', m2)" by fastforce
  have ops2: "f_ops (p_rx_fifo ?p) = Eim_Rx" using ops1 by simp
  have "level (dev m1) = 0 \<longrightarrow> level (dev m2) = 0"
    using eim_rx_dev [OF law ops1] eim_rx_dev(1) [OF law ops2, of "rx_add hw (p_rx_fifo p1) m1"] rdy by auto
  then show ?case
    using Suc.IH [OF ops2, of m2 len'] same recv rdy Suc.prems by (auto simp: eim_rx_same_def Let_def)
qed

lemma eim_poll_rx_same:
  assumes law: "eim_level_law hw level mac" and ops: "f_ops (p_rx_fifo p) = Eim_Rx"
  shows "eim_rx_same level (p, m) (poll_rx hw skb_ok p m)"
proof -
  obtain len m1 where rdy: "rx_ready hw (p_rx_fifo p) m = (len, m1)" by fastforce
  have "level (dev m) = 0 \<longrightarrow> level (dev m1) = 0" using eim_rx_dev(1) [OF law ops, of m] rdy by auto
  then show ?thesis
    using eim_poll_loop_same [OF law ops, of m1 skb_ok len "FIFO_LENGTH div 2"] rdy
    by (simp add: poll_rx_def poll_rx_with_def eim_rx_same_def)
qed

lemma eim_quiet_keeps:
  assumes "eim_inv hw level s" and "et_xmit s = (pc, p, m)" and "eim_fifos hw level p \<Longrightarrow> eim_fifos hw level p'"
    and "level (dev m) = 0 \<Longrightarrow> level (dev m') = 0"
    and "b = P_Wake \<or> \<not> nd_stopped (p_netdev p') \<Longrightarrow> et_poll s = P_Wake \<or> \<not> nd_stopped (p_netdev p)"
  shows "eim_inv hw level (s\<lparr>et_xmit := (pc, p', m'), et_poll := b\<rparr>)"
  using assms by (auto simp: eim_inv_def elim!: awake_at_mono)

lemma eim_link_quiet:
  assumes "eim_fifos hw level p" and "poll_link hw skb_ok p m = Inr (p', m')" and "\<not> link_comes_up hw p m"
  shows "p' = p \<or> p' = ccat_eth_link_down p" and "level (dev m) = 0 \<Longrightarrow> level (dev m') = 0"
proof -
  let ?h = "snd (ioread32 hw (reg_mii (p_reg p) + 0x8 + 4) (dev m))"
  obtain l where rd: "ccat_eth_priv_read_link_state hw p m = (l, m\<lparr>dev := ?h\<rparr>)" using read_link_state_eq by (rule that)
  have "(p' = p \<or> p' = ccat_eth_link_down p) \<and> m' = m\<lparr>dev := ?h\<rparr>"
    using assms(2,3) rd by (auto simp: poll_link_def link_comes_up_def split: if_splits)
  then show "p' = p \<or> p' = ccat_eth_link_down p" and "level (dev m) = 0 \<Longrightarrow> level (dev m') = 0"
    using assms(1) by (auto simp: eim_fifos_def eim_level_law_def)
qed

lemma eim_interleave_keeps:
  assumes "eim_interleave hw skb_ok level s s'" and "eim_inv hw level s"
  shows "eim_inv hw level s'"
  using assms
proof (induction rule: eim_interleave.induct)
  case (Call s p m skb)
  then show ?case by (simp add: eim_inv_def)
next
  case (Move s pc p m)
  then show ?case using eim_move_keeps by blast
next
  case (Link s pc p m p' m')
  then have "eim_fifos hw level p" by (simp add: eim_inv_def)
  note q = eim_link_quiet [OF this Link(5,4)]
  show ?case using q by (intro eim_quiet_keeps [OF Link(6,2)]) (auto simp: ccat_eth_link_down_def netdev_defs eim_fifos_def)
next
  case (Rx s pc p m p' m')
  then have f: "eim_fifos hw level p" by (simp add: eim_inv_def)
  then have "eim_rx_same level (p, m) (p', m')" using eim_poll_rx_same [of hw level _ p m skb_ok] Rx(3) by (auto simp: eim_fifos_def)
  then show ?case using Rx(1) by (intro eim_quiet_keeps [OF Rx(4,2)]) (auto simp: eim_rx_same_def eim_fifos_def)
next
  case (Test s pc p m b m')
  then have "eim_level_law hw level (reg_mac (p_reg p))" "f_ops (p_tx_fifo p) = Eim_Tx" by (simp_all add: eim_inv_def eim_fifos_def)
  note e = eim_ready [OF this]
  have "b \<longleftrightarrow> level (dev m) = 0" "level (dev m) = 0 \<Longrightarrow> level (dev m') = 0"
    using Test(3) e by (auto simp: poll_test_def split: prod.splits)
  then show ?case using Test(1,2,4) by (cases pc) (auto simp: eim_inv_def)
next
  case (Wake s pc p m)
  then show ?case by (intro eim_quiet_keeps [OF Wake(3,2)]) (simp_all add: poll_wake_def)
next
  case (Device s pc p m m')
  then show ?case using eim_quiet_keeps [OF Device(3,1), of p m' "et_poll s"] by simp
next
  case (Open s pc p m r p')
  then have "p' = p\<lparr>p_timer := True\<rparr>" by (simp add: ccat_eth_open_def)
  then show ?case using eim_quiet_keeps [OF Open(3,1), of p' m "et_poll s"] by simp
next
  case (Stop s pc p m)
  then show ?case using eim_quiet_keeps [OF Stop(2,1), of "on_netdev netif_stop_queue p" m "et_poll s"] by (simp add: netdev_defs)
next
  case (Cancel s pc p m)
  show ?case using eim_quiet_keeps [OF Cancel(3,2), of "p\<lparr>p_timer := False\<rparr>" m "et_poll s"] by simp
qed

lemma eim_reach_inv:
  assumes "(eim_interleave hw skb_ok level)\<^sup>*\<^sup>* s s'" and "eim_inv hw level s"
  shows "eim_inv hw level s'"
  using assms by (induction rule: rtranclp_induct) (blast intro: eim_interleave_keeps)+

section \<open>Properties\<close>


text \<open>When the link comes up \<open>ccat_eth_link_up\<close> starts the queue although the fifo still holds the frame it has
  just sent: a transmission that follows while the level is not zero is refused as busy with the queue
  awake, which the message of the driver calls a bug.\<close>

theorem eim_link_up_busy:
  assumes "f_ops (p_tx_fifo p') = Eim_Tx" and "ccat_eth_link_up hw skb_ok p m = Inr (p', m')"
    and "fst (ioread8 hw (reg_mac (p_reg p') + 0x20) (dev m')) AND 0x3F \<noteq> 0" and "xmit_fits skb"
  shows "\<not> nd_stopped (p_netdev p') \<and> fst (ccat_eth_start_xmit hw skb p' m') = NETDEV_TX_BUSY"
  using link_up_carrier [OF assms(2)] assms(1,3,4)
  by (auto simp: ccat_eth_start_xmit_def start_xmit_def xmit_fits_def tx_ready_def fifo_eim_tx_ready_def split: prod.split)

section \<open>Closed instances\<close>

text \<open>A device that counts the frames posted to it and never sends one; its level says whether there are any.\<close>

definition slow_device :: "nat mmio" where
  "slow_device = \<lparr>ioread8 = (\<lambda>a n. (if n = 0 then 0 else 1, n)), ioread16 = (\<lambda>a n. (0, n)), ioread32 = (\<lambda>a n. (0, n)),
     memcpy_fromio = (\<lambda>a k n. (replicate k 0, n)), iowrite8 = (\<lambda>v a n. n), iowrite16 = (\<lambda>v a n. n),
     iowrite32 = (\<lambda>v a n. if a = 0x700 then Suc n else n), memcpy_toio = (\<lambda>a bs n. n), schedule = (\<lambda>n. n)\<rparr>"

definition eim_priv0 :: ccat_eth_priv where
  "eim_priv0 = eth_priv0\<lparr>p_tx_fifo := (p_tx_fifo eth_priv0)\<lparr>f_ops := Eim_Tx\<rparr>, p_rx_fifo := (p_rx_fifo eth_priv0)\<lparr>f_ops := Eim_Rx\<rparr>\<rparr>"

lemma slow_device_law: "eim_level_law slow_device (\<lambda>n. if n = 0 then 0 else 1) mac"
  by (simp add: eim_level_law_def slow_device_def)

text \<open>A whole call, uninterrupted.\<close>

lemma eim_moves_reach:
  assumes "et_poll s = P_Idle"
  shows "(eim_interleave hw skb_ok level)\<^sup>*\<^sup>* s (s\<lparr>et_xmit := (xmit_move hw ^^ n) (et_xmit s)\<rparr>)"
proof (induction n)
  case (Suc n)
  obtain pc p m where now: "(xmit_move hw ^^ n) (et_xmit s) = (pc, p, m)" by (metis prod.collapse)
  show ?case
    using Suc eim_interleave.Move [of "s\<lparr>et_xmit := (pc, p, m)\<rparr>" pc p m hw skb_ok level] assms now
    by (auto intro: rtranclp.rtrancl_into_rtrancl)
qed simp


lemma slow_link_up:
  "case ccat_eth_link_up slow_device (\<lambda>_ _. True) eim_priv0 \<lparr>ram = \<lambda>_. 0, dev = 0\<rparr> of
     Inl e \<Rightarrow> False
   | Inr (p', m') \<Rightarrow> dev m' = 1 \<and> f_ops (p_tx_fifo p') = Eim_Tx"
  by (simp add: ccat_eth_link_up_def fifo_reset_eq eim_priv0_def eth_priv0_defs upt_rec ccat_eth_fifo_hw_reset_def io_write32_def
      rx_add_def tx_add_def fifo_eim_rx_add_def fifo_eim_tx_add_def ccat_eth_xmit_raw_def ccat_eth_start_xmit_def start_xmit_def
      tx_ready_def fifo_eim_tx_ready_def tx_queue_skb_def fifo_eim_queue_skb_def slow_device_def netdev_defs
      forward_frame_fits [unfolded xmit_fits_def] linorder_not_less ccat_eth_fifo_inc_def)

theorem eim_link_up_busy_witness:
  "\<exists>p' m'. ccat_eth_link_up slow_device (\<lambda>_ _. True) eim_priv0 \<lparr>ram = \<lambda>_. 0, dev = 0\<rparr> = Inr (p', m') \<and>
     \<not> nd_stopped (p_netdev p') \<and> fst (ccat_eth_start_xmit slow_device skb0 p' m') = NETDEV_TX_BUSY"
proof -
  obtain p' m' where run: "ccat_eth_link_up slow_device (\<lambda>_ _. True) eim_priv0 \<lparr>ram = \<lambda>_. 0, dev = 0\<rparr> = Inr (p', m')"
    and at: "dev m' = 1" "f_ops (p_tx_fifo p') = Eim_Tx"
    using slow_link_up by (auto split: sum.splits)
  have "fst (ioread8 slow_device (reg_mac (p_reg p') + 0x20) (dev m')) AND 0x3F \<noteq> 0" using at(1) by (simp add: slow_device_def)
  from eim_link_up_busy [OF at(2) run this skb0_fits] run show ?thesis by blast
qed

end
