(* ===== verification/Ccat_Replug.thy ===== *)
theory Ccat_Replug
  imports Ccat_Prelude
begin

text \<open>
  What the kernel expects of a driver's probe and remove, as an interface: neither faults, a probe
  that fails keeps what was there, and removing a device that was probed gives back what the probe
  took. It follows that a device may be plugged and unplugged any number of times without a leak.
  The character-device layer, the network driver and the bus drivers provide it; all function drivers
  together provide the stronger \<open>stackable\<close>.
\<close>

type_synonym ('e, 's, 'd) probe_op = "'e \<Rightarrow> 's \<Rightarrow> ('d option \<times> 's) exec"
type_synonym ('s, 'd) remove_op = "'d \<Rightarrow> 's \<Rightarrow> 's exec"

text \<open>Probes of a device, each followed by its removal if it succeeded.\<close>

fun replug :: "('e, 's, 'd) probe_op \<Rightarrow> ('s, 'd) remove_op \<Rightarrow> 'e list \<Rightarrow> 's \<Rightarrow> 's exec" where
  "replug probe remove [] s = Inr s"
| "replug probe remove (e # es) s =
     (case probe e s of
        Inl f \<Rightarrow> Inl f
      | Inr (None, s) \<Rightarrow> replug probe remove es s
      | Inr (Some d, s) \<Rightarrow>
          (case remove d s of Inl f \<Rightarrow> Inl f | Inr s \<Rightarrow> replug probe remove es s))"

locale hotplug =
  fixes probe :: "('e, 's, 'd) probe_op" and remove :: "('s, 'd) remove_op"
    and inv :: "'s \<Rightarrow> bool" and granted :: "'e \<Rightarrow> bool" and resources :: "'s \<Rightarrow> 'r"
  assumes probe_returns: "inv s \<Longrightarrow> granted e \<Longrightarrow> \<exists>d s'. probe e s = Inr (d, s')"
    and probe_failed: "inv s \<Longrightarrow> granted e \<Longrightarrow> probe e s = Inr (None, s') \<Longrightarrow> inv s' \<and> resources s' = resources s"
    and probe_removed: "inv s \<Longrightarrow> granted e \<Longrightarrow> probe e s = Inr (Some d, s') \<Longrightarrow>
      \<exists>s''. remove d s' = Inr s'' \<and> inv s'' \<and> resources s'' = resources s"
begin

lemma replug_keeps:
  assumes "inv s" and "\<forall>e \<in> set es. granted e"
  shows "\<exists>s'. replug probe remove es s = Inr s' \<and> inv s' \<and> resources s' = resources s"
  using assms
proof (induction es arbitrary: s)
  case (Cons e es)
  obtain d s1 where p: "probe e s = Inr (d, s1)" using probe_returns Cons.prems by fastforce
  show ?case
  proof (cases d)
    case None
    then have "inv s1" "resources s1 = resources s" using probe_failed [of s e s1] Cons.prems p by simp_all
    then show ?thesis using Cons.IH [of s1] Cons.prems(2) p None by simp
  next
    case (Some x)
    then obtain s2 where "remove x s1 = Inr s2" "inv s2" "resources s2 = resources s"
      using probe_removed Cons.prems p by fastforce
    then show ?thesis using Cons.IH [of s2] Cons.prems(2) p Some by simp
  qed
qed simp

end

text \<open>What every probe, with the removal that follows it, adds at most \<open>n\<close> to and takes nothing from.\<close>

lemma replug_growth:
  fixes live :: "'s \<Rightarrow> nat"
  assumes run: "replug probe remove es s = Inr s'"
    and failed: "\<And>e s s1. e \<in> set es \<Longrightarrow> probe e s = Inr (None, s1) \<Longrightarrow> live s1 = live s"
    and removed: "\<And>e s d s1 s2. e \<in> set es \<Longrightarrow> probe e s = Inr (Some d, s1) \<Longrightarrow> remove d s1 = Inr s2 \<Longrightarrow>
      live s \<le> live s2 \<and> live s2 \<le> live s + n"
  shows "live s \<le> live s' \<and> live s' \<le> live s + length es * n"
  using assms
proof (induction es arbitrary: s)
  case (Cons e es)
  obtain d s1 where p: "probe e s = Inr (d, s1)" using Cons.prems(1) by (auto split: sum.splits)
  obtain s2 where r: "replug probe remove es s2 = Inr s'" and s2: "live s \<le> live s2 \<and> live s2 \<le> live s + n"
  proof (cases d)
    case None
    then show thesis using that [of s1] Cons.prems(1) Cons.prems(2) [of e s s1] p by simp
  next
    case (Some x)
    then obtain s2 where r: "remove x s1 = Inr s2" "replug probe remove es s2 = Inr s'"
      using Cons.prems(1) p by (auto split: sum.splits)
    show thesis using that [OF r(2)] Cons.prems(3) [of e s x s1 s2] p r(1) Some by simp
  qed
  have "live s2 \<le> live s' \<and> live s' \<le> live s2 + length es * n" using Cons.IH [OF r] Cons.prems(2,3) by (meson list.set_intros(2))
  then show ?case using s2 by simp
qed simp

section \<open>Several devices at once\<close>

text \<open>The devices of a bus are probed in order and removed in the reverse order; what happens between
  keeps the resources. That needs more of a driver: its remove works also then.\<close>

fun plug_all :: "('e, 's, 'd) probe_op \<Rightarrow> 'e list \<Rightarrow> 's \<Rightarrow> ('d option list \<times> 's) exec" where
  "plug_all probe [] s = Inr ([], s)"
| "plug_all probe (e # es) s =
     (case probe e s of
        Inl f \<Rightarrow> Inl f
      | Inr (d, s) \<Rightarrow> (case plug_all probe es s of Inl f \<Rightarrow> Inl f | Inr (ds, s) \<Rightarrow> Inr (d # ds, s)))"

fun unplug_all :: "('s, 'd) remove_op \<Rightarrow> 'd option list \<Rightarrow> 's \<Rightarrow> 's exec" where
  "unplug_all remove [] s = Inr s"
| "unplug_all remove (d # ds) s =
     (case unplug_all remove ds s of
        Inl f \<Rightarrow> Inl f
      | Inr s \<Rightarrow> (case d of None \<Rightarrow> Inr s | Some d \<Rightarrow> remove d s))"

locale stackable =
  fixes probe :: "('e, 's, 'd) probe_op" and remove :: "('s, 'd) remove_op"
    and inv :: "'s \<Rightarrow> bool" and granted :: "'e \<Rightarrow> bool" and resources :: "'s \<Rightarrow> 'r"
  assumes returns: "inv s \<Longrightarrow> granted e \<Longrightarrow> \<exists>d s'. probe e s = Inr (d, s') \<and> inv s'"
    and failed: "inv s \<Longrightarrow> granted e \<Longrightarrow> probe e s = Inr (None, s') \<Longrightarrow> resources s' = resources s"
    and removed_later: "inv s \<Longrightarrow> granted e \<Longrightarrow> probe e s = Inr (Some d, s1) \<Longrightarrow> inv s2 \<Longrightarrow> resources s2 = resources s1 \<Longrightarrow>
      \<exists>s3. remove d s2 = Inr s3 \<and> inv s3 \<and> resources s3 = resources s"

sublocale stackable \<subseteq> hotplug probe remove inv granted resources
proof
  fix s e d s'
  assume inv: "inv s" and g: "granted e"
  obtain d0 s0 where r: "probe e s = Inr (d0, s0)" "inv s0" using returns [OF inv g] by blast
  then show "\<exists>d s'. probe e s = Inr (d, s')" by blast
  show "inv s' \<and> resources s' = resources s" if "probe e s = Inr (None, s')" using that r failed [OF inv g] by simp
  show "\<exists>s''. remove d s' = Inr s'' \<and> inv s'' \<and> resources s'' = resources s" if "probe e s = Inr (Some d, s')"
    using removed_later [OF inv g that, of s'] that r by simp
qed

context stackable
begin

lemma plug_unplug_all:
  assumes "inv s" and "\<forall>e \<in> set es. granted e"
  shows "\<exists>ds s1. plug_all probe es s = Inr (ds, s1) \<and> inv s1 \<and> length ds = length es \<and>
    (\<forall>s2. inv s2 \<and> resources s2 = resources s1 \<longrightarrow>
       (\<exists>s3. unplug_all remove ds s2 = Inr s3 \<and> inv s3 \<and> resources s3 = resources s))"
  using assms
proof (induction es arbitrary: s)
  case (Cons e es)
  obtain d s0 where p: "probe e s = Inr (d, s0)" "inv s0" using returns Cons.prems by fastforce
  obtain ds s1 where ps: "plug_all probe es s0 = Inr (ds, s1)" "inv s1" "length ds = length es"
    and undo: "\<forall>s2. inv s2 \<and> resources s2 = resources s1 \<longrightarrow>
      (\<exists>s3. unplug_all remove ds s2 = Inr s3 \<and> inv s3 \<and> resources s3 = resources s0)"
    using Cons.IH [OF p(2)] Cons.prems(2) by auto
  have "\<exists>s3. unplug_all remove (d # ds) s2 = Inr s3 \<and> inv s3 \<and> resources s3 = resources s"
    if at: "inv s2" "resources s2 = resources s1" for s2
  proof -
    obtain s3 where s3: "unplug_all remove ds s2 = Inr s3" "inv s3" "resources s3 = resources s0" using undo at by blast
    show ?thesis
    proof (cases d)
      case None
      then show ?thesis using s3 failed [of s e s0] Cons.prems p(1) by simp
    next
      case (Some x)
      then show ?thesis using s3 removed_later [of s e x s0 s3] Cons.prems p(1) by auto
    qed
  qed
  then show ?case using p ps by simp
qed simp

end

end
