(* ===== verification/Ccat_Cdev.thy ===== *)
theory Ccat_Cdev
  imports Ccat_Types Ccat_Replug
begin

text \<open>
  The character-device layer of \<^verbatim>\<open>src/module.c\<close> (lines 48 to 206), shared by the SRAM and the
  Update driver: a device class with a fixed table of device slots, its reference count, the probe
  and remove of a device, and the exclusive open and release of a device file.

  The kernel's registries (device-number regions, classes, devices, cdevs) are the record
  \<open>kernel\<close>; whether a kernel call succeeds is decided by the parameter \<open>kenv\<close>, a function of the
  registry's state for each fallible call.
\<close>

section \<open>Kernel registries\<close>

definition MKDEV :: "u32 \<Rightarrow> u32 \<Rightarrow> u32" where
  "MKDEV ma mi = push_bit 20 ma OR mi"

definition MAJOR :: "u32 \<Rightarrow> u32" where
  "MAJOR d = drop_bit 20 d"

definition MINOR :: "u32 \<Rightarrow> u32" where
  "MINOR d = d AND mask 20"

record kernel =
  k_regions :: "(u32 \<times> nat) list"
  k_classes :: "string list"
  k_devices :: "u32 list"
  k_cdevs :: "u32 list"
  k_calls :: nat

text \<open>
  \<open>ke_region\<close> answers \<open>alloc_chrdev_region\<close> (\<open>None\<close> is an error, \<open>Some d\<close> the first number of the
  region), \<open>ke_class\<close> and \<open>ke_device\<close> are the pointers \<open>class_create\<close> and \<open>device_create\<close>
  return, \<open>ke_cdev\<close> the status of \<open>cdev_add\<close>.
\<close>

record kenv =
  ke_region :: "kernel \<Rightarrow> u32 option"
  ke_class :: "kernel \<Rightarrow> kptr"
  ke_device :: "kernel \<Rightarrow> u32 \<Rightarrow> kptr"
  ke_cdev :: "kernel \<Rightarrow> u32 \<Rightarrow> int"

definition k_tick :: "kernel \<Rightarrow> kernel" where
  "k_tick k = k\<lparr>k_calls := Suc (k_calls k)\<rparr>"

definition alloc_chrdev_region :: "kenv \<Rightarrow> nat \<Rightarrow> kernel \<Rightarrow> u32 option \<times> kernel" where
  "alloc_chrdev_region env n k =
     (case ke_region env k of
        None \<Rightarrow> (None, k_tick k)
      | Some d \<Rightarrow> (Some d, (k_tick k)\<lparr>k_regions := (d, n) # k_regions k\<rparr>))"

definition unregister_chrdev_region :: "u32 \<Rightarrow> nat \<Rightarrow> kernel \<Rightarrow> kernel" where
  "unregister_chrdev_region d n k = k\<lparr>k_regions := remove1 (d, n) (k_regions k)\<rparr>"

definition class_create :: "kenv \<Rightarrow> string \<Rightarrow> kernel \<Rightarrow> kptr \<times> kernel" where
  "class_create env nm k =
     (case ke_class env k of
        KObj \<Rightarrow> (KObj, (k_tick k)\<lparr>k_classes := nm # k_classes k\<rparr>)
      | p \<Rightarrow> (p, k_tick k))"

definition class_destroy :: "kptr \<Rightarrow> string \<Rightarrow> kernel \<Rightarrow> kernel" where
  "class_destroy p nm k =
     (case p of KObj \<Rightarrow> k\<lparr>k_classes := remove1 nm (k_classes k)\<rparr> | _ \<Rightarrow> k)"

definition device_create :: "kenv \<Rightarrow> u32 \<Rightarrow> kernel \<Rightarrow> kptr \<times> kernel" where
  "device_create env d k =
     (case ke_device env k d of
        KObj \<Rightarrow> (KObj, (k_tick k)\<lparr>k_devices := d # k_devices k\<rparr>)
      | p \<Rightarrow> (p, k_tick k))"

definition device_destroy :: "u32 \<Rightarrow> kernel \<Rightarrow> kernel" where
  "device_destroy d k = k\<lparr>k_devices := remove1 d (k_devices k)\<rparr>"

definition cdev_add :: "kenv \<Rightarrow> u32 \<Rightarrow> kernel \<Rightarrow> int \<times> kernel" where
  "cdev_add env d k =
     (let r = ke_cdev env k d
      in if r = 0 then (0, (k_tick k)\<lparr>k_cdevs := d # k_cdevs k\<rparr>) else (r, k_tick k))"

definition cdev_del :: "u32 \<Rightarrow> kernel \<Rightarrow> kernel" where
  "cdev_del d k = k\<lparr>k_cdevs := remove1 d (k_cdevs k)\<rparr>"

lemmas kernel_defs = alloc_chrdev_region_def unregister_chrdev_region_def class_create_def
  class_destroy_def device_create_def device_destroy_def cdev_add_def cdev_del_def k_tick_def

section \<open>Device slots and device classes\<close>

text \<open>
  \<open>cd_class\<close> is whether the slot's back pointer to its class is set: a slot of a class's table
  never points to another class. A slot whose \<open>cd_dev\<close> is 0 is free.
\<close>

record ccat_cdev =
  cd_in_use :: int
  cd_ioaddr :: addr
  cd_iosize :: u64
  cd_dev :: u32
  cd_class :: bool

record ccat_class =
  cls_dev :: u32
  cls_class :: kptr
  cls_instances :: int
  cls_count :: nat
  cls_devices :: "ccat_cdev list"
  cls_name :: string

text \<open>A class as the drivers declare it: static storage, a zeroed device table.\<close>

definition static_class :: "string \<Rightarrow> nat \<Rightarrow> ccat_class" where
  "static_class nm n = \<lparr>cls_dev = 0, cls_class = KNull, cls_instances = 0, cls_count = n,
     cls_devices = replicate n \<lparr>cd_in_use = 0, cd_ioaddr = 0, cd_iosize = 0, cd_dev = 0, cd_class = False\<rparr>,
     cls_name = nm\<rparr>"

text \<open>Reading \<open>base->class->name\<close>: the class must exist and must not have been destroyed.\<close>

definition deref_class :: "ccat_class \<Rightarrow> kernel \<Rightarrow> unit exec" where
  "deref_class c k =
     (case cls_class c of
        KNull \<Rightarrow> Inl NullDeref
      | KErr e \<Rightarrow> Inl BadPointer
      | KObj \<Rightarrow> if cls_name c \<in> set (k_classes k) then Inr () else Inl BadPointer)"

definition ccat_class_init :: "kenv \<Rightarrow> ccat_class \<Rightarrow> kernel \<Rightarrow> int \<times> ccat_class \<times> kernel" where
  "ccat_class_init env base k =
     (let base = base\<lparr>cls_instances := cls_instances base + 1\<rparr>
      in if cls_instances base = 1 then
           (case alloc_chrdev_region env (cls_count base) k of
              (None, k) \<Rightarrow> (-1, base, k)
            | (Some d, k) \<Rightarrow>
                (let base = base\<lparr>cls_dev := d\<rparr>;
                     (p, k) = class_create env (cls_name base) k;
                     base = base\<lparr>cls_class := p\<rparr>
                 in if p = KNull
                    then (-1, base, unregister_chrdev_region (cls_dev base) (cls_count base) k)
                    else (0, base, k)))
         else (0, base, k))"

definition ccat_class_exit :: "ccat_class \<Rightarrow> kernel \<Rightarrow> ccat_class \<times> kernel" where
  "ccat_class_exit base k =
     (let base = base\<lparr>cls_instances := cls_instances base - 1\<rparr>
      in if cls_instances base = 0 then
           (base, unregister_chrdev_region (cls_dev base) (cls_count base)
                    (class_destroy (cls_class base) (cls_name base) k))
         else (base, k))"

definition set_slot :: "nat \<Rightarrow> (ccat_cdev \<Rightarrow> ccat_cdev) \<Rightarrow> ccat_class \<Rightarrow> ccat_class" where
  "set_slot i f base = base\<lparr>cls_devices := (cls_devices base)[i := f (cls_devices base ! i)]\<rparr>"

definition free_ccat_cdev :: "nat \<Rightarrow> ccat_class \<Rightarrow> kernel \<Rightarrow> (ccat_class \<times> kernel) exec" where
  "free_ccat_cdev i base k =
     (if \<not> cd_class (cls_devices base ! i) then Inl NullDeref
      else let (base, k) = ccat_class_exit base k
           in Inr (set_slot i (\<lambda>d. d\<lparr>cd_dev := 0\<rparr>) base, k))"

text \<open>The search loop of \<open>alloc_ccat_cdev\<close>: the first free slot from index \<open>i\<close> on.\<close>

fun first_free :: "nat \<Rightarrow> ccat_cdev list \<Rightarrow> nat option" where
  "first_free i [] = None"
| "first_free i (d # ds) = (if cd_dev d = 0 then Some i else first_free (Suc i) ds)"

definition alloc_ccat_cdev ::
  "kenv \<Rightarrow> ccat_class \<Rightarrow> kernel \<Rightarrow> (nat option \<times> ccat_class \<times> kernel) exec" where
  "alloc_ccat_cdev env base k =
     (let (_, base, k) = ccat_class_init env base k
      in case first_free 0 (take (cls_count base) (cls_devices base)) of
           Some i \<Rightarrow>
             Inr (Some i, set_slot i (\<lambda>d. d\<lparr>cd_dev := MKDEV (MAJOR (cls_dev base)) (of_nat i)\<rparr>) base, k)
         | None \<Rightarrow>
             (case deref_class base k of
                Inl e \<Rightarrow> Inl e
              | Inr _ \<Rightarrow> Inr (None, base\<lparr>cls_instances := cls_instances base - 1\<rparr>, k)))"

definition ccat_cdev_init ::
  "kenv \<Rightarrow> u32 \<Rightarrow> ccat_class \<Rightarrow> kernel \<Rightarrow> (int \<times> kernel) exec" where
  "ccat_cdev_init env dev cls k =
     (case deref_class cls k of
        Inl e \<Rightarrow> Inl e
      | Inr _ \<Rightarrow>
          (let (p, k) = device_create env dev k
           in if p = KNull then Inr (-1, k)
              else let (r, k) = cdev_add env dev k
                   in if r \<noteq> 0 then Inr (-1, device_destroy dev k) else Inr (0, k)))"

text \<open>
  \<open>ccat_cdev_probe\<close> returns the status and the slot that becomes the function's private data.
\<close>

definition ccat_cdev_probe ::
  "kenv \<Rightarrow> ccat_function \<Rightarrow> u64 \<Rightarrow> ccat_class \<Rightarrow> kernel \<Rightarrow>
     (int \<times> nat option \<times> ccat_class \<times> kernel) exec" where
  "ccat_cdev_probe env func iosize cls k =
     (case alloc_ccat_cdev env cls k of
        Inl e \<Rightarrow> Inl e
      | Inr (None, cls, k) \<Rightarrow> Inr (-ENOMEM, None, cls, k)
      | Inr (Some i, cls, k) \<Rightarrow>
          (let cls = set_slot i (\<lambda>d. d\<lparr>cd_ioaddr := func_base func, cd_iosize := iosize,
                                       cd_in_use := 1\<rparr>) cls
           in case ccat_cdev_init env (cd_dev (cls_devices cls ! i)) cls k of
                Inl e \<Rightarrow> Inl e
              | Inr (r, k) \<Rightarrow>
                  if r \<noteq> 0 then
                    (case free_ccat_cdev i cls k of
                       Inl e \<Rightarrow> Inl e
                     | Inr (cls, k) \<Rightarrow> Inr (-1, None, cls, k))
                  else Inr (0, Some i, set_slot i (\<lambda>d. d\<lparr>cd_class := True\<rparr>) cls, k)))"

definition ccat_cdev_remove ::
  "nat \<Rightarrow> ccat_class \<Rightarrow> kernel \<Rightarrow> (ccat_class \<times> kernel) exec" where
  "ccat_cdev_remove i cls k =
     (let k = cdev_del (cd_dev (cls_devices cls ! i)) k
      in if \<not> cd_class (cls_devices cls ! i) then Inl NullDeref
         else free_ccat_cdev i cls (device_destroy (cd_dev (cls_devices cls ! i)) k))"

section \<open>Opening and releasing a device file\<close>

text \<open>
  \<open>struct cdev_buffer\<close>: \<open>buf_data\<close> is the flexible array member of \<open>iosize\<close> bytes, \<open>buf_size\<close>
  the number of bytes written to it.
\<close>

record cdev_buffer =
  buf_size :: u64
  buf_data :: "u8 list"

text \<open>\<open>kz\<close> says whether \<open>kzalloc\<close> of a given number of bytes succeeds.\<close>

definition ccat_cdev_open ::
  "(u64 \<Rightarrow> bool) \<Rightarrow> ccat_cdev \<Rightarrow> int \<times> ccat_cdev \<times> cdev_buffer option" where
  "ccat_cdev_open kz d =
     (let d = d\<lparr>cd_in_use := cd_in_use d - 1\<rparr>
      in if cd_in_use d \<noteq> 0 then (-EBUSY, d\<lparr>cd_in_use := cd_in_use d + 1\<rparr>, None)
         else if \<not> kz (16 + cd_iosize d) then (-ENOMEM, d\<lparr>cd_in_use := cd_in_use d + 1\<rparr>, None)
         else (0, d, Some \<lparr>buf_size = 0, buf_data = replicate (unat (cd_iosize d)) 0\<rparr>))"

definition ccat_cdev_release :: "ccat_cdev \<Rightarrow> int \<times> ccat_cdev" where
  "ccat_cdev_release d = (0, d\<lparr>cd_in_use := cd_in_use d + 1\<rparr>)"

text \<open>
  \<open>ccat_cdev_llseek\<close> hands the file position to the kernel's \<open>fixed_size_llseek\<close>, the parameter
  \<open>fsl\<close>, with the size of the device.
\<close>

definition ccat_cdev_llseek ::
  "('f \<Rightarrow> u64 \<Rightarrow> int \<Rightarrow> u64 \<Rightarrow> 'r) \<Rightarrow> 'f \<Rightarrow> u64 \<Rightarrow> int \<Rightarrow> ccat_cdev \<Rightarrow> 'r" where
  "ccat_cdev_llseek fsl f offset whence d = fsl f offset whence (cd_iosize d)"

section \<open>Device numbers\<close>

lemma MKDEV_eq_0: "MKDEV (MAJOR d) mi = 0 \<Longrightarrow> MAJOR d = 0"
proof -
  assume "MKDEV (MAJOR d) mi = 0"
  then have z: "push_bit 20 (drop_bit 20 d) = 0"
    by (simp add: MKDEV_def MAJOR_def or_eq_0_iff)
  have "drop_bit 20 (push_bit 20 (drop_bit 20 d)) = drop_bit 20 d"
    by (rule bit_word_eqI) (auto simp: bit_simps dest: bit_imp_le_length)
  with z show ?thesis by (simp add: MAJOR_def)
qed

lemma MINOR_MKDEV: "i < 2 ^ 20 \<Longrightarrow> MINOR (MKDEV ma (of_nat i)) = of_nat i"
proof -
  assume "i < 2 ^ 20"
  then have "take_bit 20 (of_nat i :: u32) = of_nat i"
    by (simp only: take_bit_of_nat take_bit_nat_eq_self)
  then show ?thesis
    by (simp add: MKDEV_def MINOR_def flip: take_bit_eq_mask) (simp add: take_bit_push_bit)
qed

section \<open>The invariant of a device class\<close>

text \<open>
  The reference count is the number of allocated slots, every allocated slot carries the device
  number of its index and its back pointer, and the class exists in the kernel exactly while a
  slot is allocated.
\<close>

definition slots_used :: "ccat_class \<Rightarrow> nat" where
  "slots_used c = length (filter (\<lambda>d. cd_dev d \<noteq> 0) (cls_devices c))"

definition class_inv :: "ccat_class \<Rightarrow> kernel \<Rightarrow> bool" where
  "class_inv c k \<longleftrightarrow>
     0 < cls_count c \<and> cls_count c \<le> 2 ^ 20 \<and> length (cls_devices c) = cls_count c \<and>
     cls_instances c = int (slots_used c) \<and>
     (\<forall>i < cls_count c. cd_dev (cls_devices c ! i) \<noteq> 0 \<longrightarrow>
        cd_dev (cls_devices c ! i) = MKDEV (MAJOR (cls_dev c)) (of_nat i) \<and>
        cd_class (cls_devices c ! i)) \<and>
     distinct (k_classes k) \<and> (cls_name c \<in> set (k_classes k) \<longleftrightarrow> 0 < cls_instances c) \<and>
     (0 < cls_instances c \<longrightarrow> MAJOR (cls_dev c) \<noteq> 0 \<and> cls_class c = KObj)"

text \<open>
  What the driver relies on of \<open>alloc_chrdev_region\<close>: a dynamically allocated region has a
  nonzero major number.
\<close>

definition region_law :: "kenv \<Rightarrow> bool" where
  "region_law env \<longleftrightarrow> (\<forall>k d. ke_region env k = Some d \<longrightarrow> MAJOR d \<noteq> 0)"

text \<open>The class object exists: what holds between a successful initialisation and the exit.\<close>

definition class_alive :: "ccat_class \<Rightarrow> kernel \<Rightarrow> bool" where
  "class_alive c k \<longleftrightarrow> cls_class c = KObj \<and> MAJOR (cls_dev c) \<noteq> 0 \<and>
     distinct (k_classes k) \<and> cls_name c \<in> set (k_classes k)"

lemma first_free_Some:
  "first_free i ds = Some j \<Longrightarrow> i \<le> j \<and> j - i < length ds \<and> cd_dev (ds ! (j - i)) = 0"
proof (induction ds arbitrary: i)
  case (Cons d ds)
  show ?case
  proof (cases "cd_dev d = 0")
    case False
    with Cons.prems have "first_free (Suc i) ds = Some j" by simp
    from Cons.IH [OF this] show ?thesis by (auto simp: nth_Cons')
  qed (use Cons.prems in simp)
qed simp

lemma first_free_None: "first_free i ds = None \<longleftrightarrow> (\<forall>d \<in> set ds. cd_dev d \<noteq> 0)"
  by (induction ds arbitrary: i) auto

lemma set_slot_simps [simp]:
  "cls_dev (set_slot i f c) = cls_dev c"
  "cls_class (set_slot i f c) = cls_class c"
  "cls_instances (set_slot i f c) = cls_instances c"
  "cls_count (set_slot i f c) = cls_count c"
  "cls_name (set_slot i f c) = cls_name c"
  "length (cls_devices (set_slot i f c)) = length (cls_devices c)"
  by (simp_all add: set_slot_def)

lemma set_slot_nth:
  "i < length (cls_devices c) \<Longrightarrow>
   cls_devices (set_slot i f c) ! j = (if j = i then f (cls_devices c ! i) else cls_devices c ! j)"
  by (simp add: set_slot_def nth_list_update)

lemma deref_class_cong [simp]:
  "deref_class (set_slot i f c) k = deref_class c k"
  "deref_class (c\<lparr>cls_instances := n\<rparr>) k = deref_class c k"
  by (simp_all add: deref_class_def)

lemma deref_class_alive: "class_alive c k \<Longrightarrow> deref_class c k = Inr ()"
  by (simp add: class_alive_def deref_class_def)

text \<open>
  Initialising a class that satisfies the invariant leaves it alive, or else its pointer cannot
  be dereferenced.
\<close>

lemma ccat_class_init_alive:
  assumes inv: "class_inv c k" and law: "region_law env"
    and init: "ccat_class_init env c k = (r, c', k')"
  shows "class_alive c' k' \<or> (\<exists>e. deref_class c' k' = Inl e)"
proof (cases "cls_instances c = 0")
  case False
  with inv init show ?thesis
    by (auto simp: class_inv_def class_alive_def ccat_class_init_def Let_def)
next
  case True
  with inv have fresh: "cls_name c \<notin> set (k_classes k)" and d: "distinct (k_classes k)"
    by (simp_all add: class_inv_def)
  show ?thesis
  proof (cases "ke_region env k")
    case None
    with True init fresh show ?thesis
      by (auto simp: ccat_class_init_def kernel_defs deref_class_def split: kptr.split)
  next
    case (Some dv)
    with law have "MAJOR dv \<noteq> 0" by (simp add: region_law_def)
    with True Some init fresh d show ?thesis
      by (auto simp: ccat_class_init_def kernel_defs deref_class_def class_alive_def Let_def
          split: kptr.splits if_splits)
  qed
qed

lemma ccat_class_init_frame:
  assumes "ccat_class_init env c k = (r, c', k')"
  shows "cls_instances c' = cls_instances c + 1" "cls_devices c' = cls_devices c"
    "cls_count c' = cls_count c" "cls_name c' = cls_name c"
    "cls_instances c \<noteq> 0 \<Longrightarrow> cls_dev c' = cls_dev c \<and> k' = k"
  using assms
  by (auto simp: ccat_class_init_def Let_def split: option.splits prod.splits if_splits)

lemma slots_used_set_slot:
  assumes "i < length (cls_devices c)"
  shows "slots_used (set_slot i f c) + (if cd_dev (cls_devices c ! i) \<noteq> 0 then 1 else 0) =
         slots_used c + (if cd_dev (f (cls_devices c ! i)) \<noteq> 0 then 1 else 0)"
  using length_filter_update [OF assms, of "\<lambda>d. cd_dev d \<noteq> 0"]
  by (simp add: slots_used_def set_slot_def)

lemma class_invI:
  assumes "class_alive c k" and "cls_instances c = int (slots_used c)"
    and "0 < cls_count c" "cls_count c \<le> 2 ^ 20" "length (cls_devices c) = cls_count c"
    and "0 < slots_used c"
    and "\<And>j. j < cls_count c \<Longrightarrow> cd_dev (cls_devices c ! j) \<noteq> 0 \<Longrightarrow>
           cd_dev (cls_devices c ! j) = MKDEV (MAJOR (cls_dev c)) (of_nat j) \<and> cd_class (cls_devices c ! j)"
  shows "class_inv c k"
  using assms by (simp add: class_inv_def class_alive_def slots_used_def)

lemma cdev_init_classes:
  "ccat_cdev_init env dv c k = Inr (r, k') \<Longrightarrow> k_classes k' = k_classes k \<and> deref_class c k = Inr ()"
  by (auto simp: ccat_cdev_init_def kernel_defs Let_def split: sum.splits kptr.splits if_splits)

text \<open>
  The state in which the probe runs between allocating slot \<open>i\<close> and registering it, and from
  which a remove starts: the class is alive, slot \<open>i\<close> is allocated and counted, every other
  allocated slot is complete.
\<close>

definition class_mid :: "nat \<Rightarrow> ccat_class \<Rightarrow> kernel \<Rightarrow> bool" where
  "class_mid i c k \<longleftrightarrow>
     class_alive c k \<and> cls_instances c = int (slots_used c) \<and>
     0 < cls_count c \<and> cls_count c \<le> 2 ^ 20 \<and> length (cls_devices c) = cls_count c \<and>
     i < cls_count c \<and> cd_dev (cls_devices c ! i) = MKDEV (MAJOR (cls_dev c)) (of_nat i) \<and>
     (\<forall>j < cls_count c. j \<noteq> i \<longrightarrow> cd_dev (cls_devices c ! j) \<noteq> 0 \<longrightarrow>
        cd_dev (cls_devices c ! j) = MKDEV (MAJOR (cls_dev c)) (of_nat j) \<and> cd_class (cls_devices c ! j))"

lemma class_mid_wf:
  assumes "class_mid i c k"
  shows "class_alive c k" "cls_instances c = int (slots_used c)" "0 < cls_count c"
    "cls_count c \<le> 2 ^ 20" "length (cls_devices c) = cls_count c" "i < cls_count c"
  using assms unfolding class_mid_def by blast+

lemma class_mid_slot:
  assumes "class_mid i c k" and "j < cls_count c" and "cd_dev (cls_devices c ! j) \<noteq> 0"
  shows "cd_dev (cls_devices c ! j) = MKDEV (MAJOR (cls_dev c)) (of_nat j)"
    and "j \<noteq> i \<Longrightarrow> cd_class (cls_devices c ! j)"
  using assms unfolding class_mid_def by blast+

lemma class_mid_dev: "class_mid i c k \<Longrightarrow> cd_dev (cls_devices c ! i) \<noteq> 0"
  using MKDEV_eq_0 by (auto simp: class_mid_def class_alive_def)

lemma class_inv_mid:
  assumes "class_inv c k" and "i < cls_count c" and "cd_dev (cls_devices c ! i) \<noteq> 0"
  shows "class_mid i c k" and "cd_class (cls_devices c ! i)"
proof -
  have "cls_devices c ! i \<in> set (filter (\<lambda>d. cd_dev d \<noteq> 0) (cls_devices c))"
    using assms by (simp add: class_inv_def)
  then have "0 < slots_used c" unfolding slots_used_def by (rule length_pos_if_in_set)
  then show "class_mid i c k" using assms by (simp add: class_mid_def class_inv_def class_alive_def)
qed (use assms in \<open>simp add: class_inv_def\<close>)

text \<open>Registering the slot completes the invariant.\<close>

lemma class_mid_register:
  assumes mid: "class_mid i c k"
  shows "class_inv (set_slot i (\<lambda>d. d\<lparr>cd_class := True\<rparr>) c) k" (is "class_inv ?c k")
proof (rule class_invI)
  note wf = class_mid_wf [OF mid]
  then have lt: "i < length (cls_devices c)" by simp
  have used: "slots_used ?c = slots_used c"
    using slots_used_set_slot [OF lt, of "\<lambda>d. d\<lparr>cd_class := True\<rparr>"] by simp
  show "class_alive ?c k" using wf(1) by (simp add: class_alive_def)
  show "cls_instances ?c = int (slots_used ?c)" using wf used by simp
  have "cls_devices c ! i \<in> set (filter (\<lambda>d. cd_dev d \<noteq> 0) (cls_devices c))"
    using lt class_mid_dev [OF mid] by simp
  then show "0 < slots_used ?c" unfolding used unfolding slots_used_def by (rule length_pos_if_in_set)
  fix j assume j: "j < cls_count ?c" and "cd_dev (cls_devices ?c ! j) \<noteq> 0"
  then have "cd_dev (cls_devices c ! j) \<noteq> 0" using lt by (simp add: set_slot_nth split: if_splits)
  with j class_mid_slot [OF mid, of j]
  show "cd_dev (cls_devices ?c ! j) = MKDEV (MAJOR (cls_dev ?c)) (of_nat j) \<and> cd_class (cls_devices ?c ! j)"
    using lt by (auto simp: set_slot_nth)
qed (use class_mid_wf [OF mid] in simp_all)

text \<open>Releasing the slot completes it too; the last slot takes the class with it.\<close>

lemma class_mid_free:
  assumes mid: "class_mid i c k" and free: "free_ccat_cdev i c k = Inr (c', k')"
  shows "class_inv c' k'"
proof -
  define cx where "cx = set_slot i (\<lambda>d. d\<lparr>cd_dev := 0\<rparr>) (c\<lparr>cls_instances := cls_instances c - 1\<rparr>)"
  note wf = class_mid_wf [OF mid]
  then have lt: "i < length (cls_devices c)" and alive: "class_alive c k" by simp_all
  have used: "slots_used cx + 1 = slots_used c"
    using slots_used_set_slot [of i "c\<lparr>cls_instances := cls_instances c - 1\<rparr>" "\<lambda>d. d\<lparr>cd_dev := 0\<rparr>"]
      lt class_mid_dev [OF mid] by (simp add: cx_def slots_used_def)
  have c': "c' = cx" using free
    by (auto simp: cx_def free_ccat_cdev_def ccat_class_exit_def Let_def split: if_splits)
  have instx: "cls_instances cx = int (slots_used cx)" using wf used by (simp add: cx_def)
  have other: "cd_dev (cls_devices cx ! j) = MKDEV (MAJOR (cls_dev cx)) (of_nat j) \<and> cd_class (cls_devices cx ! j)"
    if "j < cls_count cx" "cd_dev (cls_devices cx ! j) \<noteq> 0" for j
    using that class_mid_slot [OF mid, of j] lt by (auto simp: cx_def set_slot_nth split: if_splits)
  show ?thesis
  proof (cases "slots_used cx = 0")
    case False
    then have "k' = k" using free wf(2) used
      by (auto simp: free_ccat_cdev_def ccat_class_exit_def Let_def split: if_splits)
    moreover have "class_alive cx k" using alive by (simp add: cx_def class_alive_def)
    ultimately show ?thesis
      unfolding c' using class_invI [of cx k] instx False other wf by (simp add: cx_def)
  next
    case True
    then have "k_classes k' = remove1 (cls_name c) (k_classes k)" using free used wf(1,2)
      by (auto simp: free_ccat_cdev_def ccat_class_exit_def kernel_defs class_alive_def Let_def
          split: if_splits)
    then have "distinct (k_classes k')" "cls_name cx \<notin> set (k_classes k')"
      using alive by (simp_all add: class_alive_def cx_def)
    with True instx wf other show ?thesis
      unfolding c' class_inv_def by (simp add: cx_def)
  qed
qed

text \<open>What the probe has done when it comes to registering: slot \<open>i\<close> is claimed and filled in.\<close>

definition claim_slot :: "nat \<Rightarrow> addr \<Rightarrow> u64 \<Rightarrow> ccat_class \<Rightarrow> ccat_class" where
  "claim_slot i a n c = set_slot i (\<lambda>d. d\<lparr>cd_dev := MKDEV (MAJOR (cls_dev c)) (of_nat i),
     cd_ioaddr := a, cd_iosize := n, cd_in_use := 1\<rparr>) c"

lemma claim_slot_mid:
  assumes inv: "class_inv c k" and init: "ccat_class_init env c k = (r, c1, k1)"
    and alive: "class_alive c1 k1" and cls: "k_classes k2 = k_classes k1"
    and i: "i < cls_count c" "cd_dev (cls_devices c ! i) = 0"
  shows "class_mid i (claim_slot i a n c1) k2"
proof -
  let ?c = "claim_slot i a n c1"
  note frame = ccat_class_init_frame [OF init]
  have lt: "i < length (cls_devices c1)" using inv i(1) frame by (simp add: class_inv_def)
  have nz: "MKDEV (MAJOR (cls_dev c1)) (of_nat i) \<noteq> 0"
    using alive MKDEV_eq_0 by (auto simp: class_alive_def)
  have used: "slots_used ?c = slots_used c + 1"
    using slots_used_set_slot [OF lt, of "\<lambda>d. d\<lparr>cd_dev := MKDEV (MAJOR (cls_dev c1)) (of_nat i),
       cd_ioaddr := a, cd_iosize := n, cd_in_use := 1\<rparr>"] i nz frame(2)
    by (simp add: claim_slot_def slots_used_def)
  have "cls_dev c1 = cls_dev c" if "j < cls_count c" "cd_dev (cls_devices c ! j) \<noteq> 0" for j
    using class_mid_wf(1) [OF class_inv_mid(1) [OF inv that]] frame(5) inv
    by (simp add: class_alive_def class_inv_def)
  then have slots: "cd_dev (cls_devices ?c ! j) = MKDEV (MAJOR (cls_dev ?c)) (of_nat j) \<and>
      cd_class (cls_devices ?c ! j)"
    if "j < cls_count c" "j \<noteq> i" "cd_dev (cls_devices ?c ! j) \<noteq> 0" for j
    using that class_mid_slot(1) [OF class_inv_mid(1) [OF inv that(1)] that(1)]
      class_inv_mid(2) [OF inv that(1)] lt frame(2)
    by (auto simp: claim_slot_def set_slot_nth)
  have "class_alive ?c k2" using alive cls by (simp add: claim_slot_def class_alive_def)
  moreover have "cls_count ?c = cls_count c" "cls_instances ?c = cls_instances c + 1"
    "length (cls_devices ?c) = length (cls_devices c)"
    using frame by (simp_all add: claim_slot_def)
  moreover have "cd_dev (cls_devices ?c ! i) = MKDEV (MAJOR (cls_dev ?c)) (of_nat i)"
    using lt by (simp add: claim_slot_def set_slot_nth)
  ultimately show ?thesis
    unfolding class_mid_def using used inv i(1) slots by (auto simp: class_inv_def)
qed

text \<open>The probe, case by case: the table is full, or the first free slot is claimed and registered.\<close>

lemma probe_full:
  assumes "class_inv c k" and "first_free 0 (cls_devices c) = None"
  shows "ccat_cdev_probe env func iosize c k = Inr (-ENOMEM, None, c, k)"
proof -
  have "slots_used c = cls_count c" using assms by (simp add: class_inv_def first_free_None slots_used_def)
  then have "0 < cls_instances c" and "deref_class c k = Inr ()"
    using assms(1) by (simp_all add: class_inv_def deref_class_def)
  then show ?thesis using assms
    by (simp add: ccat_cdev_probe_def alloc_ccat_cdev_def ccat_class_init_def class_inv_def)
qed

lemma probe_claim:
  assumes inv: "class_inv c k" and free: "first_free 0 (cls_devices c) = Some i"
    and init: "ccat_class_init env c k = (r1, c1, k1)"
  shows "ccat_cdev_probe env func iosize c k =
    (let c2 = claim_slot i (func_base func) iosize c1
     in case ccat_cdev_init env (cd_dev (cls_devices c2 ! i)) c2 k1 of
          Inl e \<Rightarrow> Inl e
        | Inr (r, k) \<Rightarrow>
            if r \<noteq> 0 then (case free_ccat_cdev i c2 k of Inl e \<Rightarrow> Inl e | Inr (cls, k) \<Rightarrow> Inr (-1, None, cls, k))
            else Inr (0, Some i, set_slot i (\<lambda>d. d\<lparr>cd_class := True\<rparr>) c2, k))"
proof -
  note frame = ccat_class_init_frame [OF init]
  have len: "length (cls_devices c) = cls_count c" using inv by (simp add: class_inv_def)
  have lt: "i < length (cls_devices c1)" using first_free_Some [OF free] frame by simp
  have alloc: "alloc_ccat_cdev env c k = Inr (Some i, set_slot i (\<lambda>d. d\<lparr>cd_dev := MKDEV (MAJOR (cls_dev c1)) (of_nat i)\<rparr>) c1, k1)"
    using free len frame by (simp add: alloc_ccat_cdev_def init)
  have slot: "set_slot i (\<lambda>d. d\<lparr>cd_ioaddr := func_base func, cd_iosize := iosize, cd_in_use := 1\<rparr>)
      (set_slot i (\<lambda>d. d\<lparr>cd_dev := MKDEV (MAJOR (cls_dev c1)) (of_nat i)\<rparr>) c1) =
      claim_slot i (func_base func) iosize c1"
    using lt by (simp add: claim_slot_def set_slot_def)
  show ?thesis
    unfolding ccat_cdev_probe_def alloc by (simp only: sum.case prod.case option.case Let_def slot)
qed

lemma probe_inv:
  assumes inv: "class_inv c k" and law: "region_law env"
    and probe: "ccat_cdev_probe env func iosize c k = Inr (r, s, c', k')"
  shows "class_inv c' k'"
proof (cases "first_free 0 (cls_devices c)")
  case None
  with probe_full [OF inv] probe inv show ?thesis by auto
next
  case (Some i)
  obtain r1 c1 k1 where init: "ccat_class_init env c k = (r1, c1, k1)"
    by (cases "ccat_class_init env c k")
  define c2 where "c2 = claim_slot i (func_base func) iosize c1"
  obtain rr k2 where cdi: "ccat_cdev_init env (cd_dev (cls_devices c2 ! i)) c2 k1 = Inr (rr, k2)"
    and res: "if rr \<noteq> 0 then free_ccat_cdev i c2 k2 = Inr (c', k')
       else c' = set_slot i (\<lambda>d. d\<lparr>cd_class := True\<rparr>) c2 \<and> k' = k2"
    using probe unfolding probe_claim [OF inv Some init] Let_def c2_def [symmetric]
    by (auto split: sum.splits if_splits)
  from cdev_init_classes [OF cdi] have cls: "k_classes k2 = k_classes k1" and "deref_class c1 k1 = Inr ()"
    by (simp_all add: c2_def claim_slot_def)
  then have alive: "class_alive c1 k1" using ccat_class_init_alive [OF inv law init] by auto
  have i: "i < cls_count c" "cd_dev (cls_devices c ! i) = 0"
    using first_free_Some [OF Some] inv by (simp_all add: class_inv_def)
  have mid: "class_mid i c2 k2" unfolding c2_def by (rule claim_slot_mid [OF inv init alive cls i])
  show ?thesis
  proof (cases "rr = 0")
    case True
    then show ?thesis using res class_mid_register [OF mid] by simp
  next
    case False
    then show ?thesis using res class_mid_free [OF mid] by simp
  qed
qed

lemma remove_inv:
  assumes inv: "class_inv c k" and i: "i < cls_count c" "cd_dev (cls_devices c ! i) \<noteq> 0"
  shows "\<exists>c' k'. ccat_cdev_remove i c k = Inr (c', k') \<and> class_inv c' k'"
proof -
  let ?k = "device_destroy (cd_dev (cls_devices c ! i)) (cdev_del (cd_dev (cls_devices c ! i)) k)"
  have set: "cd_class (cls_devices c ! i)" by (rule class_inv_mid(2) [OF assms])
  then obtain c' k' where fr: "free_ccat_cdev i c ?k = Inr (c', k')"
    by (cases "ccat_class_exit c ?k") (auto simp: free_ccat_cdev_def)
  have "class_mid i c ?k"
    using class_inv_mid(1) [OF assms] by (simp add: class_mid_def class_alive_def kernel_defs)
  from class_mid_free [OF this fr] set fr show ?thesis
    by (simp add: ccat_cdev_remove_def Let_def)
qed

section \<open>Probing and removing on a kernel that grants every request\<close>

definition kenv_class_ok :: "kenv \<Rightarrow> bool" where
  "kenv_class_ok env \<longleftrightarrow> region_law env \<and> (\<forall>k. ke_region env k \<noteq> None \<and> ke_class env k = KObj)"

definition kenv_grants :: "kenv \<Rightarrow> bool" where
  "kenv_grants env \<longleftrightarrow> kenv_class_ok env \<and>
     (\<forall>k d. ke_device env k d = KObj \<and> ke_cdev env k d = 0)"

lemma grants_init:
  assumes inv: "class_inv c k" and env: "kenv_class_ok env"
    and init: "ccat_class_init env c k = (r, c1, k1)"
  shows "class_alive c1 k1"
    and "cls_class c1 = KObj" "k_devices k1 = k_devices k" "k_cdevs k1 = k_cdevs k"
    and "if cls_instances c = 0
         then k_regions k1 = (cls_dev c1, cls_count c) # k_regions k \<and> k_classes k1 = cls_name c # k_classes k
         else k_regions k1 = k_regions k \<and> k_classes k1 = k_classes k"
proof -
  have *: "class_alive c1 k1 \<and> cls_class c1 = KObj \<and> k_devices k1 = k_devices k \<and> k_cdevs k1 = k_cdevs k \<and>
    (if cls_instances c = 0
         then k_regions k1 = (cls_dev c1, cls_count c) # k_regions k \<and> k_classes k1 = cls_name c # k_classes k
         else k_regions k1 = k_regions k \<and> k_classes k1 = k_classes k)"
  proof (cases "cls_instances c = 0")
    case True
    obtain dv where "ke_region env k = Some dv" "MAJOR dv \<noteq> 0"
      using env unfolding kenv_class_ok_def region_law_def by (metis option.exhaust)
    with True init inv env show ?thesis
      by (auto simp: ccat_class_init_def kernel_defs class_alive_def class_inv_def kenv_class_ok_def Let_def)
  next
    case False
    with init inv show ?thesis
      by (auto simp: ccat_class_init_def class_alive_def class_inv_def Let_def)
  qed
  then show "class_alive c1 k1" "cls_class c1 = KObj" "k_devices k1 = k_devices k" "k_cdevs k1 = k_cdevs k"
    "if cls_instances c = 0
         then k_regions k1 = (cls_dev c1, cls_count c) # k_regions k \<and> k_classes k1 = cls_name c # k_classes k
         else k_regions k1 = k_regions k \<and> k_classes k1 = k_classes k"
    by simp_all
qed

lemma kenv_grants_class: "kenv_grants env \<Longrightarrow> kenv_class_ok env"
  by (simp add: kenv_grants_def)

lemma probe_granted:
  fixes func :: ccat_function and n :: u64
  assumes inv: "class_inv c k" and env: "kenv_grants env"
    and free: "first_free 0 (cls_devices c) = Some i"
    and init: "ccat_class_init env c k = (r, c1, k1)"
  defines "c2 \<equiv> claim_slot i (func_base func) n c1"
  defines "dv \<equiv> MKDEV (MAJOR (cls_dev c1)) (of_nat i)"
  shows "\<exists>k2. ccat_cdev_probe env func n c k = Inr (0, Some i, set_slot i (\<lambda>d. d\<lparr>cd_class := True\<rparr>) c2, k2) \<and>
    k_regions k2 = k_regions k1 \<and> k_classes k2 = k_classes k1 \<and>
    k_devices k2 = dv # k_devices k \<and> k_cdevs k2 = dv # k_cdevs k"
proof -
  have lt: "i < length (cls_devices c1)"
    using first_free_Some [OF free] ccat_class_init_frame [OF init] by simp
  then have "cd_dev (cls_devices c2 ! i) = dv" by (simp add: c2_def dv_def claim_slot_def set_slot_nth)
  moreover have "deref_class c2 k1 = Inr ()"
    using deref_class_alive [OF grants_init(1) [OF inv kenv_grants_class [OF env] init]] by (simp add: c2_def claim_slot_def)
  ultimately show ?thesis
    unfolding probe_claim [OF inv free init] Let_def c2_def [symmetric]
    using env grants_init(3,4) [OF inv kenv_grants_class [OF env] init]
    by (simp add: ccat_cdev_init_def kernel_defs kenv_grants_def Let_def)
qed

lemma remove_probed:
  assumes inv: "class_inv c k" and env: "kenv_grants env"
    and free: "first_free 0 (cls_devices c) = Some i"
    and probe: "ccat_cdev_probe env func n c k = Inr (0, Some i, c', k')"
  shows "\<exists>c'' k''. ccat_cdev_remove i c' k' = Inr (c'', k'') \<and>
    k_regions k'' = k_regions k \<and> k_classes k'' = k_classes k \<and> k_devices k'' = k_devices k \<and>
    k_cdevs k'' = k_cdevs k \<and> cls_instances c'' = cls_instances c \<and>
    map cd_dev (cls_devices c'') = map cd_dev (cls_devices c)"
proof -
  obtain r c1 k1 where init: "ccat_class_init env c k = (r, c1, k1)" by (cases "ccat_class_init env c k")
  note frame = ccat_class_init_frame [OF init] and g = grants_init [OF inv kenv_grants_class [OF env] init]
  have i: "i < length (cls_devices c)" "cd_dev (cls_devices c ! i) = 0" using first_free_Some [OF free] by simp_all
  then have lt: "i < length (cls_devices c1)" using frame by simp
  define dv where "dv = MKDEV (MAJOR (cls_dev c1)) (of_nat i)"
  have c': "c' = set_slot i (\<lambda>d. d\<lparr>cd_class := True\<rparr>) (claim_slot i (func_base func) n c1)"
    and k': "k_regions k' = k_regions k1" "k_classes k' = k_classes k1"
      "k_devices k' = dv # k_devices k" "k_cdevs k' = dv # k_cdevs k"
    using probe probe_granted [OF inv env free init, of func n] by (auto simp: dv_def)
  have slot: "cd_class (cls_devices c' ! i)" "cd_dev (cls_devices c' ! i) = dv"
    using lt by (simp_all add: c' claim_slot_def set_slot_nth dv_def)
  have cls: "cls_dev c' = cls_dev c1" "cls_class c' = KObj" "cls_instances c' = cls_instances c + 1"
    "cls_count c' = cls_count c" "cls_name c' = cls_name c"
    using frame g(2) by (simp_all add: c' claim_slot_def)
  have devs: "map cd_dev ((cls_devices c')[i := (cls_devices c' ! i)\<lparr>cd_dev := 0\<rparr>]) = map cd_dev (cls_devices c)"
    using lt i frame(2) list_update_id [of "map cd_dev (cls_devices c)" i]
    by (simp add: c' claim_slot_def set_slot_def map_update)
  show ?thesis
    using slot cls k' g(5) devs
    by (auto simp: ccat_cdev_remove_def free_ccat_cdev_def ccat_class_exit_def kernel_defs set_slot_def Let_def
        split: if_splits)
qed

section \<open>Exclusive open under interleaving\<close>

text \<open>
  \<open>ccat_cdev_open\<close> and \<open>ccat_cdev_release\<close> run in any number of processes at once. What is
  atomic is the single \<open>atomic_dec_and_test\<close> or \<open>atomic_inc\<close>; between them other processes run.
  A process is outside, about to undo its decrement and return \<open>-EBUSY\<close>, allocating its buffer,
  or holds the device.
\<close>

datatype open_pc = Outside | Refused | Allocating | Inside

record open_sys =
  os_in_use :: int
  os_pc :: "nat \<Rightarrow> open_pc"

definition open_init :: open_sys where
  "open_init = \<lparr>os_in_use = 1, os_pc = (\<lambda>_. Outside)\<rparr>"

inductive open_step :: "open_sys \<Rightarrow> open_sys \<Rightarrow> bool" where
  dec_and_test: "os_pc s i = Outside \<Longrightarrow>
     open_step s (s\<lparr>os_in_use := os_in_use s - 1,
       os_pc := (os_pc s)(i := if os_in_use s - 1 = 0 then Allocating else Refused)\<rparr>)"
| busy: "os_pc s i = Refused \<Longrightarrow>
     open_step s (s\<lparr>os_in_use := os_in_use s + 1, os_pc := (os_pc s)(i := Outside)\<rparr>)"
| nomem: "os_pc s i = Allocating \<Longrightarrow>
     open_step s (s\<lparr>os_in_use := os_in_use s + 1, os_pc := (os_pc s)(i := Outside)\<rparr>)"
| opened: "os_pc s i = Allocating \<Longrightarrow> open_step s (s\<lparr>os_pc := (os_pc s)(i := Inside)\<rparr>)"
| release: "os_pc s i = Inside \<Longrightarrow>
     open_step s (s\<lparr>os_in_use := os_in_use s + 1, os_pc := (os_pc s)(i := Outside)\<rparr>)"

inductive open_reach :: "open_sys \<Rightarrow> bool" where
  init: "open_reach open_init"
| step: "open_reach s \<Longrightarrow> open_step s t \<Longrightarrow> open_reach t"

definition open_active :: "open_sys \<Rightarrow> nat set" where
  "open_active s = {i. os_pc s i \<noteq> Outside}"

definition open_holder :: "open_sys \<Rightarrow> nat \<Rightarrow> bool" where
  "open_holder s i \<longleftrightarrow> os_pc s i = Allocating \<or> os_pc s i = Inside"

text \<open>The counter is one minus the number of processes between their decrement and their increment.\<close>

definition open_inv :: "open_sys \<Rightarrow> bool" where
  "open_inv s \<longleftrightarrow> finite (open_active s) \<and> os_in_use s = 1 - int (card (open_active s)) \<and>
     (\<forall>i j. open_holder s i \<longrightarrow> open_holder s j \<longrightarrow> i = j)"

lemma open_active_enter:
  "os_pc s i = Outside \<Longrightarrow> p \<noteq> Outside \<Longrightarrow>
   open_active (s\<lparr>os_in_use := n, os_pc := (os_pc s)(i := p)\<rparr>) = insert i (open_active s)"
  by (auto simp: open_active_def)

lemma open_active_leave:
  "open_active (s\<lparr>os_in_use := n, os_pc := (os_pc s)(i := Outside)\<rparr>) = open_active s - {i}"
  by (auto simp: open_active_def)

lemma open_active_stay:
  "os_pc s i \<noteq> Outside \<Longrightarrow> p \<noteq> Outside \<Longrightarrow> open_active (s\<lparr>os_pc := (os_pc s)(i := p)\<rparr>) = open_active s"
  by (auto simp: open_active_def)

lemma open_inv_leave:
  assumes "open_inv s" and "os_pc s i \<noteq> Outside"
  shows "open_inv (s\<lparr>os_in_use := os_in_use s + 1, os_pc := (os_pc s)(i := Outside)\<rparr>)"
proof -
  have i: "i \<in> open_active s" using assms(2) by (simp add: open_active_def)
  then have "0 < card (open_active s)" using assms(1) by (auto simp: open_inv_def card_gt_0_iff)
  then show ?thesis
    using assms i unfolding open_inv_def open_active_leave by (auto simp: open_holder_def)
qed

lemma open_step_inv: "open_step s t \<Longrightarrow> open_inv s \<Longrightarrow> open_inv t"
proof (induction rule: open_step.induct)
  case (dec_and_test s i)
  let ?p = "if os_in_use s - 1 = 0 then Allocating else Refused"
  have i: "i \<notin> open_active s" using dec_and_test.hyps by (simp add: open_active_def)
  have act: "open_active (s\<lparr>os_in_use := os_in_use s - 1, os_pc := (os_pc s)(i := ?p)\<rparr>) = insert i (open_active s)"
    using dec_and_test.hyps by (intro open_active_enter) simp_all
  have none: "\<not> open_holder s j" if "os_in_use s = 1" for j
    using that dec_and_test.prems by (auto simp: open_inv_def open_active_def open_holder_def)
  show ?case
    using dec_and_test.prems i none unfolding open_inv_def act
    by (auto simp: open_holder_def split: if_splits)
next
  case (opened s i)
  then show ?case using open_active_stay [of s i Inside]
    by (auto simp: open_inv_def open_holder_def)
qed (auto intro: open_inv_leave)

lemma open_reach_inv: "open_reach s \<Longrightarrow> open_inv s"
proof (induction rule: open_reach.induct)
  case init
  show ?case by (simp add: open_inv_def open_init_def open_active_def open_holder_def)
next
  case (step s t)
  then show ?case by (blast intro: open_step_inv)
qed

lemma open_step_twice: "open_step a b \<Longrightarrow> open_step b c \<Longrightarrow> open_step\<^sup>*\<^sup>* a c"
  by (simp add: converse_rtranclp_into_rtranclp)

text \<open>A process that runs its steps undisturbed does what \<open>ccat_cdev_open\<close> computes.\<close>

lemma open_steps_refine:
  assumes "os_pc s i = Outside" and "os_in_use s = cd_in_use d"
    and "ccat_cdev_open kz d = (r, d', b)"
  shows "\<exists>t. open_step\<^sup>*\<^sup>* s t \<and> os_in_use t = cd_in_use d' \<and>
    os_pc t = (os_pc s)(i := if r = 0 then Inside else Outside)"
proof -
  let ?s1 = "s\<lparr>os_in_use := os_in_use s - 1,
    os_pc := (os_pc s)(i := if os_in_use s - 1 = 0 then Allocating else Refused)\<rparr>"
  have s1: "open_step s ?s1" using assms(1) by (rule open_step.dec_and_test)
  have out: "(os_pc s)(i := Outside) = os_pc s" using assms(1) by auto
  show ?thesis
  proof (cases "os_in_use s - 1 = 0 \<and> kz (16 + cd_iosize d)")
    case True
    then have s2: "open_step ?s1 (?s1\<lparr>os_pc := (os_pc ?s1)(i := Inside)\<rparr>)" by (intro open_step.opened) simp
    have "open_step\<^sup>*\<^sup>* s (?s1\<lparr>os_pc := (os_pc ?s1)(i := Inside)\<rparr>)"
      by (rule open_step_twice [OF s1 s2])
    moreover have "r = 0" "cd_in_use d' = cd_in_use d - 1"
      using True assms(2,3) by (auto simp: ccat_cdev_open_def Let_def)
    ultimately show ?thesis using assms(2) by (intro exI conjI) auto
  next
    case False
    have "os_pc ?s1 i = Refused \<or> os_pc ?s1 i = Allocating" by simp
    then have s2: "open_step ?s1 (?s1\<lparr>os_in_use := os_in_use ?s1 + 1, os_pc := (os_pc ?s1)(i := Outside)\<rparr>)"
      by (elim disjE) (rule open_step.busy, assumption, rule open_step.nomem, assumption)
    have "open_step\<^sup>*\<^sup>* s (?s1\<lparr>os_in_use := os_in_use ?s1 + 1, os_pc := (os_pc ?s1)(i := Outside)\<rparr>)"
      by (rule open_step_twice [OF s1 s2])
    moreover have "r \<noteq> 0" "cd_in_use d' = cd_in_use d"
      using False assms(2,3) by (auto simp: ccat_cdev_open_def Let_def split: if_splits)
    ultimately show ?thesis using assms(2) out by (intro exI conjI) auto
  qed
qed

section \<open>Properties\<close>

lemma static_class_inv:
  "0 < n \<Longrightarrow> n \<le> 2 ^ 20 \<Longrightarrow> distinct (k_classes k) \<Longrightarrow> nm \<notin> set (k_classes k) \<Longrightarrow>
   class_inv (static_class nm n) k"
  by (simp add: class_inv_def static_class_def slots_used_def)

text \<open>A kernel with empty registries that grants every request, for the closed instances below.\<close>

definition kernel0 :: kernel where
  "kernel0 = \<lparr>k_regions = [], k_classes = [], k_devices = [], k_cdevs = [], k_calls = 0\<rparr>"

definition kenv0 :: kenv where
  "kenv0 = \<lparr>ke_region = (\<lambda>_. Some 0x0F000000), ke_class = (\<lambda>_. KObj), ke_device = (\<lambda>_ _. KObj),
     ke_cdev = (\<lambda>_ _. 0)\<rparr>"

definition func0 :: ccat_function where
  "func0 = \<lparr>func_ccat = \<lparr>bar_0 = 0x10000, bar_2 = 0\<rparr>,
     func_info = \<lparr>info_type = 0x16, info_rev = 0, info_config = 0x1101, info_addr = 0x400, info_size = 0x1000\<rparr>\<rparr>"

definition full_class0 :: ccat_class where
  "full_class0 = \<lparr>cls_dev = 0x0F000000, cls_class = KObj, cls_instances = 1, cls_count = 1,
     cls_devices = [\<lparr>cd_in_use = 1, cd_ioaddr = 0x10400, cd_iosize = 0x20000, cd_dev = 0x0F000000, cd_class = True\<rparr>],
     cls_name = ''ccat_sram''\<rparr>"

lemma kenv0_grants: "kenv_grants kenv0"
  by (simp add: kenv_grants_def kenv_class_ok_def region_law_def kenv0_def MAJOR_def)

lemma static_class0_inv: "class_inv (static_class ''ccat_sram'' 4) kernel0"
  by (rule static_class_inv) (simp_all add: kernel0_def)

text \<open>C16: A probe that returns, with whatever status and whatever the kernel's answers were, leaves
  the class with its invariant: the reference count is the number of allocated slots, allocated
  slots carry the number of their index, and the class exists exactly while a slot is allocated.\<close>

theorem cdev_probe_keeps_inv:
  assumes "class_inv c k" and "region_law env"
    and "ccat_cdev_probe env func iosize c k = Inr (r, s, c', k')"
  shows "class_inv c' k'"
  by (rule probe_inv [OF assms])

theorem cdev_probe_keeps_inv_witness:
  "\<exists>r s c' k'. ccat_cdev_probe kenv0 func0 0x20000 (static_class ''ccat_sram'' 4) kernel0 = Inr (r, s, c', k') \<and>
     class_inv c' k'"
proof -
  obtain r s c' k' where p: "ccat_cdev_probe kenv0 func0 0x20000 (static_class ''ccat_sram'' 4) kernel0 = Inr (r, s, c', k')"
    by (simp add: ccat_cdev_probe_def alloc_ccat_cdev_def ccat_class_init_def ccat_cdev_init_def kernel_defs
        static_class_def kenv0_def kernel0_def deref_class_def set_slot_def eval_nat_numeral)
  have "region_law kenv0" using kenv0_grants by (simp add: kenv_grants_def kenv_class_ok_def)
  from cdev_probe_keeps_inv [OF static_class0_inv this p] p show ?thesis by blast
qed

text \<open>What a granted probe leaves in the slot it claims.\<close>

lemma probe_claims_slot:
  assumes inv: "class_inv c k" and env: "kenv_grants env"
    and free: "first_free 0 (cls_devices c) = Some i"
  shows "\<exists>c' k'. ccat_cdev_probe env func n c k = Inr (0, Some i, c', k') \<and>
    cls_devices c' ! i = \<lparr>cd_in_use = 1, cd_ioaddr = func_base func, cd_iosize = n,
       cd_dev = MKDEV (MAJOR (cls_dev c')) (of_nat i), cd_class = True\<rparr> \<and>
    cd_dev (cls_devices c' ! i) \<in> set (k_cdevs k') \<and>
    (\<forall>j. j \<noteq> i \<longrightarrow> cls_devices c' ! j = cls_devices c ! j)"
proof -
  obtain r c1 k1 where init: "ccat_class_init env c k = (r, c1, k1)" by (cases "ccat_class_init env c k")
  have lt: "i < length (cls_devices c1)" and same: "cls_devices c1 = cls_devices c"
    using first_free_Some [OF free] ccat_class_init_frame [OF init] by simp_all
  obtain k2 where "ccat_cdev_probe env func n c k =
      Inr (0, Some i, set_slot i (\<lambda>d. d\<lparr>cd_class := True\<rparr>) (claim_slot i (func_base func) n c1), k2)"
    "k_cdevs k2 = MKDEV (MAJOR (cls_dev c1)) (of_nat i) # k_cdevs k"
    using probe_granted [OF inv env free init] by blast
  then show ?thesis using lt same by (auto simp: claim_slot_def set_slot_nth)
qed

text \<open>On a kernel that grants its requests, probing a device claims the first free slot of the
  class, numbers it, records the function's register base and size and marks it closed; the other
  slots are untouched.\<close>

theorem cdev_probe_claims_first_free:
  assumes "class_inv c k" and "kenv_grants env"
    and "first_free 0 (cls_devices c) = Some i"
  shows "\<exists>c' k'. ccat_cdev_probe env func n c k = Inr (0, Some i, c', k') \<and>
    cls_devices c' ! i = \<lparr>cd_in_use = 1, cd_ioaddr = func_base func, cd_iosize = n,
       cd_dev = MKDEV (MAJOR (cls_dev c')) (of_nat i), cd_class = True\<rparr> \<and>
    cd_dev (cls_devices c' ! i) \<in> set (k_cdevs k') \<and>
    (\<forall>j. j \<noteq> i \<longrightarrow> cls_devices c' ! j = cls_devices c ! j)"
  by (rule probe_claims_slot [OF assms])

theorem cdev_probe_claims_first_free_witness:
  "\<exists>c' k'. ccat_cdev_probe kenv0 func0 0x20000 (static_class ''ccat_sram'' 4) kernel0 = Inr (0, Some 0, c', k') \<and>
     cd_ioaddr (cls_devices c' ! 0) = 0x10400"
proof -
  have "first_free 0 (cls_devices (static_class ''ccat_sram'' 4)) = Some 0"
    by (simp add: static_class_def eval_nat_numeral)
  from cdev_probe_claims_first_free [OF static_class0_inv kenv0_grants this, of func0 "0x20000"]
  show ?thesis by (auto simp: func_base_def func0_def)
qed

text \<open>When every slot is taken the probe returns \<open>-ENOMEM\<close> and changes neither the class nor
  the kernel's registries.\<close>

theorem cdev_probe_full:
  assumes "class_inv c k" and "\<forall>d \<in> set (cls_devices c). cd_dev d \<noteq> 0"
  shows "ccat_cdev_probe env func n c k = Inr (-ENOMEM, None, c, k)"
  using assms by (intro probe_full) (simp_all add: first_free_None)

lemma full_class0_inv: "class_inv full_class0 (kernel0\<lparr>k_classes := [''ccat_sram'']\<rparr>)"
  by (simp add: class_inv_def full_class0_def kernel0_def slots_used_def MKDEV_def MAJOR_def)

theorem cdev_probe_full_witness:
  "ccat_cdev_probe kenv0 func0 0x20000 full_class0 (kernel0\<lparr>k_classes := [''ccat_sram'']\<rparr>) =
     Inr (-12, None, full_class0, kernel0\<lparr>k_classes := [''ccat_sram'']\<rparr>)"
  by (rule cdev_probe_full [OF full_class0_inv]) (simp add: full_class0_def)

text \<open>C39: removing a probed device undoes the probe: the device-number regions, classes, devices
  and cdevs of the kernel, the class's reference count and the occupation of its slots are as
  before the probe.\<close>

theorem cdev_probe_remove:
  assumes "class_inv c k" and "kenv_grants env" and "first_free 0 (cls_devices c) = Some i"
    and "ccat_cdev_probe env func n c k = Inr (0, Some i, c', k')"
  shows "\<exists>c'' k''. ccat_cdev_remove i c' k' = Inr (c'', k'') \<and>
    k_regions k'' = k_regions k \<and> k_classes k'' = k_classes k \<and> k_devices k'' = k_devices k \<and>
    k_cdevs k'' = k_cdevs k \<and> cls_instances c'' = cls_instances c \<and>
    map cd_dev (cls_devices c'') = map cd_dev (cls_devices c)"
  by (rule remove_probed [OF assms])

theorem cdev_probe_remove_witness:
  "\<exists>c' k' c'' k''. ccat_cdev_probe kenv0 func0 0x20000 (static_class ''ccat_sram'' 4) kernel0 = Inr (0, Some 0, c', k') \<and>
     ccat_cdev_remove 0 c' k' = Inr (c'', k'') \<and> k_regions k'' = [] \<and> cls_instances c'' = 0"
proof -
  have f: "first_free 0 (cls_devices (static_class ''ccat_sram'' 4)) = Some 0"
    by (simp add: static_class_def eval_nat_numeral)
  obtain c' k' where p: "ccat_cdev_probe kenv0 func0 0x20000 (static_class ''ccat_sram'' 4) kernel0 = Inr (0, Some 0, c', k')"
    by (simp add: ccat_cdev_probe_def alloc_ccat_cdev_def ccat_class_init_def ccat_cdev_init_def kernel_defs
        static_class_def kenv0_def kernel0_def deref_class_def set_slot_def eval_nat_numeral)
  from cdev_probe_remove [OF static_class0_inv kenv0_grants f p] p show ?thesis
    by (auto simp: kernel0_def static_class_def)
qed

text \<open>The device numbers of two allocated slots of a class differ.\<close>

theorem cdev_numbers_distinct:
  assumes inv: "class_inv c k" and "i < cls_count c" and "j < cls_count c"
    and nz: "cd_dev (cls_devices c ! i) \<noteq> 0" and eq: "cd_dev (cls_devices c ! i) = cd_dev (cls_devices c ! j)"
  shows "i = j"
proof -
  have lt: "i < 2 ^ 20" "j < 2 ^ 20" using assms by (simp_all add: class_inv_def)
  have "cd_dev (cls_devices c ! i) = MKDEV (MAJOR (cls_dev c)) (of_nat i)"
    "cd_dev (cls_devices c ! j) = MKDEV (MAJOR (cls_dev c)) (of_nat j)"
    using assms class_mid_slot(1) [OF class_inv_mid(1)] by metis+
  then have "(of_nat i :: u32) = of_nat j" using MINOR_MKDEV [OF lt(1)] MINOR_MKDEV [OF lt(2)] eq by metis
  then have "unat (of_nat i :: u32) = unat (of_nat j :: u32)" by simp
  then show ?thesis using lt by (simp add: unat_of_nat)
qed

theorem cdev_numbers_distinct_witness:
  "cd_dev (cls_devices full_class0 ! 0) \<noteq> 0 \<and> (0 :: nat) = 0"
proof -
  have "cd_dev (cls_devices full_class0 ! 0) \<noteq> 0" "0 < cls_count full_class0" by (simp_all add: full_class0_def)
  from this cdev_numbers_distinct [OF full_class0_inv this(2) this(2) this(1) refl] show ?thesis by blast
qed

text \<open>When registering a device fails (\<open>device_create\<close> returns no device or \<open>cdev_add\<close> an error)
  in a slot that no earlier probe completed, the cleanup follows the slot's class pointer, which
  is only set after the registration: a null dereference instead of the error return.\<close>

theorem cdev_probe_failure_faults:
  assumes inv: "class_inv c k" and env: "kenv_class_ok env"
    and free: "first_free 0 (cls_devices c) = Some i" and fresh: "\<not> cd_class (cls_devices c ! i)"
    and fails: "(\<forall>k d. ke_device env k d = KNull) \<or> (\<forall>k d. ke_cdev env k d \<noteq> 0)"
  shows "ccat_cdev_probe env func n c k = Inl NullDeref"
proof -
  obtain r c1 k1 where init: "ccat_class_init env c k = (r, c1, k1)" by (cases "ccat_class_init env c k")
  let ?c2 = "claim_slot i (func_base func) n c1"
  have lt: "i < length (cls_devices c1)" and same: "cls_devices c1 = cls_devices c"
    using first_free_Some [OF free] ccat_class_init_frame [OF init] by simp_all
  have nc: "\<not> cd_class (cls_devices ?c2 ! i)" using lt same fresh by (simp add: claim_slot_def set_slot_nth)
  have "deref_class ?c2 k1 = Inr ()"
    using deref_class_alive [OF grants_init(1) [OF inv env init]] by (simp add: claim_slot_def)
  then have "\<exists>k2. ccat_cdev_init env dv ?c2 k1 = Inr (-1, k2)" for dv
    using fails by (auto simp: ccat_cdev_init_def kernel_defs Let_def split: kptr.splits)
  then obtain k2 where "ccat_cdev_init env (cd_dev (cls_devices ?c2 ! i)) ?c2 k1 = Inr (-1, k2)" by blast
  then show ?thesis
    unfolding probe_claim [OF inv free init] Let_def by (simp add: free_ccat_cdev_def nc)
qed

theorem cdev_probe_failure_faults_witness:
  "ccat_cdev_probe (kenv0\<lparr>ke_cdev := \<lambda>_ _. -16\<rparr>) func0 0x20000 (static_class ''ccat_sram'' 4) kernel0 = Inl NullDeref"
proof (rule cdev_probe_failure_faults [OF static_class0_inv])
  show "kenv_class_ok (kenv0\<lparr>ke_cdev := \<lambda>_ _. -16\<rparr>)"
    using kenv0_grants by (simp add: kenv_grants_def kenv_class_ok_def region_law_def)
  show "first_free 0 (cls_devices (static_class ''ccat_sram'' 4)) = Some 0"
    by (simp add: static_class_def eval_nat_numeral)
qed (simp_all add: static_class_def)

text \<open>\<open>alloc_ccat_cdev\<close> ignores the status of \<open>ccat_class_init\<close>: when the region for the first
  device of a class cannot be allocated, the probe goes on with a class pointer that is null or
  stale and faults instead of returning an error.\<close>

theorem cdev_class_init_error_ignored:
  assumes inv: "class_inv c k" and first: "cls_instances c = 0" and fails: "ke_region env k = None"
  shows "fst (ccat_class_init env c k) = -1 \<and> (\<exists>e. ccat_cdev_probe env func n c k = Inl e)"
proof -
  have nf: "first_free 0 (cls_devices c) \<noteq> None"
  proof
    assume "first_free 0 (cls_devices c) = None"
    then have "slots_used c = cls_count c" using inv by (simp add: class_inv_def slots_used_def first_free_None)
    then show False using inv first unfolding class_inv_def by linarith
  qed
  then obtain i where free: "first_free 0 (cls_devices c) = Some i" by blast
  have init: "ccat_class_init env c k = (-1, c\<lparr>cls_instances := 1\<rparr>, k_tick k)"
    using first fails by (simp add: ccat_class_init_def alloc_chrdev_region_def)
  have "cls_name c \<notin> set (k_classes k)" using inv first by (simp add: class_inv_def)
  then have "\<exists>e. deref_class (c\<lparr>cls_instances := 1\<rparr>) (k_tick k) = Inl e"
    by (auto simp: deref_class_def k_tick_def split: kptr.split)
  then show ?thesis
    unfolding probe_claim [OF inv free init] Let_def
    by (auto simp: init ccat_cdev_init_def claim_slot_def)
qed

theorem cdev_class_init_error_ignored_witness:
  "fst (ccat_class_init (kenv0\<lparr>ke_region := \<lambda>_. None\<rparr>) (static_class ''ccat_update'' 5) kernel0) = -1 \<and>
   (\<exists>e. ccat_cdev_probe (kenv0\<lparr>ke_region := \<lambda>_. None\<rparr>) func0 0xE0000 (static_class ''ccat_update'' 5) kernel0 = Inl e)"
  by (rule cdev_class_init_error_ignored)
    (simp_all add: static_class_inv kernel0_def, simp add: static_class_def)

text \<open>C17: However the opens and releases of any number of processes interleave, at most one of them
  has the device file.\<close>

theorem cdev_open_exclusive:
  assumes "open_reach s" and "open_holder s i" and "open_holder s j"
  shows "i = j"
  using open_reach_inv [OF assms(1)] assms(2,3) by (simp add: open_inv_def)

definition one_inside :: open_sys where
  "one_inside = \<lparr>os_in_use = 0, os_pc = (\<lambda>_. Outside)(0 := Inside)\<rparr>"

lemma one_inside_reach: "open_reach one_inside"
proof -
  let ?a = "\<lparr>os_in_use = 0, os_pc = (\<lambda>_. Outside)(0 := Allocating)\<rparr>"
  have "open_step open_init ?a"
    using open_step.dec_and_test [of open_init 0] by (simp add: open_init_def)
  moreover have "open_step ?a one_inside"
    using open_step.opened [of ?a 0] by (simp add: one_inside_def)
  ultimately show ?thesis by (blast intro: open_reach.intros)
qed

theorem cdev_open_exclusive_witness:
  "open_reach one_inside \<and> open_holder one_inside 0 \<and> (\<exists>i. open_holder one_inside i \<and> i = 0)"
proof -
  have h: "open_holder one_inside 0" by (simp add: open_holder_def one_inside_def)
  from cdev_open_exclusive [OF one_inside_reach h h] h one_inside_reach show ?thesis by blast
qed

text \<open>No open is lost: once every process that tried has returned and every holder has
  released, the counter is back at one and the next open succeeds if its buffer can be allocated.\<close>

theorem cdev_reopen_possible:
  assumes "open_reach s" and "\<forall>i. os_pc s i = Outside"
    and "cd_in_use d = os_in_use s" and "kz (16 + cd_iosize d)"
  shows "\<exists>d' b. ccat_cdev_open kz d = (0, d', Some b) \<and> cd_in_use d' = 0 \<and> buf_size b = 0 \<and>
    buf_data b = replicate (unat (cd_iosize d)) 0 \<and> ccat_cdev_release d' = (0, d)"
proof -
  have "os_in_use s = 1" using open_reach_inv [OF assms(1)] assms(2) by (simp add: open_inv_def open_active_def)
  with assms(3,4) show ?thesis by (auto simp: ccat_cdev_open_def ccat_cdev_release_def Let_def)
qed

theorem cdev_reopen_possible_witness:
  "\<exists>d' b. ccat_cdev_open (\<lambda>_. True) (cls_devices full_class0 ! 0) = (0, d', Some b) \<and> cd_in_use d' = 0"
proof -
  have "cd_in_use (cls_devices full_class0 ! 0) = os_in_use open_init"
    by (simp add: full_class0_def open_init_def)
  from cdev_reopen_possible [OF open_reach.init _ this, of "\<lambda>_. True"] show ?thesis
    by (auto simp: open_init_def)
qed

section \<open>Plugging and unplugging\<close>

definition cdev_plug :: "(kenv \<times> ccat_function \<times> u64, ccat_class \<times> kernel, nat) probe_op" where
  "cdev_plug e s =
     (case ccat_cdev_probe (fst e) (fst (snd e)) (snd (snd e)) (fst s) (snd s) of
        Inl f \<Rightarrow> Inl f
      | Inr (r, d, c, k) \<Rightarrow> Inr (d, c, k))"

definition cdev_unplug :: "(ccat_class \<times> kernel, nat) remove_op" where
  "cdev_unplug i s = ccat_cdev_remove i (fst s) (snd s)"

definition cdev_resources :: "ccat_class \<times> kernel \<Rightarrow> (u32 \<times> nat) list \<times> string list \<times> u32 list \<times> u32 list \<times> int \<times> u32 list" where
  "cdev_resources s =
     (k_regions (snd s), k_classes (snd s), k_devices (snd s), k_cdevs (snd s), cls_instances (fst s), map cd_dev (cls_devices (fst s)))"

lemma probe_granted_inv:
  assumes inv: "class_inv c k" and env: "kenv_grants env" and free: "first_free 0 (cls_devices c) = Some i"
    and p: "ccat_cdev_probe env func n c k = Inr (0, Some i, c', k')"
  shows "class_inv c' k'" and "i < cls_count c'" and "cd_dev (cls_devices c' ! i) \<noteq> 0"
proof -
  have dev: "cd_dev (cls_devices c' ! i) = MKDEV (MAJOR (cls_dev c')) (of_nat i)"
    using probe_claims_slot [OF assms(1-3), of func n] p by auto
  show "class_inv c' k'" using probe_inv [OF inv _ p] env by (simp add: kenv_grants_def kenv_class_ok_def)
  obtain r1 c1 k1 where init: "ccat_class_init env c k = (r1, c1, k1)" by (cases "ccat_class_init env c k")
  have c': "c' = set_slot i (\<lambda>d. d\<lparr>cd_class := True\<rparr>) (claim_slot i (func_base func) n c1)"
    using p probe_granted [OF assms(1-3) init, of func n] by auto
  have "MAJOR (cls_dev c') \<noteq> 0"
    using grants_init(1) [OF inv kenv_grants_class [OF env] init] by (simp add: c' claim_slot_def class_alive_def)
  then show "cd_dev (cls_devices c' ! i) \<noteq> 0" using dev MKDEV_eq_0 by auto
  show "i < cls_count c'"
    using first_free_Some [OF free] inv ccat_class_init_frame [OF init] by (simp add: c' claim_slot_def class_inv_def)
qed

lemma cdev_cycle:
  assumes inv: "class_inv c k" and env: "kenv_grants env" and free: "first_free 0 (cls_devices c) = Some i"
  shows "\<exists>c' k' c'' k''. ccat_cdev_probe env func n c k = Inr (0, Some i, c', k') \<and> ccat_cdev_remove i c' k' = Inr (c'', k'') \<and>
    class_inv c'' k'' \<and> cdev_resources (c'', k'') = cdev_resources (c, k)"
proof -
  obtain c' k' where p: "ccat_cdev_probe env func n c k = Inr (0, Some i, c', k')"
    using probe_claims_slot [OF assms, of func n] by auto
  obtain c'' k'' where r: "ccat_cdev_remove i c' k' = Inr (c'', k'')" and same: "cdev_resources (c'', k'') = cdev_resources (c, k)"
    using remove_probed [OF assms p] by (auto simp: cdev_resources_def)
  have "class_inv c'' k''" using remove_inv [OF probe_granted_inv [OF assms p]] r by auto
  then show ?thesis using p r same by blast
qed

interpretation cdev_driver: hotplug cdev_plug cdev_unplug "\<lambda>s. class_inv (fst s) (snd s)" "\<lambda>e. kenv_grants (fst e)" cdev_resources
proof
  fix s :: "ccat_class \<times> kernel" and e :: "kenv \<times> ccat_function \<times> u64"
  obtain c k where s: "s = (c, k)" by fastforce
  obtain env func n where e: "e = (env, func, n)" by (cases e)
  assume inv: "class_inv (fst s) (snd s)" and env: "kenv_grants (fst e)"
  show "\<exists>d s'. cdev_plug e s = Inr (d, s')"
  proof (cases "first_free 0 (cls_devices c)")
    case None
    then show ?thesis using probe_full [of c k] inv by (simp add: cdev_plug_def s e)
  next
    case (Some i)
    then show ?thesis using cdev_cycle [of c k env i func n] inv env by (auto simp: cdev_plug_def s e)
  qed
  show "class_inv (fst s') (snd s') \<and> cdev_resources s' = cdev_resources s" if "cdev_plug e s = Inr (None, s')" for s'
  proof (cases "first_free 0 (cls_devices c)")
    case None
    then show ?thesis using probe_full [of c k] inv that by (auto simp: cdev_plug_def s e)
  next
    case (Some i)
    then show ?thesis using cdev_cycle [of c k env i func n] inv env that by (auto simp: cdev_plug_def s e)
  qed
  show "\<exists>s''. cdev_unplug d s' = Inr s'' \<and> class_inv (fst s'') (snd s'') \<and> cdev_resources s'' = cdev_resources s"
    if "cdev_plug e s = Inr (Some d, s')" for d s'
  proof (cases "first_free 0 (cls_devices c)")
    case None
    then show ?thesis using probe_full [of c k] inv that by (auto simp: cdev_plug_def s e)
  next
    case (Some i)
    then show ?thesis using cdev_cycle [of c k env i func n] inv env that by (auto simp: cdev_plug_def cdev_unplug_def s e)
  qed
qed

text \<open>on a kernel that grants its requests, devices of a class can be probed and removed any number
  of times: no call faults, and afterwards the class invariant holds and the kernel's registries,
  the reference count and the occupation of the slots are as before.\<close>

theorem cdev_replug:
  assumes "class_inv c k" and "\<forall>e \<in> set es. kenv_grants (fst e)"
  shows "\<exists>c' k'. replug cdev_plug cdev_unplug es (c, k) = Inr (c', k') \<and> class_inv c' k' \<and>
    k_regions k' = k_regions k \<and> k_classes k' = k_classes k \<and> k_devices k' = k_devices k \<and> k_cdevs k' = k_cdevs k \<and>
    cls_instances c' = cls_instances c \<and> map cd_dev (cls_devices c') = map cd_dev (cls_devices c)"
  using cdev_driver.replug_keeps [of "(c, k)" es] assms by (auto simp: cdev_resources_def)

theorem cdev_replug_witness:
  "\<exists>c' k'. replug cdev_plug cdev_unplug (replicate 3 (kenv0, func0, 0x20000)) (static_class ''ccat_sram'' 4, kernel0) = Inr (c', k') \<and>
     class_inv c' k' \<and> k_cdevs k' = []"
  using cdev_replug [OF static_class0_inv, of "replicate 3 (kenv0, func0, 0x20000)"] kenv0_grants
  by (auto simp: kernel0_def)

end
