(* ===== verification/Ccat_File.thy ===== *)
theory Ccat_File
  imports Ccat_Cdev
begin

text \<open>
  What a user of a CCAT device file sees: the interface of a device whose \<open>read\<close> hands out a fixed
  range of bytes, and what follows for a program that reads it block by block. The SRAM and the
  Update driver both provide it.

  A \<open>read\<close> takes the length of the user's buffer, the file position and the state behind the file,
  and returns the system call's result, the bytes stored in the user's buffer, the new position
  and the new state; \<open>None\<close> stands for a call that does not return.
\<close>

type_synonym 's file_read = "u64 \<Rightarrow> u64 \<Rightarrow> 's \<Rightarrow> (int \<times> u8 list \<times> u64 \<times> 's) option"

text \<open>
  Copies between user and kernel memory. \<open>nc\<close> gives the number of bytes that cannot be copied (0 is
  success). What the user's memory receives is a prefix; a short copy from the user is padded with
  zero bytes.
\<close>

definition copy_to_user :: "(nat \<Rightarrow> nat) \<Rightarrow> u8 list \<Rightarrow> nat \<times> u8 list" where
  "copy_to_user nc bs = (let r = min (nc (length bs)) (length bs) in (r, take (length bs - r) bs))"

definition copy_from_user :: "(nat \<Rightarrow> nat) \<Rightarrow> u8 list \<Rightarrow> nat \<Rightarrow> nat \<times> u8 list" where
  "copy_from_user nc ubuf n = (let r = min (nc n) n in (r, take (n - r) ubuf @ replicate r 0))"

lemma copy_ok [simp]: "copy_to_user (\<lambda>_. 0) bs = (0, bs)" "copy_from_user (\<lambda>_. 0) ubuf n = (0, take n ubuf)"
  by (simp_all add: copy_to_user_def copy_from_user_def)

text \<open>Successive reads with the given buffer lengths, their bytes concatenated.\<close>

fun read_blocks :: "'s file_read \<Rightarrow> u64 list \<Rightarrow> u64 \<Rightarrow> 's \<Rightarrow> (u8 list \<times> u64 \<times> 's) option" where
  "read_blocks rd [] off s = Some ([], off, s)"
| "read_blocks rd (n # ns) off s =
     (case rd n off s of
        None \<Rightarrow> None
      | Some (r, bs, off, s) \<Rightarrow>
          (case read_blocks rd ns off s of
             None \<Rightarrow> None
           | Some (rest, off, s) \<Rightarrow> Some (bs @ rest, off, s)))"

locale readable_file =
  fixes read :: "'s file_read" and contents :: "'s \<Rightarrow> u8 list" and inv :: "'s \<Rightarrow> bool"
  assumes contents_small: "inv s \<Longrightarrow> length (contents s) < 2 ^ 63"
    and read_part: "inv s \<Longrightarrow> unat off \<le> length (contents s) \<Longrightarrow>
      \<exists>off' s'. read len off s =
          Some (int (length (take (unat len) (drop (unat off) (contents s)))),
                take (unat len) (drop (unat off) (contents s)), off', s') \<and>
        unat off' = unat off + length (take (unat len) (drop (unat off) (contents s))) \<and>
        inv s' \<and> contents s' = contents s"
begin

lemma blocks_from:
  assumes "inv s" and "unat off \<le> length (contents s)"
  shows "\<exists>off' s'. read_blocks read ns off s =
      Some (take (sum_list (map unat ns)) (drop (unat off) (contents s)), off', s') \<and>
    unat off' = min (unat off + sum_list (map unat ns)) (length (contents s)) \<and> inv s' \<and> contents s' = contents s"
  using assms
proof (induction ns arbitrary: off s)
  case Nil
  then show ?case by (simp add: min_def)
next
  case (Cons n ns)
  let ?d = "drop (unat off) (contents s)"
  obtain off1 s1 where rd: "read n off s = Some (int (length (take (unat n) ?d)), take (unat n) ?d, off1, s1)"
    and off1: "unat off1 = unat off + length (take (unat n) ?d)" and s1: "inv s1" "contents s1 = contents s"
    using read_part [OF Cons.prems] by blast
  have le: "unat off1 \<le> length (contents s1)" using off1 s1(2) Cons.prems(2) by simp
  from Cons.IH [OF s1(1) le] obtain off2 s2 where
    ih: "read_blocks read ns off1 s1 = Some (take (sum_list (map unat ns)) (drop (unat off1) (contents s)), off2, s2)"
      "unat off2 = min (unat off1 + sum_list (map unat ns)) (length (contents s))" "inv s2" "contents s2 = contents s"
    using s1(2) by auto
  have split: "take (unat n) ?d @ take (sum_list (map unat ns)) (drop (unat off1) (contents s)) =
    take (unat n + sum_list (map unat ns)) ?d"
    using off1 by (simp add: take_add min_def add.commute)
  have "unat off2 = min (unat off + sum_list (map unat (n # ns))) (length (contents s))"
  proof -
    have "unat off1 = min (unat off + unat n) (length (contents s))" using off1 Cons.prems(2) unfolding length_take length_drop by arith
    then show ?thesis using ih(2) unfolding list.map sum_list.Cons by arith
  qed
  with rd ih split show ?case by simp
qed

text \<open>Read from the start with buffers that together are large enough, however the reads are cut.\<close>

lemma blocks_all:
  assumes "inv s" and "length (contents s) \<le> sum_list (map unat ns)"
  shows "\<exists>off' s'. read_blocks read ns 0 s = Some (contents s, off', s')"
  using blocks_from [OF assms(1), of 0 ns] assms(2) by auto

end

section \<open>Sequences of calls\<close>

text \<open>A user makes calls one after the other, of which each may or may not return. An implementation refines a
  specification when every call returns, with the specified result and the specified new state.\<close>

fun run_calls :: "('c \<Rightarrow> 's \<Rightarrow> ('r \<times> 's) option) \<Rightarrow> 'c list \<Rightarrow> 's \<Rightarrow> ('r list \<times> 's) option" where
  "run_calls f [] s = Some ([], s)"
| "run_calls f (x # xs) s =
     (case f x s of
        None \<Rightarrow> None
      | Some (r, s) \<Rightarrow> (case run_calls f xs s of None \<Rightarrow> None | Some (rs, s) \<Rightarrow> Some (r # rs, s)))"

fun spec_calls :: "('c \<Rightarrow> 's \<Rightarrow> 'r \<times> 's) \<Rightarrow> 'c list \<Rightarrow> 's \<Rightarrow> 'r list \<times> 's" where
  "spec_calls f [] s = ([], s)"
| "spec_calls f (x # xs) s = (let (r, s) = f x s; (rs, s) = spec_calls f xs s in (r # rs, s))"

locale simulation =
  fixes conc :: "'c \<Rightarrow> 's \<Rightarrow> ('r \<times> 's) option" and spec :: "'c \<Rightarrow> 'a \<Rightarrow> 'r \<times> 'a" and abs :: "'s \<Rightarrow> 'a"
    and inv :: "'s \<Rightarrow> bool" and ok :: "'c \<Rightarrow> bool"
  assumes call_refines: "inv s \<Longrightarrow> ok x \<Longrightarrow> \<exists>r s'. conc x s = Some (r, s') \<and> inv s' \<and> spec x (abs s) = (r, abs s')"
begin

lemma run_refines:
  assumes "inv s" and "\<forall>x \<in> set xs. ok x"
  shows "\<exists>rs s'. run_calls conc xs s = Some (rs, s') \<and> inv s' \<and> spec_calls spec xs (abs s) = (rs, abs s')"
  using assms
proof (induction xs arbitrary: s)
  case (Cons x xs)
  obtain r s1 where x: "conc x s = Some (r, s1)" "inv s1" "spec x (abs s) = (r, abs s1)"
    using call_refines [OF Cons.prems(1), of x] Cons.prems(2) by auto
  obtain rs s' where "run_calls conc xs s1 = Some (rs, s')" "inv s'" "spec_calls spec xs (abs s1) = (rs, abs s')"
    using Cons.IH [OF x(2)] Cons.prems(2) by auto
  then show ?case using x by simp
qed simp

end

end
