(* ===== verification/Ccat_Update.thy ===== *)
theory Ccat_Update
  imports Ccat_File
begin

text \<open>
  The Update driver, \<^verbatim>\<open>src/update.c\<close>: a character device on the configuration flash of the FPGA. The
  flash is reached through a window of registers, one byte every 8 bytes: the driver writes the
  command, its number of clocks, the address and the data, triggers the command, and waits until
  the device is no longer busy.

  A wait is a loop that may run forever, so every operation returns an option: \<open>None\<close> is a call
  that does not return. \<open>io\<close> is the address of the window.
\<close>

section \<open>Constants\<close>

definition CCAT_UPDATE_DEVICES_MAX :: nat where "CCAT_UPDATE_DEVICES_MAX = 5"
definition CCAT_DATA_IN_4 :: nat where "CCAT_DATA_IN_4 = 0x038"
definition CCAT_DATA_IN_N :: nat where "CCAT_DATA_IN_N = 0x7F0"
definition CCAT_DATA_OUT_4 :: nat where "CCAT_DATA_OUT_4 = 0x030"
definition CCAT_DATA_BLOCK_SIZE :: nat where "CCAT_DATA_BLOCK_SIZE = (CCAT_DATA_IN_N - CCAT_DATA_IN_4) div 8"
definition CCAT_WRITE_BLOCK_SIZE :: nat where "CCAT_WRITE_BLOCK_SIZE = 128"
definition CCAT_FLASH_SIZE :: u64 where "CCAT_FLASH_SIZE = 0xE0000"

text \<open>The commands, each a pair of a code and a number of clocks.\<close>

definition CCAT_BULK_ERASE :: "u8 \<times> u16" where "CCAT_BULK_ERASE = (0xE3, 8)"
definition CCAT_GET_PROM_ID :: "u8 \<times> u16" where "CCAT_GET_PROM_ID = (0xD5, 40)"
definition CCAT_READ_FLASH :: "u8 \<times> u16" where "CCAT_READ_FLASH = (0xC0, 32)"
definition CCAT_READ_STATUS :: "u8 \<times> u16" where "CCAT_READ_STATUS = (0xA0, 16)"
definition CCAT_WRITE_ENABLE :: "u8 \<times> u16" where "CCAT_WRITE_ENABLE = (0x60, 8)"
definition CCAT_WRITE_FLASH :: "u8 \<times> u16" where "CCAT_WRITE_FLASH = (0x40, 32)"

lemmas update_consts = CCAT_DATA_IN_4_def CCAT_DATA_IN_N_def CCAT_DATA_OUT_4_def CCAT_DATA_BLOCK_SIZE_def
  CCAT_WRITE_BLOCK_SIZE_def CCAT_BULK_ERASE_def CCAT_READ_FLASH_def CCAT_READ_STATUS_def CCAT_WRITE_ENABLE_def
  CCAT_WRITE_FLASH_def

text \<open>The computation is done in an \<open>unsigned long\<close> and truncated by the assignment to a \<open>u8\<close>.\<close>

definition SWAP_BITS :: "u32 \<Rightarrow> u8" where
  "SWAP_BITS b =
     (let b = ucast b :: u64
      in ucast (drop_bit 16 (((b * 0x0802 AND 0x22110) OR (b * 0x8020 AND 0x88440)) * 0x10101)))"

section \<open>Commands\<close>

partial_function (option) wait_until_busy_reset :: "'h mmio \<Rightarrow> addr \<Rightarrow> 'h \<Rightarrow> 'h option" where
  "wait_until_busy_reset hw io h =
     (let (v, h) = ioread8 hw (io + 1) h
      in if v \<noteq> 0 then wait_until_busy_reset hw io (schedule hw h) else Some h)"

definition update_cmd_regs :: "'h mmio \<Rightarrow> addr \<Rightarrow> u8 \<Rightarrow> u16 \<Rightarrow> 'h \<Rightarrow> 'h" where
  "update_cmd_regs hw io cmd clocks h =
     (let h = iowrite8 hw (ucast (drop_bit 8 (clocks AND 0xff00))) io h;
          h = iowrite8 hw (ucast (clocks AND 0x00ff)) (io + 0x8) h
      in iowrite8 hw cmd (io + 0x10) h)"

definition ccat_update_cmd :: "'h mmio \<Rightarrow> addr \<Rightarrow> u8 \<times> u16 \<Rightarrow> 'h \<Rightarrow> 'h option" where
  "ccat_update_cmd hw io c h =
     (let h = update_cmd_regs hw io (fst c) (snd c) h;
          h = iowrite8 hw 0xff (io + 0x7f8) h
      in wait_until_busy_reset hw io h)"

definition ccat_update_cmd_addr :: "'h mmio \<Rightarrow> addr \<Rightarrow> u8 \<Rightarrow> u16 \<Rightarrow> u32 \<Rightarrow> 'h \<Rightarrow> 'h option" where
  "ccat_update_cmd_addr hw io cmd clocks a h =
     (let addr_0 = SWAP_BITS (a AND 0xff);
          addr_1 = SWAP_BITS (drop_bit 8 (a AND 0xff00));
          addr_2 = SWAP_BITS (drop_bit 16 (a AND 0xff0000));
          h = update_cmd_regs hw io cmd clocks h;
          h = iowrite8 hw addr_2 (io + 0x18) h;
          h = iowrite8 hw addr_1 (io + 0x20) h;
          h = iowrite8 hw addr_0 (io + 0x28) h;
          h = iowrite8 hw 0xff (io + 0x7f8) h
      in wait_until_busy_reset hw io h)"

definition ccat_get_status :: "'h mmio \<Rightarrow> addr \<Rightarrow> 'h \<Rightarrow> (u8 \<times> 'h) option" where
  "ccat_get_status hw io h =
     (case ccat_update_cmd hw io CCAT_READ_STATUS h of
        None \<Rightarrow> None
      | Some h \<Rightarrow> Some (ioread8 hw (io + 0x20) h))"

partial_function (option) ccat_wait_status_cleared :: "'h mmio \<Rightarrow> addr \<Rightarrow> 'h \<Rightarrow> 'h option" where
  "ccat_wait_status_cleared hw io h =
     (case ccat_get_status hw io h of
        None \<Rightarrow> None
      | Some (status, h) \<Rightarrow>
          if status AND push_bit 7 1 \<noteq> 0 then ccat_wait_status_cleared hw io h else Some h)"

section \<open>Reading\<close>

text \<open>
  What is stored in the user's buffer: \<open>None\<close> stands for a byte whose \<open>put_user\<close> failed. \<open>uok\<close> says for
  which offsets of the user's buffer it succeeds; \<open>b\<close> is the offset of the block.
\<close>

fun read_bytes :: "'h mmio \<Rightarrow> (nat \<Rightarrow> bool) \<Rightarrow> addr \<Rightarrow> nat \<Rightarrow> nat \<Rightarrow> nat \<Rightarrow> 'h \<Rightarrow> u8 option list \<times> 'h" where
  "read_bytes hw uok io b i 0 h = ([], h)"
| "read_bytes hw uok io b i (Suc n) h =
     (let (v, h) = ioread8 hw (io + CCAT_DATA_IN_4 + 8 * i) h;
          (vs, h) = read_bytes hw uok io b (Suc i) n h
      in ((if uok (b + i) then Some v else None) # vs, h))"

definition ccat_read_flash_block ::
  "'h mmio \<Rightarrow> (nat \<Rightarrow> bool) \<Rightarrow> addr \<Rightarrow> u32 \<Rightarrow> u16 \<Rightarrow> nat \<Rightarrow> 'h \<Rightarrow> (nat \<times> u8 option list \<times> 'h) option" where
  "ccat_read_flash_block hw uok io a len b h =
     (let clocks = 8 * len
      in case ccat_update_cmd_addr hw io (fst CCAT_READ_FLASH) (snd CCAT_READ_FLASH + clocks) a h of
           None \<Rightarrow> None
         | Some h \<Rightarrow> let (vs, h) = read_bytes hw uok io b 0 (unat len) h in Some (unat len, vs, h))"

text \<open>The loop of \<open>ccat_read_flash\<close>; \<open>n\<close> is the number of bytes left (a \<open>u32\<close>).\<close>

function read_flash_loop ::
  "'h mmio \<Rightarrow> (nat \<Rightarrow> bool) \<Rightarrow> addr \<Rightarrow> nat \<Rightarrow> nat \<Rightarrow> u64 \<Rightarrow> 'h \<Rightarrow> (u8 option list \<times> u64 \<times> 'h) option" where
  "read_flash_loop hw uok io b n off h =
     (if CCAT_DATA_BLOCK_SIZE < n then
        (case ccat_read_flash_block hw uok io (ucast off) (of_nat CCAT_DATA_BLOCK_SIZE) b h of
           None \<Rightarrow> None
         | Some (r, vs, h) \<Rightarrow>
             (case read_flash_loop hw uok io (b + CCAT_DATA_BLOCK_SIZE) (n - CCAT_DATA_BLOCK_SIZE) (off + of_nat r) h of
                None \<Rightarrow> None
              | Some (ws, off, h) \<Rightarrow> Some (vs @ ws, off, h)))
      else
        (case ccat_read_flash_block hw uok io (ucast off) (of_nat n) b h of
           None \<Rightarrow> None
         | Some (r, vs, h) \<Rightarrow> Some (vs, off + of_nat r, h)))"
  by pat_completeness auto
termination
  by (relation "measure (\<lambda>(hw, uok, io, b, n, off, h). n)") (auto simp: update_consts)

declare read_flash_loop.simps [simp del]

definition ccat_read_flash ::
  "'h mmio \<Rightarrow> (nat \<Rightarrow> bool) \<Rightarrow> addr \<Rightarrow> u32 \<Rightarrow> u64 \<Rightarrow> 'h \<Rightarrow> (int \<times> u8 option list \<times> u64 \<times> 'h) option" where
  "ccat_read_flash hw uok io len off h =
     (case read_flash_loop hw uok io 0 (unat len) off h of
        None \<Rightarrow> None
      | Some (vs, off', h) \<Rightarrow> Some (sint (ucast (off' - off) :: u32), vs, off', h))"

definition ccat_update_read ::
  "'h mmio \<Rightarrow> (nat \<Rightarrow> bool) \<Rightarrow> ccat_cdev \<Rightarrow> u64 \<Rightarrow> u64 \<Rightarrow> 'h \<Rightarrow> (int \<times> u8 option list \<times> u64 \<times> 'h) option" where
  "ccat_update_read hw uok d len off h =
     (if cd_iosize d \<le> off then Some (0, [], off, h)
      else ccat_read_flash hw uok (cd_ioaddr d) (ucast (min len (cd_iosize d - off))) off h)"

section \<open>Writing\<close>

fun write_bytes :: "'h mmio \<Rightarrow> addr \<Rightarrow> nat \<Rightarrow> u8 list \<Rightarrow> 'h \<Rightarrow> 'h" where
  "write_bytes hw io i [] h = h"
| "write_bytes hw io i (v # vs) h = write_bytes hw io (Suc i) vs (iowrite8 hw v (io + CCAT_DATA_OUT_4 + 8 * i) h)"

text \<open>The block's bytes are the first \<open>len\<close> of what \<open>buf\<close> points to.\<close>

definition ccat_write_flash_block :: "'h mmio \<Rightarrow> addr \<Rightarrow> u32 \<Rightarrow> u16 \<Rightarrow> u8 list \<Rightarrow> 'h \<Rightarrow> 'h option" where
  "ccat_write_flash_block hw io a len buf h =
     (let clocks = 8 * len
      in case ccat_update_cmd hw io CCAT_WRITE_ENABLE h of
           None \<Rightarrow> None
         | Some h \<Rightarrow>
             let h = write_bytes hw io 0 (take (unat len) buf) h
             in case ccat_update_cmd_addr hw io (fst CCAT_WRITE_FLASH) (snd CCAT_WRITE_FLASH + clocks) a h of
                  None \<Rightarrow> None
                | Some h \<Rightarrow> ccat_wait_status_cleared hw io h)"

function write_flash_loop :: "'h mmio \<Rightarrow> addr \<Rightarrow> u32 \<Rightarrow> u8 list \<Rightarrow> nat \<Rightarrow> 'h \<Rightarrow> 'h option" where
  "write_flash_loop hw io off buf len h =
     (if CCAT_WRITE_BLOCK_SIZE < len then
        (case ccat_write_flash_block hw io off (of_nat CCAT_WRITE_BLOCK_SIZE) buf h of
           None \<Rightarrow> None
         | Some h \<Rightarrow>
             write_flash_loop hw io (off + of_nat CCAT_WRITE_BLOCK_SIZE) (drop CCAT_WRITE_BLOCK_SIZE buf)
               (len - CCAT_WRITE_BLOCK_SIZE) h)
      else ccat_write_flash_block hw io off (of_nat len) buf h)"
  by pat_completeness auto
termination
  by (relation "measure (\<lambda>(hw, io, off, buf, len, h). len)") (auto simp: update_consts)

declare write_flash_loop.simps [simp del]

definition ccat_write_flash :: "'h mmio \<Rightarrow> ccat_cdev \<Rightarrow> cdev_buffer \<Rightarrow> 'h \<Rightarrow> 'h option" where
  "ccat_write_flash hw d buf h = write_flash_loop hw (cd_ioaddr d) 0 (buf_data buf) (unat (buf_size buf)) h"

definition ccat_update_release :: "'h mmio \<Rightarrow> ccat_cdev \<Rightarrow> cdev_buffer \<Rightarrow> 'h \<Rightarrow> (int \<times> ccat_cdev \<times> 'h) option" where
  "ccat_update_release hw d buf h =
     (let io = cd_ioaddr d;
          flashed =
            (if buf_size buf > 0 then
               (case ccat_update_cmd hw io CCAT_WRITE_ENABLE h of
                  None \<Rightarrow> None
                | Some h \<Rightarrow>
                    (case ccat_update_cmd hw io CCAT_BULK_ERASE h of
                       None \<Rightarrow> None
                     | Some h \<Rightarrow>
                         (case ccat_wait_status_cleared hw io h of
                            None \<Rightarrow> None
                          | Some h \<Rightarrow> ccat_write_flash hw d buf h)))
             else Some h)
      in case flashed of
           None \<Rightarrow> None
         | Some h \<Rightarrow> let (r, d) = ccat_cdev_release d in Some (r, d, h))"


definition ccat_update_write ::
  "(nat \<Rightarrow> nat) \<Rightarrow> ccat_cdev \<Rightarrow> u8 list \<Rightarrow> u64 \<Rightarrow> u64 \<Rightarrow> cdev_buffer \<Rightarrow> int \<times> u64 \<times> cdev_buffer" where
  "ccat_update_write nc d ubuf len off buf =
     (if cd_iosize d < off + len then (0, off, buf)
      else
        let n = unat off;
            (r, us) = copy_from_user nc ubuf (unat len);
            buf = buf\<lparr>buf_data := take n (buf_data buf) @ us @ drop (n + unat len) (buf_data buf)\<rparr>
        in if r \<noteq> 0 then (- EFAULT, off, buf)
           else let off = off + len in (sint len, off, buf\<lparr>buf_size := off\<rparr>))"

definition update_class :: ccat_class where
  "update_class = static_class ''ccat_update'' CCAT_UPDATE_DEVICES_MAX"

definition ccat_update_probe ::
  "kenv \<Rightarrow> ccat_function \<Rightarrow> ccat_class \<Rightarrow> kernel \<Rightarrow> (int \<times> nat option \<times> ccat_class \<times> kernel) exec" where
  "ccat_update_probe env func cls k =
     (if info_rev (func_info func) \<noteq> 0 then Inr (- ENODEV, None, cls, k)
      else ccat_cdev_probe env func CCAT_FLASH_SIZE cls k)"

section \<open>Bit reversal\<close>

definition bit_reverse :: "u8 \<Rightarrow> u8" where
  "bit_reverse b = horner_sum of_bool 2 (map (\<lambda>k. bit b (7 - k)) [0..<8])"

lemma bit_bit_reverse: "bit (bit_reverse b) k \<longleftrightarrow> k < 8 \<and> bit b (7 - k)"
proof (cases "k < 8")
  case True
  then have "map (\<lambda>k. bit b (7 - k)) [0..<8] ! k = bit b (7 - k)" by (subst nth_map) simp_all
  then show ?thesis using True by (simp add: bit_reverse_def bit_horner_sum_bit_iff)
next
  case False
  then show ?thesis by (simp add: bit_reverse_def bit_horner_sum_bit_iff)
qed

lemma bit_reverse_twice [simp]: "bit_reverse (bit_reverse b) = b"
  by (rule bit_eqI) (auto simp: bit_bit_reverse)

lemma swap_bits_0: "list_all (\<lambda>n. SWAP_BITS (of_nat n) = bit_reverse (of_nat n)) [0..<64]"
  by code_simp

lemma swap_bits_1: "list_all (\<lambda>n. SWAP_BITS (of_nat n) = bit_reverse (of_nat n)) [64..<128]"
  by code_simp

lemma swap_bits_2: "list_all (\<lambda>n. SWAP_BITS (of_nat n) = bit_reverse (of_nat n)) [128..<192]"
  by code_simp

lemma swap_bits_3: "list_all (\<lambda>n. SWAP_BITS (of_nat n) = bit_reverse (of_nat n)) [192..<256]"
  by code_simp

lemma swap_bits_byte:
  assumes "n < 256"
  shows "SWAP_BITS (of_nat n) = bit_reverse (of_nat n)"
proof -
  have "n \<in> set [0..<64] \<or> n \<in> set [64..<128] \<or> n \<in> set [128..<192] \<or> n \<in> set [192..<256]"
    unfolding set_upt atLeastLessThan_iff using assms by linarith
  then show ?thesis using swap_bits_0 swap_bits_1 swap_bits_2 swap_bits_3 unfolding list_all_iff by blast
qed

text \<open>The three address bytes \<open>ccat_update_cmd_addr\<close> writes.\<close>

lemma address_bytes:
  fixes a :: u32
  shows "SWAP_BITS (a AND 0xff) = bit_reverse (of_nat (unat a mod 256))"
    and "SWAP_BITS (drop_bit 8 (a AND 0xff00)) = bit_reverse (of_nat (unat a div 256 mod 256))"
    and "SWAP_BITS (drop_bit 16 (a AND 0xff0000)) = bit_reverse (of_nat (unat a div 65536 mod 256))"
proof -
  have m: "x AND 0xff = of_nat (unat x mod 256)" for x :: u32
  proof -
    have "x AND 0xff = take_bit 8 x" by (simp add: take_bit_eq_mask mask_eq_exp_minus_1)
    also have "\<dots> = of_nat (unat (take_bit 8 x))" by simp
    also have "unat (take_bit 8 x) = unat x mod 256" by (simp add: take_bit_eq_mod unat_mod)
    finally show ?thesis .
  qed
  have d8: "drop_bit 8 (a AND 0xff00) = drop_bit 8 a AND 0xff" "drop_bit 16 (a AND 0xff0000) = drop_bit 16 a AND 0xff"
    by (simp_all only: drop_bit_and) simp_all
  have u: "unat (drop_bit 8 a) = unat a div 256" "unat (drop_bit 16 a) = unat a div 65536"
    by (simp_all add: drop_bit_eq_div unat_div)
  show "SWAP_BITS (a AND 0xff) = bit_reverse (of_nat (unat a mod 256))"
    "SWAP_BITS (drop_bit 8 (a AND 0xff00)) = bit_reverse (of_nat (unat a div 256 mod 256))"
    "SWAP_BITS (drop_bit 16 (a AND 0xff0000)) = bit_reverse (of_nat (unat a div 65536 mod 256))"
    unfolding d8 m u by (simp_all add: swap_bits_byte)
qed

lemma clock_bytes:
  "256 * unat (ucast (drop_bit 8 (c AND 0xff00)) :: u8) + unat (ucast (c AND 0x00ff) :: u8) = unat (c :: u16)"
proof -
  have c: "unat c < 65536" using unsigned_less [of c, where 'a = nat] by simp
  have "drop_bit 8 (c AND 0xff00) = drop_bit 8 c AND 0xff"
    by (simp only: drop_bit_and) simp
  moreover have m: "ucast (x AND 0xff) = (ucast x :: u8)" for x :: u16
  proof -
    have ff: "(0xff :: u16) = mask 8" by (simp add: mask_eq_exp_minus_1)
    show ?thesis unfolding ff by (rule bit_eqI) (auto simp: bit_unsigned_iff bit_and_iff bit_mask_iff)
  qed
  moreover have "unat (ucast x :: u8) = unat x mod 256" for x :: u16
    by (simp add: unsigned_ucast_eq take_bit_eq_mod)
  moreover have "unat (drop_bit 8 c) = unat c div 256" by (simp add: drop_bit_eq_div unat_div)
  ultimately show ?thesis using c by simp
qed

end
