(* ===== verification/Ccat_Flash.thy ===== *)
theory Ccat_Flash
  imports Ccat_Update
begin

text \<open>
  The Update driver (\<^verbatim>\<open>src/update.c\<close>) on the flash device behind its registers: what the driver relies
  on of the device, that every command sequence of the driver then returns, and what the flash
  holds afterwards.
\<close>

section \<open>The flash behind the registers\<close>

text \<open>
  What the driver relies on of the device. The views of the device's state: the bytes last written
  to the window, the flash, whether writing is enabled, the bytes to read from the window, how many
  polls the busy flag stays set, and how many status reads an erase or write takes. The device
  reads the command from the window with its address bytes bit-reversed.
\<close>

record 'h epcs_view =
  ev_win :: "'h \<Rightarrow> nat \<Rightarrow> u8"
  ev_flash :: "'h \<Rightarrow> nat \<Rightarrow> u8"
  ev_wel :: "'h \<Rightarrow> bool"
  ev_inp :: "'h \<Rightarrow> nat \<Rightarrow> u8"
  ev_busy :: "'h \<Rightarrow> nat"
  ev_work :: "'h \<Rightarrow> nat"

definition cmd_clocks :: "(nat \<Rightarrow> u8) \<Rightarrow> nat" where
  "cmd_clocks w = 256 * unat (w 0) + unat (w 8)"

definition cmd_addr :: "(nat \<Rightarrow> u8) \<Rightarrow> nat" where
  "cmd_addr w = 65536 * unat (bit_reverse (w 0x18)) + 256 * unat (bit_reverse (w 0x20)) + unat (bit_reverse (w 0x28))"

text \<open>Nothing but the window and the busy flag changed.\<close>

definition quiet :: "'h epcs_view \<Rightarrow> 'h \<Rightarrow> 'h \<Rightarrow> bool" where
  "quiet V h h' \<longleftrightarrow> ev_flash V h' = ev_flash V h \<and> ev_wel V h' = ev_wel V h \<and> ev_inp V h' = ev_inp V h \<and>
     ev_work V h' = ev_work V h"

text \<open>
  Registers: a write below the trigger is remembered, a read returns the input bytes, and the busy
  flag is reset after finitely many polls.
\<close>

definition epcs_regs :: "'h mmio \<Rightarrow> 'h epcs_view \<Rightarrow> addr \<Rightarrow> bool" where
  "epcs_regs hw V io \<longleftrightarrow>
     (\<forall>h v r. r < 0x7f8 \<longrightarrow> ev_win V (iowrite8 hw v (io + r) h) = (ev_win V h)(r := v) \<and> quiet V h (iowrite8 hw v (io + r) h)) \<and>
     (\<forall>h r. r \<in> {0x20} \<union> {0x38..<0x7F0} \<longrightarrow>
        fst (ioread8 hw (io + r) h) = ev_inp V h r \<and> quiet V h (snd (ioread8 hw (io + r) h))) \<and>
     (\<forall>h. quiet V h (snd (ioread8 hw (io + 1) h)) \<and>
        (fst (ioread8 hw (io + 1) h) \<noteq> 0 \<longrightarrow>
           quiet V h (schedule hw (snd (ioread8 hw (io + 1) h))) \<and>
           ev_busy V (schedule hw (snd (ioread8 hw (io + 1) h))) < ev_busy V h))"

text \<open>
  Commands: what writing 0xff to the trigger does for each command in the window. A write programs
  the bytes of one 256-byte page and can only clear bits; it and the erase need writing enabled and
  may take a while, during which only the status can be read. Bit 7 of the status says whether the
  device still works, and does not stay set forever.
\<close>

definition epcs_cmds :: "'h mmio \<Rightarrow> 'h epcs_view \<Rightarrow> addr \<Rightarrow> bool" where
  "epcs_cmds hw V io \<longleftrightarrow>
     (\<forall>h. let h' = iowrite8 hw 0xff (io + 0x7f8) h; w = ev_win V h in
        (w 0x10 = 0x60 \<and> ev_work V h = 0 \<longrightarrow> ev_wel V h' \<and> ev_flash V h' = ev_flash V h \<and> ev_work V h' = 0) \<and>
        (w 0x10 = 0xE3 \<and> ev_wel V h \<and> ev_work V h = 0 \<longrightarrow> ev_flash V h' = (\<lambda>_. 0xff)) \<and>
        (\<forall>n. w 0x10 = 0x40 \<and> ev_wel V h \<and> ev_work V h = 0 \<and> cmd_clocks w = 32 + 8 * n \<and>
             cmd_addr w mod 256 + n \<le> 256 \<longrightarrow>
           ev_flash V h' = (\<lambda>x. if cmd_addr w \<le> x \<and> x < cmd_addr w + n
                                then ev_flash V h x AND w (0x30 + 8 * (x - cmd_addr w)) else ev_flash V h x)) \<and>
        (\<forall>n. w 0x10 = 0xC0 \<and> ev_work V h = 0 \<and> cmd_clocks w = 32 + 8 * n \<longrightarrow>
           ev_flash V h' = ev_flash V h \<and> ev_work V h' = 0 \<and>
           (\<forall>i < n. 0x38 + 8 * i < 0x7F0 \<longrightarrow> ev_inp V h' (0x38 + 8 * i) = ev_flash V h (cmd_addr w + i))) \<and>
        (w 0x10 = 0xA0 \<longrightarrow>
           ev_flash V h' = ev_flash V h \<and>
           (if bit (ev_inp V h' 0x20) 7 then ev_work V h' < ev_work V h else ev_work V h' = 0)))"

definition epcs_law :: "'h mmio \<Rightarrow> 'h epcs_view \<Rightarrow> addr \<Rightarrow> bool" where
  "epcs_law hw V io \<longleftrightarrow> epcs_regs hw V io \<and> epcs_cmds hw V io"

lemma quiet_refl [simp]: "quiet V h h"
  by (simp add: quiet_def)

lemma quiet_trans: "quiet V h h1 \<Longrightarrow> quiet V h1 h2 \<Longrightarrow> quiet V h h2"
  by (simp add: quiet_def)

lemma epcs_write:
  assumes "epcs_law hw V io" and "r < 0x7f8"
  shows "ev_win V (iowrite8 hw v (io + r) h) = (ev_win V h)(r := v)" "quiet V h (iowrite8 hw v (io + r) h)"
  using assms by (simp_all add: epcs_law_def epcs_regs_def)

lemma epcs_read:
  assumes "epcs_law hw V io" and "r = 0x20 \<or> 0x38 \<le> r \<and> r < 0x7F0"
  shows "fst (ioread8 hw (io + r) h) = ev_inp V h r" "quiet V h (snd (ioread8 hw (io + r) h))"
  using assms by (auto simp: epcs_law_def epcs_regs_def)

text \<open>The busy wait returns.\<close>

lemma wait_returns:
  assumes law: "epcs_law hw V io"
  shows "\<exists>h'. wait_until_busy_reset hw io h = Some h' \<and> quiet V h h'"
proof (induction "ev_busy V h" arbitrary: h rule: less_induct)
  case less
  obtain v h1 where rd: "ioread8 hw (io + 1) h = (v, h1)" by fastforce
  have q: "quiet V h h1" and more: "v \<noteq> 0 \<Longrightarrow> quiet V h (schedule hw h1) \<and> ev_busy V (schedule hw h1) < ev_busy V h"
    using law rd unfolding epcs_law_def epcs_regs_def by (metis fst_conv snd_conv)+
  show ?case
  proof (cases "v = 0")
    case True
    then show ?thesis using rd q by (subst wait_until_busy_reset.simps) simp
  next
    case False
    then obtain h' where "wait_until_busy_reset hw io (schedule hw h1) = Some h'" "quiet V (schedule hw h1) h'"
      using less more by blast
    then show ?thesis
      using False rd more quiet_trans by (subst wait_until_busy_reset.simps) auto
  qed
qed

lemma cmd_regs_win:
  assumes law: "epcs_law hw V io"
  shows "ev_win V (update_cmd_regs hw io cmd clocks h) =
      (ev_win V h)(0 := ucast (drop_bit 8 (clocks AND 0xff00)), 8 := ucast (clocks AND 0x00ff), 0x10 := cmd)"
    and "quiet V h (update_cmd_regs hw io cmd clocks h)"
proof -
  have w0: "ev_win V (iowrite8 hw v io g) = (ev_win V g)(0 := v)" "quiet V g (iowrite8 hw v io g)" for v g
    using epcs_write [OF law, where r = 0 and v = v and h = g] by simp_all
  show "ev_win V (update_cmd_regs hw io cmd clocks h) =
      (ev_win V h)(0 := ucast (drop_bit 8 (clocks AND 0xff00)), 8 := ucast (clocks AND 0x00ff), 0x10 := cmd)"
    by (simp add: update_cmd_regs_def epcs_write [OF law] w0)
  show "quiet V h (update_cmd_regs hw io cmd clocks h)"
    unfolding update_cmd_regs_def Let_def
    by (rule quiet_trans [OF quiet_trans [OF w0(2) epcs_write(2) [OF law]] epcs_write(2) [OF law]]) simp_all
qed

text \<open>The window a command without an address leaves for the trigger.\<close>

lemma update_cmd_trigger:
  assumes law: "epcs_law hw V io"
  obtains g h' where "ccat_update_cmd hw io c h = Some h'" "quiet V h g" "ev_win V g 0x10 = fst c"
    "quiet V (iowrite8 hw 0xff (io + 0x7f8) g) h'"
proof -
  let ?g = "update_cmd_regs hw io (fst c) (snd c) h"
  obtain h' where "wait_until_busy_reset hw io (iowrite8 hw 0xff (io + 0x7f8) ?g) = Some h'"
    "quiet V (iowrite8 hw 0xff (io + 0x7f8) ?g) h'" using wait_returns [OF law] by blast
  then show thesis using that [of h' ?g] cmd_regs_win [OF law] by (simp add: ccat_update_cmd_def)
qed

lemma three_bytes: "65536 * (n div 65536) + 256 * (n div 256 mod 256) + n mod 256 = (n :: nat)"
proof -
  have "n div 65536 = n div 256 div 256" by (simp flip: div_mult2_eq)
  moreover have "256 * (n div 256 div 256) + n div 256 mod 256 = n div 256" by simp
  moreover have "256 * (n div 256) + n mod 256 = n" by simp
  ultimately show ?thesis by linarith
qed

lemma cmd_addr_window:
  assumes "unat a < 2 ^ 24" and "w 0x18 = SWAP_BITS (drop_bit 16 (a AND 0xff0000))"
    and "w 0x20 = SWAP_BITS (drop_bit 8 (a AND 0xff00))" and "w 0x28 = SWAP_BITS (a AND 0xff)"
  shows "cmd_addr w = unat a"
  using assms(1) unfolding cmd_addr_def assms(2-4) address_bytes bit_reverse_twice
  by (simp add: three_bytes)

lemma update_cmd_addr_trigger:
  assumes law: "epcs_law hw V io" and a: "unat a < 2 ^ 24"
  obtains g h' where "ccat_update_cmd_addr hw io cmd clocks a h = Some h'" "quiet V h g" "ev_win V g 0x10 = cmd"
    "cmd_clocks (ev_win V g) = unat clocks" "cmd_addr (ev_win V g) = unat a"
    "\<forall>r \<ge> 0x30. ev_win V g r = ev_win V h r"
    "quiet V (iowrite8 hw 0xff (io + 0x7f8) g) h'"
proof -
  let ?g0 = "update_cmd_regs hw io cmd clocks h"
  let ?g1 = "iowrite8 hw (SWAP_BITS (drop_bit 16 (a AND 0xff0000))) (io + 0x18) ?g0"
  let ?g2 = "iowrite8 hw (SWAP_BITS (drop_bit 8 (a AND 0xff00))) (io + 0x20) ?g1"
  let ?g = "iowrite8 hw (SWAP_BITS (a AND 0xff)) (io + 0x28) ?g2"
  obtain h' where h': "wait_until_busy_reset hw io (iowrite8 hw 0xff (io + 0x7f8) ?g) = Some h'"
    "quiet V (iowrite8 hw 0xff (io + 0x7f8) ?g) h'" using wait_returns [OF law] by blast
  have win: "ev_win V ?g = (ev_win V h)(0 := ucast (drop_bit 8 (clocks AND 0xff00)), 8 := ucast (clocks AND 0x00ff), 0x10 := cmd,
      0x18 := SWAP_BITS (drop_bit 16 (a AND 0xff0000)), 0x20 := SWAP_BITS (drop_bit 8 (a AND 0xff00)), 0x28 := SWAP_BITS (a AND 0xff))"
    by (simp add: epcs_write [OF law] cmd_regs_win [OF law])
  have q: "quiet V h ?g"
    by (rule quiet_trans [OF quiet_trans [OF quiet_trans [OF cmd_regs_win(2) [OF law] epcs_write(2) [OF law]]
          epcs_write(2) [OF law]] epcs_write(2) [OF law]]) simp_all
  have clk: "cmd_clocks (ev_win V ?g) = unat clocks" unfolding cmd_clocks_def win using clock_bytes [of clocks] by simp
  have adr: "cmd_addr (ev_win V ?g) = unat a" by (rule cmd_addr_window [OF a]; unfold win; simp)
  show thesis
    using h' q clk adr by (intro that [of h' ?g]) (simp_all only: win, simp_all add: ccat_update_cmd_addr_def Let_def)
qed

lemma write_enable_returns:
  assumes law: "epcs_law hw V io" and idle: "ev_work V h = 0"
  shows "\<exists>h'. ccat_update_cmd hw io CCAT_WRITE_ENABLE h = Some h' \<and> ev_wel V h' \<and> ev_flash V h' = ev_flash V h \<and>
    ev_work V h' = 0"
proof -
  obtain g h' where g: "ccat_update_cmd hw io CCAT_WRITE_ENABLE h = Some h'" "quiet V h g"
    "ev_win V g 0x10 = fst CCAT_WRITE_ENABLE" "quiet V (iowrite8 hw 0xff (io + 0x7f8) g) h'"
    by (rule update_cmd_trigger [OF law])
  let ?t = "iowrite8 hw 0xff (io + 0x7f8) g"
  have "ev_win V g 0x10 = 0x60 \<and> ev_work V g = 0" using g(2,3) idle by (simp add: CCAT_WRITE_ENABLE_def quiet_def)
  then have "ev_wel V ?t \<and> ev_flash V ?t = ev_flash V g \<and> ev_work V ?t = 0"
    using law unfolding epcs_law_def epcs_cmds_def Let_def by blast
  then show ?thesis using g(1,2,4) by (simp add: quiet_def)
qed

lemma bulk_erase_returns:
  assumes law: "epcs_law hw V io" and "ev_wel V h" and "ev_work V h = 0"
  shows "\<exists>h'. ccat_update_cmd hw io CCAT_BULK_ERASE h = Some h' \<and> ev_flash V h' = (\<lambda>_. 0xff)"
proof -
  obtain g h' where g: "ccat_update_cmd hw io CCAT_BULK_ERASE h = Some h'" "quiet V h g"
    "ev_win V g 0x10 = fst CCAT_BULK_ERASE" "quiet V (iowrite8 hw 0xff (io + 0x7f8) g) h'"
    by (rule update_cmd_trigger [OF law])
  have "ev_win V g 0x10 = 0xE3 \<and> ev_wel V g \<and> ev_work V g = 0"
    using g(2,3) assms(2,3) by (simp add: CCAT_BULK_ERASE_def quiet_def)
  then have "ev_flash V (iowrite8 hw 0xff (io + 0x7f8) g) = (\<lambda>_. 0xff)"
    using law unfolding epcs_law_def epcs_cmds_def Let_def by blast
  then show ?thesis using g(1,4) by (simp add: quiet_def)
qed

lemma get_status_returns:
  assumes law: "epcs_law hw V io"
  shows "\<exists>v h'. ccat_get_status hw io h = Some (v, h') \<and> ev_flash V h' = ev_flash V h \<and>
    (if bit v 7 then ev_work V h' < ev_work V h else ev_work V h' = 0)"
proof -
  obtain g h1 where g: "ccat_update_cmd hw io CCAT_READ_STATUS h = Some h1" "quiet V h g"
    "ev_win V g 0x10 = fst CCAT_READ_STATUS" "quiet V (iowrite8 hw 0xff (io + 0x7f8) g) h1"
    by (rule update_cmd_trigger [OF law])
  let ?t = "iowrite8 hw 0xff (io + 0x7f8) g"
  have "ev_win V g 0x10 = 0xA0" using g(3) by (simp add: CCAT_READ_STATUS_def)
  then have t: "ev_flash V ?t = ev_flash V g"
    "if bit (ev_inp V ?t 0x20) 7 then ev_work V ?t < ev_work V g else ev_work V ?t = 0"
    using law unfolding epcs_law_def epcs_cmds_def Let_def by blast+
  obtain v h' where rd: "ioread8 hw (io + 0x20) h1 = (v, h')" by fastforce
  have "v = ev_inp V h1 0x20" "quiet V h1 h'" using epcs_read [OF law, of "0x20" h1] rd by simp_all
  then show ?thesis using g(1,2,4) t rd by (simp add: ccat_get_status_def quiet_def split: if_splits)
qed

lemma status_bit: "status AND push_bit 7 1 \<noteq> (0 :: u8) \<longleftrightarrow> bit status 7"
  by (rule tested_bit) simp

text \<open>Waiting for an erase or write to finish returns.\<close>

lemma wait_status_returns:
  assumes "epcs_law hw V io"
  shows "\<exists>h'. ccat_wait_status_cleared hw io h = Some h' \<and> ev_flash V h' = ev_flash V h \<and> ev_work V h' = 0"
proof (induction "ev_work V h" arbitrary: h rule: less_induct)
  case less
  obtain v h1 where s: "ccat_get_status hw io h = Some (v, h1)" "ev_flash V h1 = ev_flash V h"
    "if bit v 7 then ev_work V h1 < ev_work V h else ev_work V h1 = 0"
    using get_status_returns [OF assms] by blast
  show ?case
  proof (cases "bit v 7")
    case True
    then obtain h' where "ccat_wait_status_cleared hw io h1 = Some h'"
        "ev_flash V h' = ev_flash V h1" "ev_work V h' = 0"
      using less s(3) by auto
    then show ?thesis using s True by (subst ccat_wait_status_cleared.simps) (simp only: option.case prod.case status_bit, simp)
  next
    case False
    then show ?thesis using s by (subst ccat_wait_status_cleared.simps) (simp only: option.case prod.case status_bit, simp)
  qed
qed

section \<open>Reading blocks\<close>

lemma read_bytes_inp:
  assumes "epcs_law hw V io" and "0x38 + 8 * (i + n) \<le> 0x7F0"
  shows "\<exists>h'. read_bytes hw uok io b i n h =
      (map (\<lambda>k. if uok (b + k) then Some (ev_inp V h (0x38 + 8 * k)) else None) [i..<i + n], h') \<and> quiet V h h'"
  using assms(2)
proof (induction n arbitrary: i h)
  case (Suc n)
  obtain v h1 where rd: "ioread8 hw (io + CCAT_DATA_IN_4 + 8 * i) h = (v, h1)" by fastforce
  have r: "v = ev_inp V h (0x38 + 8 * i)" "quiet V h h1"
    using epcs_read [OF assms(1), of "0x38 + 8 * i" h] rd Suc.prems by (simp_all add: CCAT_DATA_IN_4_def add.assoc)
  obtain h' where "read_bytes hw uok io b (Suc i) n h1 =
      (map (\<lambda>k. if uok (b + k) then Some (ev_inp V h1 (0x38 + 8 * k)) else None) [Suc i..<Suc i + n], h')" "quiet V h1 h'"
    using Suc.IH [of "Suc i" h1] Suc.prems by auto
  moreover have "[i..<i + Suc n] = i # [Suc i..<Suc i + n]" by (simp add: upt_conv_Cons)
  moreover have "ev_inp V h1 = ev_inp V h" using r(2) by (simp add: quiet_def)
  ultimately show ?case using rd r quiet_trans [OF r(2)] by (simp del: upt_Suc)
qed simp

lemma read_block_returns:
  assumes law: "epcs_law hw V io" and a: "unat a < 2 ^ 24" and len: "unat len \<le> CCAT_DATA_BLOCK_SIZE"
    and idle: "ev_work V h = 0"
  shows "\<exists>h'. ccat_read_flash_block hw uok io a len b h =
      Some (unat len, map (\<lambda>k. if uok (b + k) then Some (ev_flash V h (unat a + k)) else None) [0..<unat len], h') \<and>
    ev_flash V h' = ev_flash V h \<and> ev_work V h' = 0"
proof -
  let ?c = "snd CCAT_READ_FLASH + 8 * len"
  have n: "unat len \<le> 247" using len by (simp add: update_consts)
  have clk: "unat ?c = 32 + 8 * unat len" using n by (simp add: CCAT_READ_FLASH_def unat_word_ariths)
  obtain g h1 where g: "ccat_update_cmd_addr hw io (fst CCAT_READ_FLASH) ?c a h = Some h1" "quiet V h g"
    "ev_win V g 0x10 = fst CCAT_READ_FLASH" "cmd_clocks (ev_win V g) = unat ?c" "cmd_addr (ev_win V g) = unat a"
    "quiet V (iowrite8 hw 0xff (io + 0x7f8) g) h1"
    by (rule update_cmd_addr_trigger [OF law a])
  let ?t = "iowrite8 hw 0xff (io + 0x7f8) g"
  have cmd: "ev_win V g 0x10 = 0xC0 \<and> ev_work V g = 0 \<and> cmd_clocks (ev_win V g) = 32 + 8 * unat len"
    using g(2-4) clk idle by (simp add: CCAT_READ_FLASH_def quiet_def)
  have t: "ev_flash V ?t = ev_flash V g" "ev_work V ?t = 0"
    "\<forall>i < unat len. 0x38 + 8 * i < 0x7F0 \<longrightarrow> ev_inp V ?t (0x38 + 8 * i) = ev_flash V g (cmd_addr (ev_win V g) + i)"
    using law cmd unfolding epcs_law_def epcs_cmds_def Let_def by blast+
  obtain h' where rd: "read_bytes hw uok io b 0 (unat len) h1 =
      (map (\<lambda>k. if uok (b + k) then Some (ev_inp V h1 (0x38 + 8 * k)) else None) [0..<0 + unat len], h')" "quiet V h1 h'"
    using read_bytes_inp [OF law, of 0 "unat len" uok b h1] n by auto
  have "ev_inp V h1 (0x38 + 8 * k) = ev_flash V h (unat a + k)" if "k < unat len" for k
    using that t(3) n g(2,5,6) by (simp add: quiet_def)
  then have "map (\<lambda>k. if uok (b + k) then Some (ev_inp V h1 (0x38 + 8 * k)) else None) [0..<0 + unat len] =
      map (\<lambda>k. if uok (b + k) then Some (ev_flash V h (unat a + k)) else None) [0..<unat len]" by simp
  then show ?thesis using g(1,2,6) rd t(1,2) by (simp add: ccat_read_flash_block_def quiet_def)
qed

lemma read_loop_returns:
  assumes law: "epcs_law hw V io" and "unat off + n \<le> 0xE0000" and "ev_work V h = 0"
  shows "\<exists>h' off'. read_flash_loop hw uok io b n off h =
      Some (map (\<lambda>k. if uok (b + k) then Some (ev_flash V h (unat off + k)) else None) [0..<n], off', h') \<and>
    unat off' = unat off + n \<and> ev_flash V h' = ev_flash V h \<and> ev_work V h' = 0"
  using assms(2,3)
proof (induction n arbitrary: b off h rule: less_induct)
  case (less n)
  have u: "unat (ucast off :: u32) = unat off"
    using less.prems by (simp add: unsigned_ucast_eq take_bit_nat_eq_self_iff)
  then have a: "unat (ucast off :: u32) < 2 ^ 24" using less.prems by simp
  show ?case
  proof (cases "CCAT_DATA_BLOCK_SIZE < n")
    case True
    have n: "247 < n" using True by (simp add: update_consts)
    have l: "unat (of_nat CCAT_DATA_BLOCK_SIZE :: u16) = 247" by (simp add: update_consts)
    obtain h1 where blk: "ccat_read_flash_block hw uok io (ucast off) (of_nat CCAT_DATA_BLOCK_SIZE) b h =
        Some (247, map (\<lambda>k. if uok (b + k) then Some (ev_flash V h (unat off + k)) else None) [0..<247], h1)"
      "ev_flash V h1 = ev_flash V h" "ev_work V h1 = 0"
      using read_block_returns [OF law a, of "of_nat CCAT_DATA_BLOCK_SIZE" h uok b] l u less.prems(2) by (auto simp: update_consts)
    have off1: "unat (off + 247) = unat off + 247" using less.prems n by (simp add: unat_word_ariths)
    obtain h' off' where rest: "read_flash_loop hw uok io (b + 247) (n - 247) (off + 247) h1 =
        Some (map (\<lambda>k. if uok (b + 247 + k) then Some (ev_flash V h1 (unat (off + 247) + k)) else None) [0..<n - 247], off', h')"
      "unat off' = unat (off + 247) + (n - 247)" "ev_flash V h' = ev_flash V h1" "ev_work V h' = 0"
      using less.IH [of "n - 247" "off + 247" h1 "b + 247"] n off1 blk(3) less.prems by auto
    have split: "[0..<n] = [0..<247] @ map (\<lambda>k. 247 + k) [0..<n - 247]"
      using n upt_add_eq_append [of 0 247 "n - 247"] by (simp add: map_add_upt add.commute)
    show ?thesis
      using blk rest n off1 True unfolding split
      by (subst read_flash_loop.simps) (simp add: CCAT_DATA_BLOCK_SIZE_def CCAT_DATA_IN_N_def CCAT_DATA_IN_4_def comp_def add.assoc)
  next
    case False
    have n: "n \<le> 247" using False by (simp add: update_consts)
    have l: "unat (of_nat n :: u16) = n" using n by (intro unat_of_nat_small) simp
    obtain h1 where blk: "ccat_read_flash_block hw uok io (ucast off) (of_nat n) b h =
        Some (n, map (\<lambda>k. if uok (b + k) then Some (ev_flash V h (unat off + k)) else None) [0..<n], h1)"
      "ev_flash V h1 = ev_flash V h" "ev_work V h1 = 0"
      using read_block_returns [OF law a, of "of_nat n" h uok b] l u n less.prems(2) by (auto simp: update_consts)
    have "unat (off + of_nat n) = unat off + n"
      using less.prems unat_of_nat_small [where 'a = 64, of n] by (simp add: unat_word_ariths)
    then show ?thesis using blk False by (subst read_flash_loop.simps) simp
  qed
qed

section \<open>Writing blocks\<close>

lemma write_bytes_win:
  assumes law: "epcs_law hw V io" and "i + length vs \<le> 249"
  shows "quiet V h (write_bytes hw io i vs h) \<and>
    (\<forall>k < length vs. ev_win V (write_bytes hw io i vs h) (0x30 + 8 * (i + k)) = vs ! k) \<and>
    (\<forall>r < 0x30 + 8 * i. ev_win V (write_bytes hw io i vs h) r = ev_win V h r)"
  using assms(2)
proof (induction vs arbitrary: i h)
  case (Cons v vs)
  let ?h1 = "iowrite8 hw v (io + CCAT_DATA_OUT_4 + 8 * i) h"
  have h1: "ev_win V ?h1 = (ev_win V h)(0x30 + 8 * i := v)" "quiet V h ?h1"
    using epcs_write [OF law, where r = "0x30 + 8 * i" and v = v and h = h] Cons.prems by (simp_all add: CCAT_DATA_OUT_4_def add.assoc)
  have ih: "quiet V ?h1 (write_bytes hw io (Suc i) vs ?h1)"
    "\<forall>k < length vs. ev_win V (write_bytes hw io (Suc i) vs ?h1) (0x30 + 8 * (Suc i + k)) = vs ! k"
    "\<forall>r < 0x30 + 8 * Suc i. ev_win V (write_bytes hw io (Suc i) vs ?h1) r = ev_win V ?h1 r"
    using Cons.IH [of "Suc i" ?h1] Cons.prems by simp_all
  have "ev_win V (write_bytes hw io (Suc i) vs ?h1) (0x30 + 8 * (i + k)) = (v # vs) ! k" if "k < Suc (length vs)" for k
    using ih(2,3) h1(1) that by (cases k) simp_all
  then show ?case using ih(1,3) h1 quiet_trans by auto
qed simp

text \<open>The flash after programming \<open>bs\<close> at \<open>a\<close>.\<close>

definition programmed :: "(nat \<Rightarrow> u8) \<Rightarrow> nat \<Rightarrow> u8 list \<Rightarrow> nat \<Rightarrow> u8" where
  "programmed f a bs x = (if a \<le> x \<and> x < a + length bs then f x AND bs ! (x - a) else f x)"

lemma programmed_append: "programmed (programmed f a bs) (a + length bs) cs = programmed f a (bs @ cs)"
  by (rule ext) (auto simp: programmed_def nth_append)

lemma write_block_returns:
  assumes law: "epcs_law hw V io" and len: "unat len \<le> CCAT_WRITE_BLOCK_SIZE" "unat len \<le> length buf"
    and a: "unat a < 2 ^ 24" "unat a mod 256 + unat len \<le> 256" and idle: "ev_work V h = 0"
  shows "\<exists>h'. ccat_write_flash_block hw io a len buf h = Some h' \<and>
    ev_flash V h' = programmed (ev_flash V h) (unat a) (take (unat len) buf) \<and> ev_work V h' = 0"
proof -
  let ?c = "snd CCAT_WRITE_FLASH + 8 * len" and ?bs = "take (unat len) buf"
  have n: "unat len \<le> 128" using len by (simp add: update_consts)
  have clk: "unat ?c = 32 + 8 * unat len" using n by (simp add: CCAT_WRITE_FLASH_def unat_word_ariths)
  obtain h1 where h1: "ccat_update_cmd hw io CCAT_WRITE_ENABLE h = Some h1" "ev_wel V h1" "ev_flash V h1 = ev_flash V h"
    "ev_work V h1 = 0" using write_enable_returns [OF law idle] by blast
  let ?h2 = "write_bytes hw io 0 ?bs h1"
  have h2: "quiet V h1 ?h2" "\<And>k. k < unat len \<Longrightarrow> ev_win V ?h2 (0x30 + 8 * k) = buf ! k"
    using write_bytes_win [OF law, of 0 ?bs h1] n len(2) by simp_all
  obtain g h3 where g: "ccat_update_cmd_addr hw io (fst CCAT_WRITE_FLASH) ?c a ?h2 = Some h3" "quiet V ?h2 g"
    "ev_win V g 0x10 = fst CCAT_WRITE_FLASH" "cmd_clocks (ev_win V g) = unat ?c" "cmd_addr (ev_win V g) = unat a"
    "\<forall>r \<ge> 0x30. ev_win V g r = ev_win V ?h2 r" "quiet V (iowrite8 hw 0xff (io + 0x7f8) g) h3"
    by (rule update_cmd_addr_trigger [OF law a(1)])
  let ?t = "iowrite8 hw 0xff (io + 0x7f8) g"
  have cmd: "ev_win V g 0x10 = 0x40 \<and> ev_wel V g \<and> ev_work V g = 0 \<and> cmd_clocks (ev_win V g) = 32 + 8 * unat len \<and>
      cmd_addr (ev_win V g) mod 256 + unat len \<le> 256"
    using g(2-5) clk h1 h2(1) a(2) by (simp add: CCAT_WRITE_FLASH_def quiet_def)
  have t: "ev_flash V ?t = (\<lambda>x. if cmd_addr (ev_win V g) \<le> x \<and> x < cmd_addr (ev_win V g) + unat len
      then ev_flash V g x AND ev_win V g (0x30 + 8 * (x - cmd_addr (ev_win V g))) else ev_flash V g x)"
    using law cmd unfolding epcs_law_def epcs_cmds_def Let_def by blast
  have fl: "ev_flash V g = ev_flash V h" using g(2) h1(3) h2(1) by (simp add: quiet_def)
  have prog: "ev_flash V ?t = programmed (ev_flash V h) (unat a) ?bs"
    unfolding t g(5) fl by (rule ext) (use len(2) g(6) h2(2) in \<open>auto simp: programmed_def\<close>)
  obtain h' where "ccat_wait_status_cleared hw io h3 = Some h'" "ev_flash V h' = ev_flash V h3" "ev_work V h' = 0"
    using wait_status_returns [OF law] by blast
  then show ?thesis
    using h1(1) g(1,7) prog by (simp add: ccat_write_flash_block_def quiet_def)
qed

lemma half_page: "m mod 128 = 0 \<Longrightarrow> n \<le> 128 \<Longrightarrow> m mod 256 + n \<le> (256 :: nat)"
proof -
  assume "m mod 128 = 0" and n: "n \<le> 128"
  moreover have "m mod 256 = 128 * (m div 128 mod 2) + m mod 128" using mod_mult2_eq [of m 128 2] by simp
  moreover have "m div 128 mod 2 \<le> 1" by simp
  ultimately show ?thesis by linarith
qed

text \<open>Blocks of 128 bytes from an aligned offset never cross a page of 256 bytes.\<close>

lemma write_loop_returns:
  assumes law: "epcs_law hw V io" and "unat off + len \<le> 0xE0000" and "len \<le> length buf" and "unat off mod 128 = 0"
    and "ev_work V h = 0"
  shows "\<exists>h'. write_flash_loop hw io off buf len h = Some h' \<and>
    ev_flash V h' = programmed (ev_flash V h) (unat off) (take len buf) \<and> ev_work V h' = 0"
  using assms(2-)
proof (induction len arbitrary: off buf h rule: less_induct)
  case (less len)
  have a: "unat off < 2 ^ 24" using less.prems(1) by simp
  have page: "unat off mod 256 + n \<le> 256" if "n \<le> 128" for n using half_page [OF less.prems(3) that] .
  show ?case
  proof (cases "CCAT_WRITE_BLOCK_SIZE < len")
    case True
    have n: "128 < len" using True by (simp add: update_consts)
    have l: "unat (of_nat CCAT_WRITE_BLOCK_SIZE :: u16) = 128" by (simp add: update_consts)
    obtain h1 where blk: "ccat_write_flash_block hw io off (of_nat CCAT_WRITE_BLOCK_SIZE) buf h = Some h1"
      "ev_flash V h1 = programmed (ev_flash V h) (unat off) (take 128 buf)" "ev_work V h1 = 0"
      using write_block_returns [OF law _ _ a _ less.prems(4), of "of_nat CCAT_WRITE_BLOCK_SIZE" buf] page [of 128] l n less.prems(2)
      by (auto simp: CCAT_WRITE_BLOCK_SIZE_def)
    have off1: "unat (off + 128) = unat off + 128" using less.prems(1) n by (simp add: unat_word_ariths)
    obtain h' where rest: "write_flash_loop hw io (off + 128) (drop 128 buf) (len - 128) h1 = Some h'"
      "ev_flash V h' = programmed (ev_flash V h1) (unat (off + 128)) (take (len - 128) (drop 128 buf))" "ev_work V h' = 0"
      using less.IH [of "len - 128" "off + 128" "drop 128 buf" h1] n off1 blk(3) less.prems diff_le_mono [OF less.prems(2), of 128]
      by auto
    have "take 128 buf @ take (len - 128) (drop 128 buf) = take len buf" using n by (simp flip: take_add)
    moreover have "length (take 128 buf) = 128" using n less.prems(2) by simp
    ultimately have "ev_flash V h' = programmed (ev_flash V h) (unat off) (take len buf)"
      using rest(2) programmed_append [of "ev_flash V h" "unat off" "take 128 buf"] unfolding blk(2) off1 by simp
    then show ?thesis
      using blk rest True by (subst write_flash_loop.simps) (simp add: CCAT_WRITE_BLOCK_SIZE_def)
  next
    case False
    have n: "len \<le> 128" using False by (simp add: update_consts)
    have l: "unat (of_nat len :: u16) = len" using n by (intro unat_of_nat_small) simp
    show ?thesis
      using write_block_returns [OF law _ _ a _ less.prems(4), of "of_nat len" buf] page [OF n] l n less.prems(2) False
      by (subst write_flash_loop.simps) (simp add: CCAT_WRITE_BLOCK_SIZE_def)
  qed
qed

text \<open>Closing a file into which bytes were written.\<close>

lemma release_returns:
  assumes law: "epcs_law hw V (cd_ioaddr d)" and size: "0 < buf_size buf" "unat (buf_size buf) \<le> 0xE0000"
    and data: "unat (buf_size buf) \<le> length (buf_data buf)" and idle: "ev_work V h = 0"
  shows "\<exists>h'. ccat_update_release hw d buf h = Some (fst (ccat_cdev_release d), snd (ccat_cdev_release d), h') \<and>
    ev_flash V h' = programmed (\<lambda>_. 0xff) 0 (take (unat (buf_size buf)) (buf_data buf)) \<and> ev_work V h' = 0"
proof -
  obtain h1 where h1: "ccat_update_cmd hw (cd_ioaddr d) CCAT_WRITE_ENABLE h = Some h1" "ev_wel V h1" "ev_work V h1 = 0"
    using write_enable_returns [OF law idle] by blast
  obtain h2 where h2: "ccat_update_cmd hw (cd_ioaddr d) CCAT_BULK_ERASE h1 = Some h2" "ev_flash V h2 = (\<lambda>_. 0xff)"
    using bulk_erase_returns [OF law h1(2,3)] by blast
  obtain h3 where h3: "ccat_wait_status_cleared hw (cd_ioaddr d) h2 = Some h3" "ev_flash V h3 = ev_flash V h2" "ev_work V h3 = 0"
    using wait_status_returns [OF law] by blast
  obtain h' where "ccat_write_flash hw d buf h3 = Some h'"
    "ev_flash V h' = programmed (\<lambda>_. 0xff) 0 (take (unat (buf_size buf)) (buf_data buf))" "ev_work V h' = 0"
    using write_loop_returns [OF law _ data _ h3(3), of 0] size(2) h2(2) h3(2) by (auto simp: ccat_write_flash_def)
  then show ?thesis using h1 h2 h3 size(1) by (simp add: ccat_update_release_def split_beta)
qed

lemma programmed_erased: "x < length bs \<Longrightarrow> programmed (\<lambda>_. 0xff) 0 bs x = bs ! x"
  and programmed_rest: "length bs \<le> x \<Longrightarrow> programmed (\<lambda>_. 0xff) 0 bs x = 0xff"
proof -
  have "(0xff :: u8) = mask 8" by (simp add: mask_eq_exp_minus_1)
  then have "(0xff :: u8) AND v = v" for v
    by (simp only: and.commute [of "mask 8"] flip: take_bit_eq_mask) (simp add: take_bit_word_eq_self)
  then show "x < length bs \<Longrightarrow> programmed (\<lambda>_. 0xff) 0 bs x = bs ! x"
    "length bs \<le> x \<Longrightarrow> programmed (\<lambda>_. 0xff) 0 bs x = 0xff" by (simp_all add: programmed_def)
qed

section \<open>The flash as a file\<close>

definition flash_bytes :: "'h epcs_view \<Rightarrow> 'h \<Rightarrow> u8 list" where
  "flash_bytes V h = mem_read (ev_flash V h) 0 (unat CCAT_FLASH_SIZE)"

definition update_inv :: "'h mmio \<Rightarrow> 'h epcs_view \<Rightarrow> ccat_cdev \<Rightarrow> 'h \<Rightarrow> bool" where
  "update_inv hw V d h \<longleftrightarrow> epcs_law hw V (cd_ioaddr d) \<and> cd_iosize d = CCAT_FLASH_SIZE \<and> ev_work V h = 0"

text \<open>A \<open>read\<close> whose user memory can be written.\<close>

definition update_file_read :: "'h mmio \<Rightarrow> ccat_cdev \<Rightarrow> 'h file_read" where
  "update_file_read hw d len off h =
     map_option (\<lambda>(r, vs, off, h). (r, map the vs, off, h)) (ccat_update_read hw (\<lambda>_. True) d len off h)"

lemma unat_flash_size: "unat CCAT_FLASH_SIZE = 0xE0000"
  by (simp add: CCAT_FLASH_SIZE_def)

lemma length_flash_bytes [simp]: "length (flash_bytes V h) = 0xE0000"
  by (simp add: flash_bytes_def unat_flash_size)

lemma read_flash_returns:
  assumes law: "epcs_law hw V io" and fit: "unat off + unat len \<le> 0xE0000" and idle: "ev_work V h = 0"
  shows "\<exists>h' off'. ccat_read_flash hw uok io len off h =
      Some (int (unat len), map (\<lambda>k. if uok k then Some (ev_flash V h (unat off + k)) else None) [0..<unat len], off', h') \<and>
    unat off' = unat off + unat len \<and> ev_flash V h' = ev_flash V h \<and> ev_work V h' = 0"
proof -
  obtain h' off' where run: "read_flash_loop hw uok io 0 (unat len) off h =
      Some (map (\<lambda>k. if uok (0 + k) then Some (ev_flash V h (unat off + k)) else None) [0..<unat len], off', h')"
    and off': "unat off' = unat off + unat len" and h': "ev_flash V h' = ev_flash V h" "ev_work V h' = 0"
    using read_loop_returns [OF law fit idle, of uok 0] by blast
  have "unat (off' - off) = unat len" using off' by (subst unat_sub) (simp_all add: word_le_nat_alt)
  then have u: "unat (ucast (off' - off) :: u32) = unat len"
    using fit by (simp add: unsigned_ucast_eq take_bit_nat_eq_self_iff)
  then have "sint (ucast (off' - off) :: u32) = int (unat len)" using fit by (subst sint_small) simp_all
  then show ?thesis using run off' h' by (simp add: ccat_read_flash_def)
qed

lemma update_read_part:
  fixes len :: u64
  assumes inv: "update_inv hw V d h" and le: "unat off \<le> 0xE0000"
  defines "n \<equiv> min (unat len) (0xE0000 - unat off)"
  shows "\<exists>h' off'. ccat_update_read hw uok d len off h =
      Some (int n, map (\<lambda>k. if uok k then Some (ev_flash V h (unat off + k)) else None) [0..<n], off', h') \<and>
    unat off' = unat off + n \<and> update_inv hw V d h' \<and> ev_flash V h' = ev_flash V h"
proof (cases "cd_iosize d \<le> off")
  case True
  then have "n = 0" using inv by (simp add: n_def update_inv_def word_le_nat_alt unat_flash_size)
  then show ?thesis using True inv by (simp add: ccat_update_read_def)
next
  case False
  have law: "epcs_law hw V (cd_ioaddr d)" and sz: "unat (cd_iosize d) = 0xE0000" and idle: "ev_work V h = 0"
    using inv by (simp_all add: update_inv_def unat_flash_size)
  have "unat (cd_iosize d - off) = unat (cd_iosize d) - unat off" using False by (intro unat_sub) simp
  then have m: "unat (min len (cd_iosize d - off)) = n" by (simp add: n_def min_def word_le_nat_alt sz)
  then have u: "unat (ucast (min len (cd_iosize d - off)) :: u32) = n"
    by (simp add: n_def unsigned_ucast_eq take_bit_nat_eq_self_iff)
  have "unat off + n \<le> 0xE0000" using le by (simp add: n_def)
  then have "\<exists>h' off'. ccat_read_flash hw uok (cd_ioaddr d) (ucast (min len (cd_iosize d - off))) off h =
      Some (int n, map (\<lambda>k. if uok k then Some (ev_flash V h (unat off + k)) else None) [0..<n], off', h') \<and>
    unat off' = unat off + n \<and> ev_flash V h' = ev_flash V h \<and> ev_work V h' = 0"
    using read_flash_returns [OF law _ idle, of off "ucast (min len (cd_iosize d - off))" uok] unfolding u by simp
  then show ?thesis using False inv unfolding ccat_update_read_def update_inv_def by auto
qed

interpretation update_file: readable_file "update_file_read hw d" "flash_bytes V" "update_inv hw V d" for hw d V
proof
  fix s :: 'a and off len :: u64
  show "length (flash_bytes V s) < 2 ^ 63" by simp
  assume inv: "update_inv hw V d s" and le: "unat off \<le> length (flash_bytes V s)"
  let ?bs = "take (unat len) (drop (unat off) (flash_bytes V s))"
  define n where "n = min (unat len) (0xE0000 - unat off)"
  have len: "length ?bs = n" by (simp add: n_def min.commute)
  have bs: "map the (map (\<lambda>k. if True then Some (ev_flash V s (unat off + k)) else None) [0..<n]) = ?bs"
  proof -
    have "?bs = mem_read (ev_flash V s) (unat off) n"
      by (simp add: flash_bytes_def drop_mem_read take_mem_read n_def unat_flash_size)
    then show ?thesis unfolding mem_read_def by (simp only:) (rule nth_equalityI; simp)
  qed
  show "\<exists>off' s'. update_file_read hw d len off s = Some (int (length ?bs), ?bs, off', s') \<and>
      unat off' = unat off + length ?bs \<and> update_inv hw V d s' \<and> flash_bytes V s' = flash_bytes V s"
  proof -
    have le: "unat off \<le> 0xE0000" using le by simp
    obtain h' off' where "ccat_update_read hw (\<lambda>_. True) d len off s =
        Some (int n, map (\<lambda>k. if True then Some (ev_flash V s (unat off + k)) else None) [0..<n], off', h')"
      "unat off' = unat off + n" "update_inv hw V d h'" "ev_flash V h' = ev_flash V s"
      using update_read_part [OF inv le, where len = len and uok = "\<lambda>_. True"] unfolding n_def [symmetric] by blast
    then show ?thesis
      unfolding len update_file_read_def by (intro exI [of _ off'] exI [of _ h']) (simp add: bs [simplified] flash_bytes_def)
  qed
qed

section \<open>Filling the buffer\<close>

text \<open>Successive writes of a program to the file, and the results they return.\<close>

fun write_chunks ::
  "(nat \<Rightarrow> nat) \<Rightarrow> ccat_cdev \<Rightarrow> u8 list list \<Rightarrow> u64 \<Rightarrow> cdev_buffer \<Rightarrow> int list \<times> u64 \<times> cdev_buffer" where
  "write_chunks nc d [] off buf = ([], off, buf)"
| "write_chunks nc d (c # cs) off buf =
     (let (r, off, buf) = ccat_update_write nc d c (of_nat (length c)) off buf;
          (rs, off, buf) = write_chunks nc d cs off buf
      in (r # rs, off, buf))"

lemma update_write_stores:
  assumes "unat off + length c \<le> unat (cd_iosize d)" and "unat (cd_iosize d) < 2 ^ 63" and "unat off \<le> length (buf_data buf)"
  shows "\<exists>off' buf'. ccat_update_write (\<lambda>_. 0) d c (of_nat (length c)) off buf = (int (length c), off', buf') \<and>
    unat off' = unat off + length c \<and> buf_size buf' = off' \<and>
    buf_data buf' = take (unat off) (buf_data buf) @ c @ drop (unat off + length c) (buf_data buf)"
proof -
  let ?n = "of_nat (length c) :: u64"
  have n: "unat ?n = length c" using assms(1,2) by (intro unat_of_nat_small) simp
  have sum: "unat (off + ?n) = unat off + length c" using assms(1,2) n by (simp add: unat_word_ariths)
  have "\<not> cd_iosize d < off + ?n" using sum assms(1) by (simp add: word_less_nat_alt)
  moreover have "sint ?n = int (length c)" using sint_small [of ?n] n assms(1,2) by simp
  ultimately show ?thesis using sum n by (simp add: ccat_update_write_def Let_def)
qed

lemma write_chunks_stores:
  assumes "unat off + length (concat cs) \<le> unat (cd_iosize d)" and "unat (cd_iosize d) < 2 ^ 63"
    and "length (buf_data buf) = unat (cd_iosize d)" and "cs \<noteq> []"
  shows "\<exists>off' buf'. write_chunks (\<lambda>_. 0) d cs off buf = (map (int \<circ> length) cs, off', buf') \<and>
    unat off' = unat off + length (concat cs) \<and> buf_size buf' = off' \<and> length (buf_data buf') = unat (cd_iosize d) \<and>
    take (unat off') (buf_data buf') = take (unat off) (buf_data buf) @ concat cs"
  using assms(1,3,4)
proof (induction cs arbitrary: off buf)
  case (Cons c cs)
  obtain off1 buf1 where w: "ccat_update_write (\<lambda>_. 0) d c (of_nat (length c)) off buf = (int (length c), off1, buf1)"
    "unat off1 = unat off + length c" "buf_size buf1 = off1"
    "buf_data buf1 = take (unat off) (buf_data buf) @ c @ drop (unat off + length c) (buf_data buf)"
    using update_write_stores [of off c d buf] Cons.prems assms(2) by auto
  have len: "length (buf_data buf1) = unat (cd_iosize d)" using w(4) Cons.prems(1,2) by simp
  have pre: "take (unat off1) (buf_data buf1) = take (unat off) (buf_data buf) @ c" using w(2,4) Cons.prems(1,2) by simp
  show ?case
  proof (cases "cs = []")
    case True
    then show ?thesis using w(1-3) len pre by simp
  next
    case False
    then show ?thesis using Cons.IH [of off1 buf1] Cons.prems(1) w(1,2) len pre by auto
  qed
qed simp

section \<open>A reference device\<close>

text \<open>
  A flash with one page of 256 bytes per write, which stays busy for two polls after each command and
  works for three status reads after an erase or write: it satisfies the laws, and closed examples
  run on it.
\<close>

record epcs =
  e_win :: "nat \<Rightarrow> u8"
  e_flash :: "nat \<Rightarrow> u8"
  e_wel :: bool
  e_inp :: "nat \<Rightarrow> u8"
  e_busy :: nat
  e_work :: nat

definition epcs_program :: "epcs \<Rightarrow> nat \<Rightarrow> nat \<Rightarrow> u8" where
  "epcs_program s n x =
     (let a = cmd_addr (e_win s)
      in if a \<le> x \<and> x < a + n then e_flash s x AND e_win s (0x30 + 8 * (x - a)) else e_flash s x)"

definition epcs_trigger :: "epcs \<Rightarrow> epcs" where
  "epcs_trigger s =
     (let c = e_win s 0x10; n = (cmd_clocks (e_win s) - 32) div 8; s = s\<lparr>e_busy := 2\<rparr>
      in if c = 0xA0 then
           (if e_work s = 0 then s\<lparr>e_inp := (e_inp s)(0x20 := 0)\<rparr>
            else s\<lparr>e_inp := (e_inp s)(0x20 := 0x80), e_work := e_work s - 1\<rparr>)
         else if e_work s \<noteq> 0 then s
         else if c = 0x60 then s\<lparr>e_wel := True\<rparr>
         else if c = 0xC0 then s\<lparr>e_inp := (\<lambda>r. e_flash s (cmd_addr (e_win s) + (r - 0x38) div 8))\<rparr>
         else if \<not> e_wel s then s
         else if c = 0xE3 then s\<lparr>e_flash := (\<lambda>_. 0xff), e_wel := False, e_work := 3\<rparr>
         else if c = 0x40 then s\<lparr>e_flash := epcs_program s n, e_wel := False, e_work := 3\<rparr>
         else s)"

definition epcs_bus :: "addr \<Rightarrow> epcs mmio" where
  "epcs_bus io = \<lparr>ioread8 = (\<lambda>a s. (if a = io + 1 then (if e_busy s = 0 then 0 else 1) else e_inp s (a - io), s)),
     ioread16 = (\<lambda>a s. (0, s)), ioread32 = (\<lambda>a s. (0, s)), memcpy_fromio = (\<lambda>a n s. (replicate n 0, s)),
     iowrite8 = (\<lambda>v a s. if a = io + 0x7f8 then epcs_trigger s else s\<lparr>e_win := (e_win s)(a - io := v)\<rparr>),
     iowrite16 = (\<lambda>v a s. s), iowrite32 = (\<lambda>v a s. s), memcpy_toio = (\<lambda>a bs s. s),
     schedule = (\<lambda>s. s\<lparr>e_busy := e_busy s - 1\<rparr>)\<rparr>"

definition epcs_views :: "epcs epcs_view" where
  "epcs_views = \<lparr>ev_win = e_win, ev_flash = e_flash, ev_wel = e_wel, ev_inp = e_inp, ev_busy = e_busy, ev_work = e_work\<rparr>"

lemma epcs_bus_regs: "epcs_regs (epcs_bus io) epcs_views io"
  by (auto simp: epcs_regs_def epcs_bus_def epcs_views_def quiet_def)

lemma epcs_bus_cmds: "epcs_cmds (epcs_bus io) epcs_views io"
  unfolding epcs_cmds_def Let_def
proof (intro allI conjI impI)
  fix h :: epcs and n :: nat
  let ?V = epcs_views and ?h' = "iowrite8 (epcs_bus io) 0xff (io + 0x7f8) h"
  have h': "?h' = epcs_trigger h" by (simp add: epcs_bus_def)
  note sim = h' epcs_views_def epcs_trigger_def Let_def epcs_program_def
  show "ev_wel ?V ?h'" "ev_flash ?V ?h' = ev_flash ?V h" "ev_work ?V ?h' = 0"
    if "ev_win ?V h 0x10 = 0x60 \<and> ev_work ?V h = 0" using that by (simp_all add: sim)
  show "ev_flash ?V ?h' = (\<lambda>_. 0xff)" if "ev_win ?V h 0x10 = 0xE3 \<and> ev_wel ?V h \<and> ev_work ?V h = 0"
    using that by (simp add: sim)
  show "ev_flash ?V ?h' = (\<lambda>x. if cmd_addr (ev_win ?V h) \<le> x \<and> x < cmd_addr (ev_win ?V h) + n
          then ev_flash ?V h x AND ev_win ?V h (0x30 + 8 * (x - cmd_addr (ev_win ?V h))) else ev_flash ?V h x)"
    if "ev_win ?V h 0x10 = 0x40 \<and> ev_wel ?V h \<and> ev_work ?V h = 0 \<and> cmd_clocks (ev_win ?V h) = 32 + 8 * n \<and>
        cmd_addr (ev_win ?V h) mod 256 + n \<le> 256"
    using that by (intro ext) (simp add: sim)
  show "ev_flash ?V ?h' = ev_flash ?V h" "ev_work ?V ?h' = 0"
    if "ev_win ?V h 0x10 = 0xC0 \<and> ev_work ?V h = 0 \<and> cmd_clocks (ev_win ?V h) = 32 + 8 * n" using that by (simp_all add: sim)
  show "ev_inp ?V ?h' (0x38 + 8 * i) = ev_flash ?V h (cmd_addr (ev_win ?V h) + i)"
    if "ev_win ?V h 0x10 = 0xC0 \<and> ev_work ?V h = 0 \<and> cmd_clocks (ev_win ?V h) = 32 + 8 * n" for i
    using that by (simp add: sim)
  show "ev_flash ?V ?h' = ev_flash ?V h"
    "if bit (ev_inp ?V ?h' 0x20) 7 then ev_work ?V ?h' < ev_work ?V h else ev_work ?V ?h' = 0"
    if "ev_win ?V h 0x10 = 0xA0" using that by (simp_all add: sim)
qed

lemma epcs_bus_law: "epcs_law (epcs_bus io) epcs_views io"
  by (simp add: epcs_law_def epcs_bus_regs epcs_bus_cmds)

lemma mem_read_programmed:
  assumes "length bs \<le> n"
  shows "mem_read (programmed (\<lambda>_. 0xff) 0 bs) 0 n = bs @ replicate (n - length bs) 0xff"
proof (rule nth_equalityI)
  fix i assume "i < length (mem_read (programmed (\<lambda>_. 0xff) 0 bs) 0 n)"
  then show "mem_read (programmed (\<lambda>_. 0xff) 0 bs) 0 n ! i = (bs @ replicate (n - length bs) 0xff) ! i"
    by (simp add: mem_read_def nth_append programmed_erased programmed_rest)
qed (use assms in simp)

section \<open>The polls of a wait\<close>

definition busy_poll :: "'h mmio \<Rightarrow> addr \<Rightarrow> 'h \<Rightarrow> 'h" where
  "busy_poll hw io h = schedule hw (snd (ioread8 hw (io + 1) h))"

lemma polls_wait:
  assumes "ioread8 hw (io + 1) ((busy_poll hw io ^^ n) h) = (0, h')"
    and "\<forall>k < n. fst (ioread8 hw (io + 1) ((busy_poll hw io ^^ k) h)) \<noteq> 0"
  shows "wait_until_busy_reset hw io h = Some h'"
  using assms
proof (induction n arbitrary: h)
  case 0
  then show ?case by (subst wait_until_busy_reset.simps) simp
next
  case (Suc n)
  have "\<forall>k < n. fst (ioread8 hw (io + 1) ((busy_poll hw io ^^ k) (busy_poll hw io h))) \<noteq> 0"
    using Suc.prems(2) by (metis Suc_mono funpow_Suc_right o_apply)
  moreover have "ioread8 hw (io + 1) ((busy_poll hw io ^^ n) (busy_poll hw io h)) = (0, h')"
    using Suc.prems(1) by (simp add: funpow_swap1)
  ultimately have "wait_until_busy_reset hw io (busy_poll hw io h) = Some h'" by (intro Suc.IH)
  moreover have "fst (ioread8 hw (io + 1) h) \<noteq> 0" using Suc.prems(2) by force
  ultimately show ?case by (subst wait_until_busy_reset.simps) (simp add: busy_poll_def split_beta)
qed

lemma wait_polls:
  assumes "wait_until_busy_reset hw io h = Some h'"
  shows "\<exists>n. ioread8 hw (io + 1) ((busy_poll hw io ^^ n) h) = (0, h') \<and>
    (\<forall>k < n. fst (ioread8 hw (io + 1) ((busy_poll hw io ^^ k) h)) \<noteq> 0)"
proof (rule wait_until_busy_reset.raw_induct [OF _ assms, where P = "\<lambda>hw io h h'. \<exists>n. ioread8 hw (io + 1) ((busy_poll hw io ^^ n) h) = (0, h') \<and>
    (\<forall>k < n. fst (ioread8 hw (io + 1) ((busy_poll hw io ^^ k) h)) \<noteq> 0)"], goal_cases)
  case (1 wait hw io h h')
  obtain v h1 where rd: "ioread8 hw (io + 1) h = (v, h1)" by fastforce
  show ?case
  proof (cases "v = 0")
    case True
    then show ?thesis using 1(2) rd by (intro exI [of _ 0]) simp
  next
    case False
    then obtain n where n: "ioread8 hw (io + 1) ((busy_poll hw io ^^ n) (busy_poll hw io h)) = (0, h')"
      "\<forall>k < n. fst (ioread8 hw (io + 1) ((busy_poll hw io ^^ k) (busy_poll hw io h))) \<noteq> 0"
      using 1(1) [of hw io "schedule hw h1" h'] 1(2) rd by (auto simp: busy_poll_def)
    have "fst (ioread8 hw (io + 1) ((busy_poll hw io ^^ k) h)) \<noteq> 0" if "k < Suc n" for k
      using that n(2) False rd by (cases k) (simp_all add: funpow_swap1)
    then show ?thesis using n(1) by (intro exI [of _ "Suc n"]) (simp add: funpow_swap1)
  qed
qed

section \<open>Properties\<close>

text \<open>Writing chunks, closing, reading blocks.\<close>

lemma flash_roundtrip:
  fixes cs :: "u8 list list"
  assumes "update_inv hw V d h" and "length (buf_data buf) = unat CCAT_FLASH_SIZE"
    and "0 < length (concat cs)" and "length (concat cs) \<le> unat CCAT_FLASH_SIZE"
    and "unat CCAT_FLASH_SIZE \<le> sum_list (map unat ns)"
  shows "\<exists>off buf' h'. write_chunks (\<lambda>_. 0) d cs 0 buf = (map (int \<circ> length) cs, off, buf') \<and>
    ccat_update_release hw d buf' h = Some (0, d\<lparr>cd_in_use := cd_in_use d + 1\<rparr>, h') \<and>
    (\<exists>off'' h''. read_blocks (update_file_read hw d) ns 0 h' =
       Some (concat cs @ replicate (unat CCAT_FLASH_SIZE - length (concat cs)) 0xff, off'', h''))"
proof -
  have law: "epcs_law hw V (cd_ioaddr d)" and sz: "cd_iosize d = CCAT_FLASH_SIZE" and idle: "ev_work V h = 0"
    using assms(1) by (simp_all add: update_inv_def)
  have fs: "unat (cd_iosize d) < 2 ^ 63" by (simp add: sz unat_flash_size)
  have ne: "cs \<noteq> []" using assms(3) by auto
  have "unat (0 :: u64) + length (concat cs) \<le> unat (cd_iosize d)" using assms(4) by (simp add: sz)
  from write_chunks_stores [OF this fs _ ne, of buf] obtain off buf' where
    w: "write_chunks (\<lambda>_. 0) d cs 0 buf = (map (int \<circ> length) cs, off, buf')" "unat off = length (concat cs)"
      "buf_size buf' = off" "length (buf_data buf') = unat (cd_iosize d)" "take (unat off) (buf_data buf') = concat cs"
    using assms(2) by (auto simp: sz)
  have "0 < buf_size buf'" using w(2,3) assms(3) by (simp add: word_less_nat_alt)
  moreover have "unat (buf_size buf') \<le> 0xE0000" "unat (buf_size buf') \<le> length (buf_data buf')"
    using w(2-4) assms(4) by (simp_all add: sz unat_flash_size)
  ultimately obtain h' where rel: "ccat_update_release hw d buf' h = Some (fst (ccat_cdev_release d), snd (ccat_cdev_release d), h')"
    and fl: "ev_flash V h' = programmed (\<lambda>_. 0xff) 0 (concat cs)" and idle': "ev_work V h' = 0"
    using release_returns [OF law, of buf' h] idle w(3,5) by auto
  have "flash_bytes V h' = concat cs @ replicate (unat CCAT_FLASH_SIZE - length (concat cs)) 0xff"
    using assms(4) by (simp add: flash_bytes_def fl mem_read_programmed)
  moreover have "update_inv hw V d h'" using law sz idle' by (simp add: update_inv_def)
  moreover have "length (flash_bytes V h') \<le> sum_list (map unat ns)" using assms(5) by (simp add: unat_flash_size)
  ultimately show ?thesis using update_file.blocks_all [of hw V d h' ns] w(1) rel
    by (metis ccat_cdev_release_def fst_conv snd_conv)
qed

text \<open>C13: a program that writes a configuration to the Update file in chunks of any sizes and closes
  it gets every chunk's length back, closing returns and frees the device, and reading the file afterwards in blocks of
  any sizes that together cover the flash yields the configuration followed by 0xff bytes.\<close>

theorem update_flash_roundtrip:
  fixes cs :: "u8 list list"
  assumes "update_inv hw V d h" and "length (buf_data buf) = unat CCAT_FLASH_SIZE"
    and "0 < length (concat cs)" and "length (concat cs) \<le> unat CCAT_FLASH_SIZE"
    and "unat CCAT_FLASH_SIZE \<le> sum_list (map unat ns)"
  shows "\<exists>off buf' h'. write_chunks (\<lambda>_. 0) d cs 0 buf = (map (int \<circ> length) cs, off, buf') \<and>
    ccat_update_release hw d buf' h = Some (0, d\<lparr>cd_in_use := cd_in_use d + 1\<rparr>, h') \<and>
    (\<exists>off'' h''. read_blocks (update_file_read hw d) ns 0 h' =
       Some (concat cs @ replicate (unat CCAT_FLASH_SIZE - length (concat cs)) 0xff, off'', h''))"
  by (rule flash_roundtrip [OF assms])

text \<open>waiting for the busy flag returns exactly if some poll reads it as zero, in the state after
  the first such poll; a device that never resets the flag keeps the caller forever.\<close>

theorem wait_until_busy_reset_iff:
  "wait_until_busy_reset hw io h = Some h' \<longleftrightarrow>
    (\<exists>n. ioread8 hw (io + 1) ((busy_poll hw io ^^ n) h) = (0, h') \<and>
       (\<forall>k < n. fst (ioread8 hw (io + 1) ((busy_poll hw io ^^ k) h)) \<noteq> 0))"
proof
  assume "wait_until_busy_reset hw io h = Some h'"
  then show "\<exists>n. ioread8 hw (io + 1) ((busy_poll hw io ^^ n) h) = (0, h') \<and>
       (\<forall>k < n. fst (ioread8 hw (io + 1) ((busy_poll hw io ^^ k) h)) \<noteq> 0)"
    by (rule wait_polls)
next
  assume "\<exists>n. ioread8 hw (io + 1) ((busy_poll hw io ^^ n) h) = (0, h') \<and>
       (\<forall>k < n. fst (ioread8 hw (io + 1) ((busy_poll hw io ^^ k) h)) \<noteq> 0)"
  then show "wait_until_busy_reset hw io h = Some h'" by (elim exE conjE) (rule polls_wait)
qed

text \<open>C29: \<open>SWAP_BITS\<close>, computed with two multiplications and masks, reverses the bits of a byte.\<close>

theorem swap_bits_reverses: "bit (SWAP_BITS (ucast (b :: u8))) k \<longleftrightarrow> k < 8 \<and> bit b (7 - k)"
proof -
  have "(ucast b :: u32) = of_nat (unat b)" by simp
  then have "SWAP_BITS (ucast b) = bit_reverse b" using swap_bits_byte [OF unat_u8_less] by simp
  then show ?thesis by (simp add: bit_bit_reverse)
qed

text \<open>a read returns the number of bytes asked for, up to the end of the flash, and advances the
  file position by it even if not one of the bytes could be stored in the user's memory.\<close>

theorem update_read_hides_faults:
  assumes "update_inv hw V d h" and "unat off \<le> unat CCAT_FLASH_SIZE"
    and "n = min (unat len) (unat CCAT_FLASH_SIZE - unat off)"
  shows "\<exists>off' h'. ccat_update_read hw (\<lambda>_. False) d len off h = Some (int n, replicate n None, off', h') \<and>
    unat off' = unat off + n"
proof -
  have "unat off \<le> 0xE0000" using assms(2) by (simp add: unat_flash_size)
  moreover have n: "n = min (unat len) (0xE0000 - unat off)" using assms(3) by (simp add: unat_flash_size)
  ultimately obtain h' off' where
    "ccat_update_read hw (\<lambda>_. False) d len off h =
      Some (int n, map (\<lambda>k. if False then Some (ev_flash V h (unat off + k)) else None) [0..<n], off', h')"
    "unat off' = unat off + n"
    using update_read_part [OF assms(1), of off "\<lambda>_. False" len] unfolding n by blast
  then show ?thesis by (simp add: map_replicate_const)
qed

text \<open>a write that would end beyond the flash returns 0 and changes nothing; one whose user memory
  cannot be read completely returns \<open>-EFAULT\<close> and changes neither the position nor the size that
  closing the file would flash.\<close>

theorem update_write_refused:
  assumes "unat off + unat len < 2 ^ 64" and "unat (cd_iosize d) < unat off + unat len \<or> 0 < min (nc (unat len)) (unat len)"
    and "ccat_update_write nc d ubuf len off buf = (r, off', buf')"
  shows "if unat (cd_iosize d) < unat off + unat len then r = 0 \<and> off' = off \<and> buf' = buf
    else r = - EFAULT \<and> off' = off \<and> buf_size buf' = buf_size buf"
proof -
  have "unat (off + len) = unat off + unat len" using assms(1) by (simp add: unat_word_ariths)
  then have "cd_iosize d < off + len \<longleftrightarrow> unat (cd_iosize d) < unat off + unat len" by (simp add: word_less_nat_alt)
  then show ?thesis
    using assms(2,3) by (auto simp: ccat_update_write_def copy_from_user_def Let_def split: prod.splits if_splits)
qed

section \<open>Examples\<close>

definition update0 :: ccat_cdev where
  "update0 = \<lparr>cd_in_use = 0, cd_ioaddr = 0x100, cd_iosize = CCAT_FLASH_SIZE, cd_dev = 1, cd_class = True\<rparr>"

definition epcs0 :: epcs where
  "epcs0 = \<lparr>e_win = (\<lambda>_. 0), e_flash = (\<lambda>a. of_nat a), e_wel = False, e_inp = (\<lambda>_. 0), e_busy = 0, e_work = 0\<rparr>"

definition update_buf0 :: cdev_buffer where
  "update_buf0 = \<lparr>buf_size = 0, buf_data = replicate (unat CCAT_FLASH_SIZE) 0\<rparr>"

lemma update0_inv: "update_inv (epcs_bus 0x100) epcs_views update0 epcs0"
  using epcs_bus_law [of "0x100"] by (simp add: update_inv_def update0_def epcs0_def epcs_views_def)

theorem update_flash_roundtrip_witness:
  "\<exists>off buf' h'. write_chunks (\<lambda>_. 0) update0 [[7, 8], [], [9]] 0 update_buf0 = (map (int \<circ> length) [[7, 8], [], [9 :: u8]], off, buf') \<and>
    ccat_update_release (epcs_bus 0x100) update0 buf' epcs0 = Some (0, update0\<lparr>cd_in_use := cd_in_use update0 + 1\<rparr>, h') \<and>
    (\<exists>off'' h''. read_blocks (update_file_read (epcs_bus 0x100) update0) [CCAT_FLASH_SIZE] 0 h' =
       Some (concat [[7, 8], [], [9]] @ replicate (unat CCAT_FLASH_SIZE - length (concat [[7, 8], [], [9 :: u8]])) 0xff, off'', h''))"
  by (rule update_flash_roundtrip [OF update0_inv]) (simp_all add: update_buf0_def CCAT_FLASH_SIZE_def)

theorem wait_until_busy_reset_iff_witness:
  "wait_until_busy_reset (epcs_bus 0) 0 (epcs0\<lparr>e_busy := 2\<rparr>) = Some epcs0"
  unfolding wait_until_busy_reset_iff
  by (intro exI [of _ 2] conjI allI impI)
    (auto simp: epcs_bus_def busy_poll_def epcs0_def numeral_2_eq_2 less_Suc_eq)

theorem update_read_hides_faults_witness:
  "\<exists>off' h'. ccat_update_read (epcs_bus 0x100) (\<lambda>_. False) update0 4 (CCAT_FLASH_SIZE - 3) epcs0 = Some (int 3, replicate 3 None, off', h') \<and>
    unat off' = unat (CCAT_FLASH_SIZE - 3) + 3"
  by (rule update_read_hides_faults [OF update0_inv]) (simp_all add: CCAT_FLASH_SIZE_def)

theorem update_write_refused_witness:
  "ccat_update_write (\<lambda>_. 0) update0 [7, 8] 2 (CCAT_FLASH_SIZE - 1) update_buf0 = (0, CCAT_FLASH_SIZE - 1, update_buf0)"
proof -
  obtain r off' buf' where run: "ccat_update_write (\<lambda>_. 0) update0 [7, 8] 2 (CCAT_FLASH_SIZE - 1) update_buf0 = (r, off', buf')"
    by (metis prod.collapse)
  from update_write_refused [OF _ _ run] run show ?thesis by (simp add: update0_def CCAT_FLASH_SIZE_def)
qed

end
