(* ===== verification/Ccat_Gpio.thy ===== *)
theory Ccat_Gpio
  imports Ccat_Types
begin

text \<open>
  The GPIO driver, \<^verbatim>\<open>src/gpio.c\<close>. Pins are read and written through 32-bit registers of the device:
  the output values at offset 0, the directions at 0x8 and the input values at 0x10, each with the
  next 32 pins 4 bytes further. Here the operations run one after the other; \<open>Ccat_Gpio_Lock\<close>
  interleaves them under the driver's mutex.
\<close>

text \<open>The data of a \<open>struct gpio_chip\<close> that the driver sets; its operations are the functions below.\<close>

record gpio_chip =
  chip_label :: string
  chip_base :: int
  chip_ngpio :: u16
  chip_can_sleep :: bool

definition ccat_gpio_chip :: gpio_chip where
  "ccat_gpio_chip = \<lparr>chip_label = ''ccat_gpio'', chip_base = -1, chip_ngpio = 0, chip_can_sleep = False\<rparr>"

record ccat_gpio =
  g_ioaddr :: addr
  g_chip :: gpio_chip

definition set_bit :: "nat \<Rightarrow> u64 \<Rightarrow> u64" where
  "set_bit nr w = w OR push_bit nr 1"

definition clear_bit :: "nat \<Rightarrow> u64 \<Rightarrow> u64" where
  "clear_bit nr w = w AND NOT (push_bit nr 1)"

text \<open>
  \<open>old\<close> is an \<open>unsigned long\<close>: the bit operations reach the word that follows it for pin numbers from
  64 on. The conditional expression and the conditional statement change the same bit twice.
\<close>

definition set_bit_in_register :: "'h mmio \<Rightarrow> addr \<Rightarrow> nat \<Rightarrow> int \<Rightarrow> 'h \<Rightarrow> (int \<times> 'h) exec" where
  "set_bit_in_register hw a nr val h =
     (let (v, h) = ioread32 hw a h; old = ucast v :: u64
      in if 64 \<le> nr then Inl BadPointer
         else
           let old = (if val \<noteq> 0 then set_bit nr old else clear_bit nr old);
               old = (if val \<noteq> 0 then set_bit nr old else clear_bit nr old)
           in Inr (0, iowrite32 hw (ucast old) a h))"

definition ccat_gpio_get_direction :: "'h mmio \<Rightarrow> ccat_gpio \<Rightarrow> nat \<Rightarrow> 'h \<Rightarrow> nat \<times> 'h" where
  "ccat_gpio_get_direction hw g nr h =
     (let byte_offset = 4 * (nr div 32) + 0x8; mask = push_bit (nr mod 32) 1 :: u32;
          (v, h) = ioread32 hw (g_ioaddr g + byte_offset) h
      in (if mask AND v = 0 then 1 else 0, h))"

definition ccat_gpio_direction_input :: "'h mmio \<Rightarrow> ccat_gpio \<Rightarrow> nat \<Rightarrow> 'h \<Rightarrow> (int \<times> 'h) exec" where
  "ccat_gpio_direction_input hw g nr h = set_bit_in_register hw (g_ioaddr g + 0x8) nr 0 h"

definition ccat_gpio_direction_output :: "'h mmio \<Rightarrow> ccat_gpio \<Rightarrow> nat \<Rightarrow> int \<Rightarrow> 'h \<Rightarrow> (int \<times> 'h) exec" where
  "ccat_gpio_direction_output hw g nr val h = set_bit_in_register hw (g_ioaddr g + 0x8) nr 1 h"

definition ccat_gpio_get :: "'h mmio \<Rightarrow> ccat_gpio \<Rightarrow> nat \<Rightarrow> 'h \<Rightarrow> nat \<times> 'h" where
  "ccat_gpio_get hw g nr h =
     (let byte_off = 4 * (nr div 32); mask = push_bit (nr mod 32) 1 :: u32;
          (dir, h) = ccat_gpio_get_direction hw g nr h;
          dir_off = 0x10 * dir;
          (v, h) = ioread32 hw (g_ioaddr g + byte_off + dir_off) h
      in (if mask AND v = 0 then 1 else 0, h))"

definition ccat_gpio_set :: "'h mmio \<Rightarrow> ccat_gpio \<Rightarrow> nat \<Rightarrow> int \<Rightarrow> 'h \<Rightarrow> 'h exec" where
  "ccat_gpio_set hw g nr val h =
     (case set_bit_in_register hw (g_ioaddr g) nr val h of Inl e \<Rightarrow> Inl e | Inr (r, h) \<Rightarrow> Inr h)"

text \<open>
  Probe and remove; \<open>kz\<close> is whether the allocation succeeds, \<open>add\<close> the status of
  \<open>gpiochip_add_data\<close>, and the list holds the registered chips. The \<open>private_data\<close> of the function is
  the last component.
\<close>

definition ccat_gpio_probe ::
  "bool \<Rightarrow> (ccat_gpio \<Rightarrow> int) \<Rightarrow> ccat_function \<Rightarrow> ccat_gpio list \<Rightarrow> int \<times> ccat_gpio list \<times> ccat_gpio option" where
  "ccat_gpio_probe kz add func chips =
     (if \<not> kz then (- ENOMEM, chips, None)
      else
        let gpio = \<lparr>g_ioaddr = func_base func, g_chip = ccat_gpio_chip\<lparr>chip_ngpio := ucast (num_gpios (func_info func))\<rparr>\<rparr>;
            ret = add gpio
        in if ret \<noteq> 0 then (ret, chips, None) else (0, gpio # chips, Some gpio))"

definition ccat_gpio_remove :: "ccat_gpio option \<Rightarrow> ccat_gpio list \<Rightarrow> ccat_gpio list exec" where
  "ccat_gpio_remove private_data chips =
     (case private_data of None \<Rightarrow> Inl NullDeref | Some gpio \<Rightarrow> Inr (remove1 gpio chips))"

section \<open>Registers\<close>

text \<open>What the driver relies on of the registers in \<open>R\<close>: a read returns the last value written and
  changes none of them, a write sets that register only.\<close>

definition reg32_law :: "'h mmio \<Rightarrow> ('h \<Rightarrow> addr \<Rightarrow> u32) \<Rightarrow> addr set \<Rightarrow> bool" where
  "reg32_law hw regs R \<longleftrightarrow>
     (\<forall>a \<in> R. \<forall>h. fst (ioread32 hw a h) = regs h a \<and> (\<forall>b \<in> R. regs (snd (ioread32 hw a h)) b = regs h b) \<and>
        (\<forall>v. \<forall>b \<in> R. regs (iowrite32 hw v a h) b = (if b = a then v else regs h b)))"

definition gpio_regs :: "ccat_gpio \<Rightarrow> addr set" where
  "gpio_regs g = {g_ioaddr g, g_ioaddr g + 8, g_ioaddr g + 0x10}"

text \<open>Bit \<open>nr\<close> of a register set or cleared, no other bit changed.\<close>

definition bit_changed :: "nat \<Rightarrow> bool \<Rightarrow> u32 \<Rightarrow> u32 \<Rightarrow> bool" where
  "bit_changed nr b v w \<longleftrightarrow> (\<forall>k < 32. bit w k = (if k = nr then b else bit v k))"

lemma masked_bit: "nr < 32 \<Longrightarrow> push_bit nr 1 AND (v :: u32) = 0 \<longleftrightarrow> \<not> bit v nr"
  using tested_bit [of nr v] by (auto simp: and.commute)

lemma changed_bits:
  fixes v :: u32
  shows "bit (ucast (set_bit nr (ucast v :: u64)) :: u32) k \<longleftrightarrow> k < 32 \<and> (k = nr \<or> bit v k)"
    and "bit (ucast (clear_bit nr (ucast v :: u64)) :: u32) k \<longleftrightarrow> k < 32 \<and> k \<noteq> nr \<and> bit v k"
  by (auto simp: set_bit_def clear_bit_def bit_unsigned_iff bit_or_iff bit_and_iff bit_not_iff bit_push_bit_iff bit_exp_iff
      dest: bit_imp_le_length)

text \<open>What \<open>set_bit_in_register\<close> does to the word it read.\<close>

definition modify_word :: "nat \<Rightarrow> int \<Rightarrow> u32 \<Rightarrow> u32" where
  "modify_word nr val v =
     (let old = ucast v :: u64;
          old = (if val \<noteq> 0 then set_bit nr old else clear_bit nr old);
          old = (if val \<noteq> 0 then set_bit nr old else clear_bit nr old)
      in ucast old)"

lemma set_bit_in_register_eq:
  "set_bit_in_register hw a nr val h =
     (let (v, h) = ioread32 hw a h in if 64 \<le> nr then Inl BadPointer else Inr (0, iowrite32 hw (modify_word nr val v) a h))"
  by (simp add: set_bit_in_register_def modify_word_def Let_def split: prod.split)

lemma modify_word_changes: "bit_changed nr (val \<noteq> 0) v (modify_word nr val v)"
proof -
  let ?old = "\<lambda>w. if val \<noteq> 0 then set_bit nr w else clear_bit nr w"
  have "?old (?old w) = ?old w" for w by (simp add: set_bit_def clear_bit_def ac_simps)
  then have "modify_word nr val v = ucast (?old (ucast v :: u64))" by (simp add: modify_word_def Let_def)
  then show ?thesis using changed_bits [of nr v] by (auto simp: bit_changed_def)
qed

lemma set_bit_in_register_regs:
  assumes law: "reg32_law hw regs R" and a: "a \<in> R" and nr: "nr < 64"
  shows "\<exists>h'. set_bit_in_register hw a nr val h = Inr (0, h') \<and> bit_changed nr (val \<noteq> 0) (regs h a) (regs h' a) \<and>
    (\<forall>b \<in> R. b \<noteq> a \<longrightarrow> regs h' b = regs h b)"
proof -
  obtain v h1 where rd: "ioread32 hw a h = (v, h1)" by fastforce
  have v: "v = regs h a" and same: "\<forall>b \<in> R. regs h1 b = regs h b"
    using law a rd unfolding reg32_law_def by (metis fst_conv, metis snd_conv)
  let ?w = "modify_word nr val v"
  have wr: "\<forall>b \<in> R. regs (iowrite32 hw ?w a h1) b = (if b = a then ?w else regs h1 b)"
    using law a unfolding reg32_law_def by blast
  have "set_bit_in_register hw a nr val h = Inr (0, iowrite32 hw ?w a h1)"
    using nr rd by (simp add: set_bit_in_register_eq)
  then show ?thesis
    using wr same a v modify_word_changes [of nr val v] by (intro exI [of _ "iowrite32 hw ?w a h1"]) simp
qed

lemma get_direction_reg:
  assumes "reg32_law hw regs (gpio_regs g)" and "nr < 32" and "ccat_gpio_get_direction hw g nr h = (dir, h')"
  shows "dir = (if bit (regs h (g_ioaddr g + 8)) nr then 0 else 1)" and "\<forall>b \<in> gpio_regs g. regs h' b = regs h b"
proof -
  have a: "g_ioaddr g + 8 \<in> gpio_regs g" by (simp add: gpio_regs_def)
  obtain v h1 where rd: "ioread32 hw (g_ioaddr g + 8) h = (v, h1)" by fastforce
  have v: "v = regs h (g_ioaddr g + 8)" "\<forall>b \<in> gpio_regs g. regs h1 b = regs h b"
    using assms(1) a rd unfolding reg32_law_def by (metis fst_conv, metis snd_conv)
  show "dir = (if bit (regs h (g_ioaddr g + 8)) nr then 0 else 1)" "\<forall>b \<in> gpio_regs g. regs h' b = regs h b"
    using assms(2,3) rd v masked_bit [OF assms(2), of v] by (auto simp: ccat_gpio_get_direction_def)
qed

lemma get_reg:
  assumes law: "reg32_law hw regs (gpio_regs g)" and nr: "nr < 32"
  shows "fst (ccat_gpio_get hw g nr h) =
    (if bit (regs h (if bit (regs h (g_ioaddr g + 8)) nr then g_ioaddr g else g_ioaddr g + 0x10)) nr then 0 else 1)"
proof -
  obtain dir h1 where d: "ccat_gpio_get_direction hw g nr h = (dir, h1)" by fastforce
  note dir = get_direction_reg [OF law nr d]
  define a where "a = (if bit (regs h (g_ioaddr g + 8)) nr then g_ioaddr g else g_ioaddr g + 0x10)"
  have a: "a \<in> gpio_regs g" by (simp add: gpio_regs_def a_def)
  obtain v h2 where rd: "ioread32 hw a h1 = (v, h2)" by fastforce
  have "v = regs h1 a" using law a rd unfolding reg32_law_def by (metis fst_conv)
  then have v: "v = regs h a" using dir(2) a by simp
  have "g_ioaddr g + 0x10 * dir = a" using dir(1) by (simp add: a_def)
  then have "ccat_gpio_get hw g nr h = (if push_bit nr 1 AND v = 0 then 1 else 0, h2)"
    using nr d rd by (simp add: ccat_gpio_get_def)
  then show ?thesis unfolding masked_bit [OF nr] v a_def by simp
qed

section \<open>Properties\<close>

text \<open>C31: for the first 32 pins, making a pin an input or an output is what \<open>get_direction\<close> reports
  afterwards (1 and 0), and neither the direction of another pin nor an output value changes.\<close>

theorem gpio_direction_roundtrip:
  assumes "reg32_law hw regs (gpio_regs g)" and "nr < 32"
  shows "\<exists>h'. (if out then ccat_gpio_direction_output hw g nr val h else ccat_gpio_direction_input hw g nr h) = Inr (0, h') \<and>
    (\<forall>k < 32. fst (ccat_gpio_get_direction hw g k h') =
       (if k = nr then (if out then 0 else 1) else fst (ccat_gpio_get_direction hw g k h))) \<and>
    regs h' (g_ioaddr g) = regs h (g_ioaddr g)"
proof -
  let ?v = "if out then 1 else 0 :: int"
  have nr64: "nr < 64" using assms(2) by simp
  have a: "g_ioaddr g + 8 \<in> gpio_regs g" "g_ioaddr g \<in> gpio_regs g" by (simp_all add: gpio_regs_def)
  obtain h' where h': "set_bit_in_register hw (g_ioaddr g + 8) nr ?v h = Inr (0, h')"
    "bit_changed nr (?v \<noteq> 0) (regs h (g_ioaddr g + 8)) (regs h' (g_ioaddr g + 8))"
    "\<forall>b \<in> gpio_regs g. b \<noteq> g_ioaddr g + 8 \<longrightarrow> regs h' b = regs h b"
    using set_bit_in_register_regs [OF assms(1) a(1) nr64, of ?v h] by blast
  have dir: "fst (ccat_gpio_get_direction hw g k x) = (if bit (regs x (g_ioaddr g + 8)) k then 0 else 1)" if "k < 32" for k x
    using get_direction_reg(1) [OF assms(1) that prod.collapse [symmetric]] .
  show ?thesis
    using h' a(2) assms(2)
    by (intro exI [of _ h']) (auto simp: ccat_gpio_direction_output_def ccat_gpio_direction_input_def dir bit_changed_def)
qed

text \<open>\<open>ccat_gpio_set\<close> changes exactly one bit of the output register, but \<open>ccat_gpio_get\<close> negates:
  reading back an output pin yields 0 after it was set and 1 after it was cleared.\<close>

theorem gpio_set_get_inverted:
  assumes "reg32_law hw regs (gpio_regs g)" and "nr < 32" and "bit (regs h (g_ioaddr g + 8)) nr"
  shows "\<exists>h'. ccat_gpio_set hw g nr val h = Inr h' \<and>
    bit_changed nr (val \<noteq> 0) (regs h (g_ioaddr g)) (regs h' (g_ioaddr g)) \<and>
    fst (ccat_gpio_get hw g nr h') = (if val \<noteq> 0 then 0 else 1)"
proof -
  have a: "g_ioaddr g \<in> gpio_regs g" "g_ioaddr g + 8 \<in> gpio_regs g" by (simp_all add: gpio_regs_def)
  obtain h' where h': "set_bit_in_register hw (g_ioaddr g) nr val h = Inr (0, h')"
    "bit_changed nr (val \<noteq> 0) (regs h (g_ioaddr g)) (regs h' (g_ioaddr g))"
    "\<forall>b \<in> gpio_regs g. b \<noteq> g_ioaddr g \<longrightarrow> regs h' b = regs h b"
    using set_bit_in_register_regs [OF assms(1) a(1), of nr val h] assms(2) by auto
  have "bit (regs h' (g_ioaddr g + 8)) nr" using h'(3) a(2) assms(3) by simp
  then show ?thesis
    using h'(1,2) assms(2) get_reg [OF assms(1,2), of h'] by (simp add: ccat_gpio_set_def bit_changed_def)
qed

text \<open>a chip may announce up to 255 pins, but writes reach only the first 32: for the pins 32 to 63
  the register is written back unchanged, and from pin 64 on the bit operation leaves its word.\<close>

theorem gpio_high_pins:
  assumes "32 \<le> nr"
  shows "if nr < 64 then set_bit_in_register hw a nr val h = Inr (0, iowrite32 hw (fst (ioread32 hw a h)) a (snd (ioread32 hw a h)))
    else set_bit_in_register hw a nr val h = Inl BadPointer"
proof -
  have same: "ucast (if val \<noteq> 0 then set_bit nr (if val \<noteq> 0 then set_bit nr (ucast v) else clear_bit nr (ucast v))
      else clear_bit nr (if val \<noteq> 0 then set_bit nr (ucast v) else clear_bit nr (ucast v :: u64))) = v" for v :: u32
    using assms
    by (intro bit_eqI)
      (auto simp: set_bit_def clear_bit_def bit_unsigned_iff bit_or_iff bit_and_iff bit_not_iff bit_push_bit_iff bit_exp_iff
        dest: bit_imp_le_length)
  show ?thesis using assms by (simp add: set_bit_in_register_def same Let_def split: prod.split)
qed

text \<open>Registers of 32 bits at every address.\<close>

definition reg_bus :: "(addr \<Rightarrow> u32) mmio" where
  "reg_bus = \<lparr>ioread8 = (\<lambda>a h. (ucast (h a), h)), ioread16 = (\<lambda>a h. (ucast (h a), h)), ioread32 = (\<lambda>a h. (h a, h)),
     memcpy_fromio = (\<lambda>a n h. (map (\<lambda>k. ucast (h (a + k))) [0..<n], h)),
     iowrite8 = (\<lambda>v a h. h(a := ucast v)), iowrite16 = (\<lambda>v a h. h(a := ucast v)), iowrite32 = (\<lambda>v a h. h(a := v)),
     memcpy_toio = (\<lambda>a bs h. h), schedule = (\<lambda>h. h)\<rparr>"

lemma reg_bus_law: "reg32_law reg_bus (\<lambda>h. h) R"
  by (simp add: reg32_law_def reg_bus_def)

definition gpio0 :: ccat_gpio where "gpio0 = \<lparr>g_ioaddr = 0x100, g_chip = ccat_gpio_chip\<lparr>chip_ngpio := 8\<rparr>\<rparr>"

theorem gpio_direction_roundtrip_witness:
  "\<exists>h'. ccat_gpio_direction_output reg_bus gpio0 3 1 (\<lambda>_. 0) = Inr (0, h') \<and>
     fst (ccat_gpio_get_direction reg_bus gpio0 3 h') = 0"
  using gpio_direction_roundtrip [OF reg_bus_law, of 3 True gpio0 1 "\<lambda>_. 0"] by auto

theorem gpio_set_get_inverted_witness:
  "\<exists>h'. ccat_gpio_set reg_bus gpio0 3 1 (\<lambda>_. 8) = Inr h' \<and> fst (ccat_gpio_get reg_bus gpio0 3 h') = 0"
  using gpio_set_get_inverted [OF reg_bus_law, of 3 "\<lambda>_. 8" gpio0 1] by (auto simp: bit_iff_odd)

theorem gpio_high_pins_witness:
  "set_bit_in_register reg_bus 0x100 40 1 (\<lambda>_. 0) = Inr (0, \<lambda>_. 0) \<and> set_bit_in_register reg_bus 0x100 64 1 (\<lambda>_. 0) = Inl BadPointer"
  using gpio_high_pins [of 40 reg_bus "0x100" 1 "\<lambda>_. 0"] gpio_high_pins [of 64 reg_bus "0x100" 1 "\<lambda>_. 0"]
  by (auto simp: reg_bus_def)

end
