(* ===== verification/Ccat_Mutex.thy ===== *)
theory Ccat_Mutex
  imports Ccat_Prelude
begin

text \<open>
  What a mutex promises for an object that threads operate on, as an interface. An operation is a
  program of single instructions: it takes the mutex, gives it back, makes one access to the object's
  state, or returns. Nothing but these instructions takes or gives back the mutex. If the accesses
  outside of the mutex and those before the one that decides the result keep what the object stands
  for, and the deciding one has the effect of the whole operation, then every interleaving is a sequence
  of whole operations, and a thread that holds the mutex gives it back after a bounded number of
  instructions of its own. The GPIO driver provides it.
\<close>

section \<open>Threads and a lock\<close>

datatype ('s, 'l, 'r) instr = Lock 'l | Unlock 'l | Access "'s \<Rightarrow> 'l \<times> 's" | Return 'r

type_synonym ('s, 'op, 'l, 'r) program = "'op \<Rightarrow> 'l \<Rightarrow> ('s, 'l, 'r) instr"

text \<open>A thread is outside or at a point of an operation. The log holds, for every operation whose result is
  decided, the thread, the operation, the state in which the deciding access found the object, and the
  result.\<close>

datatype ('op, 'l) lock_thread = L_Idle | L_At 'op 'l

type_synonym ('s, 'op, 'r) log_entry = "nat \<times> 'op \<times> 's \<times> 'r"

record ('s, 'op, 'l, 'r) lock_sys =
  ls_state :: 's
  ls_lock :: "nat option"
  ls_thread :: "nat \<Rightarrow> ('op, 'l) lock_thread"
  ls_log :: "('s, 'op, 'r) log_entry list"

text \<open>The next instruction of thread \<open>t\<close>; there is none if the thread is outside or has to wait for the
  mutex. \<open>decided\<close> says at which points the result of the operation is known.\<close>

definition thread_move ::
  "('s, 'op, 'l, 'r) program \<Rightarrow> ('l \<Rightarrow> 'r option) \<Rightarrow> nat \<Rightarrow> ('s, 'op, 'l, 'r) lock_sys \<Rightarrow> ('s, 'op, 'l, 'r) lock_sys option" where
  "thread_move code decided t s =
     (case ls_thread s t of
        L_Idle \<Rightarrow> None
      | L_At c l \<Rightarrow>
          (case code c l of
             Lock l' \<Rightarrow> if ls_lock s = None then Some (s\<lparr>ls_lock := Some t, ls_thread := (ls_thread s)(t := L_At c l')\<rparr>) else None
           | Unlock l' \<Rightarrow> Some (s\<lparr>ls_lock := None, ls_thread := (ls_thread s)(t := L_At c l')\<rparr>)
           | Access f \<Rightarrow>
               (case f (ls_state s) of (l', h) \<Rightarrow>
                  Some (s\<lparr>ls_state := h, ls_thread := (ls_thread s)(t := L_At c l'),
                    ls_log := ls_log s @
                      (case (decided l, decided l') of (None, Some r) \<Rightarrow> [(t, c, ls_state s, r)] | _ \<Rightarrow> [])\<rparr>))
           | Return r \<Rightarrow> Some (s\<lparr>ls_thread := (ls_thread s)(t := L_Idle)\<rparr>)))"

text \<open>A thread enters an operation that may be called (\<open>valid\<close>), a thread executes its next instruction, or
  whatever the object does not stand for changes; \<open>view\<close> is what it stands for.\<close>

inductive lock_step ::
  "('s, 'op, 'l, 'r) program \<Rightarrow> 'l \<Rightarrow> ('l \<Rightarrow> 'r option) \<Rightarrow> ('op \<Rightarrow> bool) \<Rightarrow> ('s \<Rightarrow> 'v) \<Rightarrow>
     ('s, 'op, 'l, 'r) lock_sys \<Rightarrow> ('s, 'op, 'l, 'r) lock_sys \<Rightarrow> bool" for code start decided valid view where
  Enter: "ls_thread s t = L_Idle \<Longrightarrow> valid c \<Longrightarrow>
    lock_step code start decided valid view s (s\<lparr>ls_thread := (ls_thread s)(t := L_At c start)\<rparr>)"
| Move: "thread_move code decided t s = Some s' \<Longrightarrow> lock_step code start decided valid view s s'"
| Elsewhere: "view h = view (ls_state s) \<Longrightarrow> lock_step code start decided valid view s (s\<lparr>ls_state := h\<rparr>)"

definition lock_sys0 :: "'s \<Rightarrow> ('s, 'op, 'l, 'r) lock_sys" where
  "lock_sys0 h = \<lparr>ls_state = h, ls_lock = None, ls_thread = (\<lambda>t. L_Idle), ls_log = []\<rparr>"

text \<open>\<open>n\<close> instructions of the same thread in a row.\<close>

fun own_moves ::
  "('s, 'op, 'l, 'r) program \<Rightarrow> ('l \<Rightarrow> 'r option) \<Rightarrow> nat \<Rightarrow> nat \<Rightarrow> ('s, 'op, 'l, 'r) lock_sys \<Rightarrow> ('s, 'op, 'l, 'r) lock_sys option" where
  "own_moves code decided t 0 s = Some s"
| "own_moves code decided t (Suc n) s =
     (case thread_move code decided t s of None \<Rightarrow> None | Some s' \<Rightarrow> own_moves code decided t n s')"

lemma own_moves_reach:
  "own_moves code decided t n s = Some s' \<Longrightarrow> (lock_step code start decided valid view)\<^sup>*\<^sup>* s s'"
proof (induction n arbitrary: s)
  case (Suc n)
  then obtain s1 where s1: "thread_move code decided t s = Some s1" "own_moves code decided t n s1 = Some s'"
    by (auto split: option.splits)
  then show ?case using Suc.IH by (blast intro: lock_step.Move converse_rtranclp_into_rtranclp)
qed simp

text \<open>A log of whole operations that leads from one value to another: each starts from the value the one before
  left, and its result and the value it leaves are as specified.\<close>

fun serial :: "('s \<Rightarrow> 'v) \<Rightarrow> ('op \<Rightarrow> 's \<Rightarrow> 'r \<Rightarrow> 'v \<Rightarrow> bool) \<Rightarrow> 'v \<Rightarrow> ('s, 'op, 'r) log_entry list \<Rightarrow> 'v \<Rightarrow> bool" where
  "serial view spec v [] v' \<longleftrightarrow> v' = v"
| "serial view spec v ((t, c, h, r) # log) v' \<longleftrightarrow> view h = v \<and> (\<exists>v1. spec c h r v1 \<and> serial view spec v1 log v')"

lemma serial_append: "serial view spec v (xs @ ys) v' \<longleftrightarrow> (\<exists>v1. serial view spec v xs v1 \<and> serial view spec v1 ys v')"
  by (induction view spec v xs v' rule: serial.induct) auto

text \<open>The operation of thread \<open>t\<close> that was decided last.\<close>

definition last_entry :: "nat \<Rightarrow> ('s, 'op, 'r) log_entry list \<Rightarrow> ('op \<times> 's \<times> 'r) option" where
  "last_entry t log = (let es = filter (\<lambda>e. fst e = t) log in if es = [] then None else Some (snd (last es)))"

lemma last_entry_simps [simp]:
  "last_entry t (log @ [(t, e)]) = Some e" "u \<noteq> t \<Longrightarrow> last_entry u (log @ [(t, e)]) = last_entry u log"
  by (auto simp: last_entry_def Let_def)

section \<open>The interface\<close>

text \<open>\<open>holds\<close> says at which points a thread has the mutex, \<open>ok\<close> what it relies on there, \<open>left\<close> how many
  instructions it is from giving the mutex back.\<close>

locale locked_object =
  fixes code :: "('s, 'op, 'l, 'r) program" and start :: 'l and decided :: "'l \<Rightarrow> 'r option" and valid :: "'op \<Rightarrow> bool"
    and view :: "'s \<Rightarrow> 'v" and spec :: "'op \<Rightarrow> 's \<Rightarrow> 'r \<Rightarrow> 'v \<Rightarrow> bool"
    and holds :: "'l \<Rightarrow> bool" and ok :: "'op \<Rightarrow> 'l \<Rightarrow> 'v \<Rightarrow> bool" and left :: "'l \<Rightarrow> nat"
  assumes start_ok: "valid c \<Longrightarrow> ok c start v" and start_out: "\<not> holds start" "decided start = None"
    and stable: "ok c l v \<Longrightarrow> \<not> holds l \<Longrightarrow> ok c l v'"
    and lock_ok: "ok c l v \<Longrightarrow> code c l = Lock l' \<Longrightarrow> \<not> holds l \<and> holds l' \<and> ok c l' v \<and> decided l' = decided l"
    and unlock_ok: "ok c l v \<Longrightarrow> code c l = Unlock l' \<Longrightarrow> holds l \<and> \<not> holds l' \<and> ok c l' v \<and> decided l' = decided l"
    and return_ok: "ok c l v \<Longrightarrow> code c l = Return r \<Longrightarrow> \<not> holds l \<and> decided l = Some r"
    and access_ok: "ok c l (view h) \<Longrightarrow> code c l = Access f \<Longrightarrow> f h = (l', h') \<Longrightarrow>
      holds l' = holds l \<and> ok c l' (view h') \<and> (holds l \<or> view h' = view h) \<and> (holds l \<longrightarrow> left l' < left l)"
    and access_same: "ok c l (view h) \<Longrightarrow> code c l = Access f \<Longrightarrow> f h = (l', h') \<Longrightarrow> decided l' = decided l \<Longrightarrow> view h' = view h"
    and access_decides: "ok c l (view h) \<Longrightarrow> code c l = Access f \<Longrightarrow> f h = (l', h') \<Longrightarrow> decided l' \<noteq> decided l \<Longrightarrow>
      decided l = None \<and> (\<forall>r. decided l' = Some r \<longrightarrow> spec c h r (view h'))"
    and left_pos: "holds l \<Longrightarrow> 0 < left l"
begin

abbreviation move :: "nat \<Rightarrow> ('s, 'op, 'l, 'r) lock_sys \<Rightarrow> ('s, 'op, 'l, 'r) lock_sys option" where
  "move \<equiv> thread_move code decided"

abbreviation step :: "('s, 'op, 'l, 'r) lock_sys \<Rightarrow> ('s, 'op, 'l, 'r) lock_sys \<Rightarrow> bool" where
  "step \<equiv> lock_step code start decided valid view"

text \<open>The thread that is at a point where it should have the mutex is the one that has it; what it relies on
  is so; a result that is decided is in the log.\<close>

definition thread_ok :: "'v \<Rightarrow> nat option \<Rightarrow> ('s, 'op, 'r) log_entry list \<Rightarrow> nat \<Rightarrow> ('op, 'l) lock_thread \<Rightarrow> bool" where
  "thread_ok v lk log t th \<longleftrightarrow>
     (case th of
        L_Idle \<Rightarrow> lk \<noteq> Some t
      | L_At c l \<Rightarrow> ok c l v \<and> (holds l \<longleftrightarrow> lk = Some t) \<and>
          (\<forall>r. decided l = Some r \<longrightarrow> (\<exists>h. last_entry t log = Some (c, h, r))))"

definition lock_inv :: "'v \<Rightarrow> ('s, 'op, 'l, 'r) lock_sys \<Rightarrow> bool" where
  "lock_inv v0 s \<longleftrightarrow> (\<forall>t. thread_ok (view (ls_state s)) (ls_lock s) (ls_log s) t (ls_thread s t)) \<and>
     serial view spec v0 (ls_log s) (view (ls_state s))"

lemma thread_ok_simps [simp]:
  "thread_ok v lk log t L_Idle \<longleftrightarrow> lk \<noteq> Some t"
  "thread_ok v lk log t (L_At c l) \<longleftrightarrow> ok c l v \<and> (holds l \<longleftrightarrow> lk = Some t) \<and>
     (\<forall>r. decided l = Some r \<longrightarrow> (\<exists>h. last_entry t log = Some (c, h, r)))"
  by (simp_all add: thread_ok_def)

lemma lock_inv_thread:
  assumes "lock_inv v0 s" and "ls_thread s t = th"
  shows "thread_ok (view (ls_state s)) (ls_lock s) (ls_log s) t th"
  using assms by (auto simp: lock_inv_def)

lemma lock_inv_log: "lock_inv v0 s \<Longrightarrow> serial view spec v0 (ls_log s) (view (ls_state s))"
  by (simp add: lock_inv_def)

text \<open>A step of thread \<open>t\<close> leaves another thread alone if it changes what the object stands for only with the
  mutex, and the mutex only from free to its own or back.\<close>

lemma other_thread_ok:
  assumes "thread_ok v lk log u th" and "u \<noteq> t" and "v' = v \<or> lk = Some t"
    and "lk' = lk \<or> lk \<in> {None, Some t} \<and> lk' \<in> {None, Some t}"
    and "last_entry u log' = last_entry u log"
  shows "thread_ok v' lk' log' u th"
proof (cases th)
  case (L_At c l)
  have "lk' = Some u \<longleftrightarrow> lk = Some u" using assms(2,4) by auto
  moreover have "ok c l v'"
  proof (cases "holds l")
    case True
    then have "lk \<noteq> Some t" using assms(1,2) L_At by auto
    then show ?thesis using assms(1,3) L_At by simp
  next
    case False
    then show ?thesis using assms(1) L_At stable by (simp, blast)
  qed
  ultimately show ?thesis using assms(1,5) L_At by simp
qed (use assms in auto)

lemma lock_invI:
  assumes "lock_inv v0 s" and "thread_ok (view h) lk log t th" and "serial view spec v0 log (view h)"
    and "view h = view (ls_state s) \<or> ls_lock s = Some t"
    and "lk = ls_lock s \<or> ls_lock s \<in> {None, Some t} \<and> lk \<in> {None, Some t}"
    and "\<And>u. u \<noteq> t \<Longrightarrow> last_entry u log = last_entry u (ls_log s)"
  shows "lock_inv v0 (s\<lparr>ls_state := h, ls_lock := lk, ls_thread := (ls_thread s)(t := th), ls_log := log\<rparr>)"
proof -
  have "thread_ok (view h) lk log u (ls_thread s u)" if "u \<noteq> t" for u
    using lock_inv_thread [OF assms(1) refl, of u] that assms(4,5) assms(6) [OF that] by (rule other_thread_ok)
  then show ?thesis using assms(2,3) by (simp add: lock_inv_def)
qed

lemma access_keeps:
  assumes inv: "lock_inv v0 s" and at: "ls_thread s t = L_At c l" and code: "code c l = Access f" and run: "f (ls_state s) = (l', h)"
  defines "log \<equiv> ls_log s @ (case (decided l, decided l') of (None, Some r) \<Rightarrow> [(t, c, ls_state s, r)] | _ \<Rightarrow> [])"
  shows "lock_inv v0 (s\<lparr>ls_state := h, ls_thread := (ls_thread s)(t := L_At c l'), ls_log := log\<rparr>)"
proof -
  have th: "ok c l (view (ls_state s))" "holds l \<longleftrightarrow> ls_lock s = Some t"
    "\<And>r. decided l = Some r \<Longrightarrow> \<exists>h. last_entry t (ls_log s) = Some (c, h, r)"
    using lock_inv_thread [OF inv at] by simp_all
  note a = access_ok [OF th(1) code run]
  have "serial view spec v0 log (view h) \<and> (\<forall>r. decided l' = Some r \<longrightarrow> (\<exists>h. last_entry t log = Some (c, h, r))) \<and>
    (\<forall>u. u \<noteq> t \<longrightarrow> last_entry u log = last_entry u (ls_log s))"
  proof (cases "decided l' = decided l")
    case True
    then have "log = ls_log s" by (auto simp: log_def split: option.split)
    then show ?thesis using True access_same [OF th(1) code run] lock_inv_log [OF inv] th(3) by simp
  next
    case False
    note d = access_decides [OF th(1) code run False]
    then obtain r where r: "decided l' = Some r" using False by (cases "decided l'") auto
    then have "log = ls_log s @ [(t, c, ls_state s, r)]" using d by (simp add: log_def)
    then show ?thesis using d r lock_inv_log [OF inv] by (auto simp: serial_append)
  qed
  then show ?thesis using lock_invI [OF inv, of h "ls_lock s" log t "L_At c l'"] a th(2) by (auto simp del: fun_upd_apply)
qed

lemma move_keeps:
  assumes inv: "lock_inv v0 s" and move: "move t s = Some s'"
  shows "lock_inv v0 s'"
proof -
  obtain c l where at: "ls_thread s t = L_At c l" using move by (auto simp: thread_move_def split: lock_thread.splits)
  note th = lock_inv_thread [OF inv at, simplified]
  show ?thesis
  proof (cases "code c l")
    case (Lock l')
    then have s': "s' = s\<lparr>ls_lock := Some t, ls_thread := (ls_thread s)(t := L_At c l')\<rparr>" "ls_lock s = None"
      using move at by (auto simp: thread_move_def split: if_splits)
    have "ok c l (view (ls_state s))" using th by simp
    note k = lock_ok [OF this Lock]
    show ?thesis
      using lock_invI [OF inv, of "ls_state s" "Some t" "ls_log s" t "L_At c l'"] k th s' lock_inv_log [OF inv] by simp
  next
    case (Unlock l')
    then have s': "s' = s\<lparr>ls_lock := None, ls_thread := (ls_thread s)(t := L_At c l')\<rparr>" using move at by (simp add: thread_move_def)
    have "ok c l (view (ls_state s))" using th by simp
    note k = unlock_ok [OF this Unlock]
    show ?thesis
      using lock_invI [OF inv, of "ls_state s" None "ls_log s" t "L_At c l'"] k th s' lock_inv_log [OF inv] by simp
  next
    case (Access f)
    obtain l' h where run: "f (ls_state s) = (l', h)" by fastforce
    show ?thesis using access_keeps [OF inv at Access run] move at Access run by (simp add: thread_move_def)
  next
    case (Return r)
    then have s': "s' = s\<lparr>ls_thread := (ls_thread s)(t := L_Idle)\<rparr>" using move at by (simp add: thread_move_def)
    have "ok c l (view (ls_state s))" using th by simp
    note k = return_ok [OF this Return]
    show ?thesis
      using lock_invI [OF inv, of "ls_state s" "ls_lock s" "ls_log s" t L_Idle] k th s' lock_inv_log [OF inv] by simp
  qed
qed

lemma step_keeps:
  assumes "step s s'" and "lock_inv v0 s"
  shows "lock_inv v0 s'"
  using assms
proof (induction rule: lock_step.induct)
  case (Enter s t c)
  then show ?case
    using lock_invI [OF Enter(3), of "ls_state s" "ls_lock s" "ls_log s" t "L_At c start"] lock_inv_thread [OF Enter(3,1)]
      lock_inv_log [OF Enter(3)] start_ok start_out by simp
next
  case (Move t s s')
  then show ?case using move_keeps by blast
next
  case (Elsewhere h s)
  then show ?case by (simp add: lock_inv_def)
qed

lemma reach_inv:
  assumes "step\<^sup>*\<^sup>* (lock_sys0 h) s"
  shows "lock_inv (view h) s"
  using assms
proof (induction rule: rtranclp_induct)
  case base
  show ?case by (simp add: lock_inv_def lock_sys0_def)
next
  case (step s s')
  then show ?case using step_keeps by blast
qed

text \<open>Every interleaving is explained by the log of whole operations, and what an operation returns is what
  the log says.\<close>

lemma serialises:
  assumes "step\<^sup>*\<^sup>* (lock_sys0 h) s"
  shows "serial view spec (view h) (ls_log s) (view (ls_state s))"
  by (rule lock_inv_log [OF reach_inv [OF assms]])

lemma returns_logged:
  assumes "step\<^sup>*\<^sup>* (lock_sys0 h) s" and "ls_thread s t = L_At c l" and "code c l = Return r"
  shows "\<exists>h'. last_entry t (ls_log s) = Some (c, h', r)"
proof -
  note th = lock_inv_thread [OF reach_inv [OF assms(1)] assms(2), simplified]
  then have "ok c l (view (ls_state s))" by simp
  from return_ok [OF this assms(3)] th show ?thesis by simp
qed

text \<open>A thread that is outside does not have the mutex.\<close>

lemma idle_not_holding:
  assumes "step\<^sup>*\<^sup>* (lock_sys0 h) s" and "ls_thread s t = L_Idle"
  shows "ls_lock s \<noteq> Some t"
  using lock_inv_thread [OF reach_inv [OF assms(1)] assms(2)] by simp

text \<open>The holder of the mutex is never blocked and gives it back.\<close>

lemma holder_frees:
  assumes "lock_inv v0 s" and "ls_thread s t = L_At c l" and "holds l" and "left l \<le> k"
  shows "\<exists>n \<le> k. \<exists>s'. own_moves code decided t n s = Some s' \<and> ls_lock s' = None"
  using assms
proof (induction k arbitrary: s l)
  case 0
  then show ?case using left_pos by force
next
  case (Suc k)
  have okl: "ok c l (view (ls_state s))" using lock_inv_thread [OF Suc.prems(1,2)] by simp
  show ?case
  proof (cases "code c l")
    case (Lock l')
    then show ?thesis using lock_ok [OF okl Lock] Suc.prems(3) by simp
  next
    case (Unlock l')
    then show ?thesis using Suc.prems(2) by (intro exI [of _ 1]) (simp add: thread_move_def)
  next
    case (Return r)
    then show ?thesis using return_ok [OF okl Return] Suc.prems(3) by simp
  next
    case (Access f)
    obtain l' h where run: "f (ls_state s) = (l', h)" by fastforce
    obtain s1 where mv: "move t s = Some s1" and at: "ls_thread s1 t = L_At c l'"
      using Suc.prems(2) Access run by (simp add: thread_move_def)
    have h': "holds l'" "left l' \<le> k" using access_ok [OF okl Access run] Suc.prems(3,4) by simp_all
    obtain n s' where "n \<le> k" "own_moves code decided t n s1 = Some s'" "ls_lock s' = None"
      using Suc.IH [OF move_keeps [OF Suc.prems(1) mv] at h'] by blast
    then show ?thesis using mv by (intro exI [of _ "Suc n"]) simp
  qed
qed

lemma lock_given_back:
  assumes "step\<^sup>*\<^sup>* (lock_sys0 h) s" and "ls_lock s = Some t"
  shows "\<exists>c l. ls_thread s t = L_At c l \<and>
    (\<exists>n \<le> left l. \<exists>s'. own_moves code decided t n s = Some s' \<and> ls_lock s' = None)"
proof -
  note inv = reach_inv [OF assms(1)]
  obtain c l where at: "ls_thread s t = L_At c l"
    using lock_inv_thread [OF inv refl, of t] assms(2) by (cases "ls_thread s t") auto
  then have "holds l" using lock_inv_thread [OF inv at] assms(2) by simp
  then show ?thesis using holder_frees [OF inv at _ order_refl] at by blast
qed

end

end
