(* ===== verification/Ccat_Gpio_Lock.thy ===== *)
theory Ccat_Gpio_Lock
  imports Ccat_Gpio Ccat_Mutex
begin

text \<open>
  The mutex of \<^verbatim>\<open>src/gpio.c\<close>. Any number of threads call the operations of the chip; taking the mutex,
  giving it back and each access to a register is one instruction. \<open>set_bit_in_register\<close> and
  \<open>ccat_gpio_get\<close> make two accesses between \<open>mutex_lock\<close> and \<open>mutex_unlock\<close>, \<open>ccat_gpio_get_direction\<close>
  makes one and uses no mutex, and the input pins change at any time. The calls provide the interface
  \<open>locked_object\<close>: every interleaving is a sequence of whole calls, so no change of a pin is lost and no
  pin is read with the direction it no longer has.
\<close>

section \<open>Calls as programs\<close>

datatype gpio_call = Direction_Input nat | Direction_Output nat int | Gpio_Set nat int | Gpio_Get nat | Get_Direction nat

text \<open>At the entry; the mutex was taken; the old value of the register was read; the direction was read; the
  mutex is to be given back; the call returns.\<close>

datatype gpio_point = G_Entry | G_Locked | G_Old u32 | G_Dir nat | G_Unlock int | G_Return int

text \<open>The points that a function does not have are never reached; they return at once.\<close>

fun set_bit_code :: "'h mmio \<Rightarrow> addr \<Rightarrow> nat \<Rightarrow> int \<Rightarrow> gpio_point \<Rightarrow> ('h, gpio_point, int) instr" where
  "set_bit_code hw a nr val G_Entry = Lock G_Locked"
| "set_bit_code hw a nr val G_Locked = Access (\<lambda>h. let (v, h) = ioread32 hw a h in (G_Old v, h))"
| "set_bit_code hw a nr val (G_Old v) = Access (\<lambda>h. (G_Unlock 0, iowrite32 hw (modify_word nr val v) a h))"
| "set_bit_code hw a nr val (G_Unlock r) = Unlock (G_Return r)"
| "set_bit_code hw a nr val (G_Return r) = Return r"
| "set_bit_code hw a nr val (G_Dir d) = Return 0"

fun get_code :: "'h mmio \<Rightarrow> ccat_gpio \<Rightarrow> nat \<Rightarrow> gpio_point \<Rightarrow> ('h, gpio_point, int) instr" where
  "get_code hw g nr G_Entry = Lock G_Locked"
| "get_code hw g nr G_Locked = Access (\<lambda>h. let (dir, h) = ccat_gpio_get_direction hw g nr h in (G_Dir dir, h))"
| "get_code hw g nr (G_Dir dir) =
     Access (\<lambda>h. let (v, h) = ioread32 hw (g_ioaddr g + 4 * (nr div 32) + 0x10 * dir) h
                 in (G_Unlock (if (push_bit (nr mod 32) 1 :: u32) AND v = 0 then 1 else 0), h))"
| "get_code hw g nr (G_Unlock r) = Unlock (G_Return r)"
| "get_code hw g nr (G_Return r) = Return r"
| "get_code hw g nr (G_Old v) = Return 0"

fun get_direction_code :: "'h mmio \<Rightarrow> ccat_gpio \<Rightarrow> nat \<Rightarrow> gpio_point \<Rightarrow> ('h, gpio_point, int) instr" where
  "get_direction_code hw g nr G_Entry = Access (\<lambda>h. let (dir, h) = ccat_gpio_get_direction hw g nr h in (G_Return (int dir), h))"
| "get_direction_code hw g nr (G_Return r) = Return r"
| "get_direction_code hw g nr _ = Return 0"

fun gpio_code :: "'h mmio \<Rightarrow> ccat_gpio \<Rightarrow> ('h, gpio_call, gpio_point, int) program" where
  "gpio_code hw g (Direction_Input nr) l = set_bit_code hw (g_ioaddr g + 0x8) nr 0 l"
| "gpio_code hw g (Direction_Output nr val) l = set_bit_code hw (g_ioaddr g + 0x8) nr 1 l"
| "gpio_code hw g (Gpio_Set nr val) l = set_bit_code hw (g_ioaddr g) nr val l"
| "gpio_code hw g (Gpio_Get nr) l = get_code hw g nr l"
| "gpio_code hw g (Get_Direction nr) l = get_direction_code hw g nr l"

text \<open>The result is decided once it is to be returned.\<close>

fun gpio_decided :: "gpio_point \<Rightarrow> int option" where
  "gpio_decided (G_Unlock r) = Some r"
| "gpio_decided (G_Return r) = Some r"
| "gpio_decided _ = None"

text \<open>A call executed on its own, with at most \<open>n\<close> instructions.\<close>

fun run_code :: "('s, 'op, 'l, 'r) program \<Rightarrow> nat \<Rightarrow> 'op \<Rightarrow> 'l \<Rightarrow> 's \<Rightarrow> ('r \<times> 's) option" where
  "run_code code 0 c l h = None"
| "run_code code (Suc n) c l h =
     (case code c l of
        Lock l' \<Rightarrow> run_code code n c l' h
      | Unlock l' \<Rightarrow> run_code code n c l' h
      | Access f \<Rightarrow> (case f h of (l', h) \<Rightarrow> run_code code n c l' h)
      | Return r \<Rightarrow> Some (r, h))"

section \<open>What the calls promise\<close>

fun gpio_pin :: "gpio_call \<Rightarrow> nat" where
  "gpio_pin (Direction_Input nr) = nr"
| "gpio_pin (Direction_Output nr val) = nr"
| "gpio_pin (Gpio_Set nr val) = nr"
| "gpio_pin (Gpio_Get nr) = nr"
| "gpio_pin (Get_Direction nr) = nr"

text \<open>The registers have room for 64 pins: from pin 64 on the blocks of registers overlap and a change leaves the
  word it works on (\<open>gpio_high_pins\<close>), which is undefined behaviour.\<close>

definition gpio_valid :: "gpio_call \<Rightarrow> bool" where
  "gpio_valid c \<longleftrightarrow> gpio_pin c < 64"

text \<open>The registers of the chip: two each for output values, directions and input values.\<close>

definition gpio_banks :: "ccat_gpio \<Rightarrow> addr set" where
  "gpio_banks g = (\<lambda>k. g_ioaddr g + 4 * k) ` {..<6}"

text \<open>The output values and the directions; the input values change at any time.\<close>

definition gpio_view :: "('h \<Rightarrow> addr \<Rightarrow> u32) \<Rightarrow> ccat_gpio \<Rightarrow> 'h \<Rightarrow> u32 list" where
  "gpio_view regs g h = map (\<lambda>k. regs h (g_ioaddr g + 4 * k)) [0..<4]"

definition pin_is_output :: "nat \<Rightarrow> u32 list \<Rightarrow> bool" where
  "pin_is_output nr v \<longleftrightarrow> bit (v ! (2 + nr div 32)) (nr mod 32)"

text \<open>The level of a pin: its output value if it is an output, its input value if it is an input.\<close>

definition pin_level :: "('h \<Rightarrow> addr \<Rightarrow> u32) \<Rightarrow> ccat_gpio \<Rightarrow> nat \<Rightarrow> 'h \<Rightarrow> bool" where
  "pin_level regs g nr h \<longleftrightarrow>
     bit (regs h (g_ioaddr g + (if pin_is_output nr (gpio_view regs g h) then 0 else 0x10) + 4 * (nr div 32))) (nr mod 32)"

text \<open>A call that decides its result in state \<open>h\<close>: the result and the output values and directions it leaves. The
  changes reach the first 32 pins only; \<open>bit_changed\<close> leaves a register as it was for higher pins. A pin is read
  negated.\<close>

fun gpio_spec :: "('h \<Rightarrow> addr \<Rightarrow> u32) \<Rightarrow> ccat_gpio \<Rightarrow> gpio_call \<Rightarrow> 'h \<Rightarrow> int \<Rightarrow> u32 list \<Rightarrow> bool" where
  "gpio_spec regs g (Direction_Input nr) h r v' \<longleftrightarrow> r = 0 \<and>
     bit_changed nr False (gpio_view regs g h ! 2) (v' ! 2) \<and> v' = (gpio_view regs g h)[2 := v' ! 2]"
| "gpio_spec regs g (Direction_Output nr val) h r v' \<longleftrightarrow> r = 0 \<and>
     bit_changed nr True (gpio_view regs g h ! 2) (v' ! 2) \<and> v' = (gpio_view regs g h)[2 := v' ! 2]"
| "gpio_spec regs g (Gpio_Set nr val) h r v' \<longleftrightarrow> r = 0 \<and>
     bit_changed nr (val \<noteq> 0) (gpio_view regs g h ! 0) (v' ! 0) \<and> v' = (gpio_view regs g h)[0 := v' ! 0]"
| "gpio_spec regs g (Gpio_Get nr) h r v' \<longleftrightarrow> v' = gpio_view regs g h \<and> r = (if pin_level regs g nr h then 0 else 1)"
| "gpio_spec regs g (Get_Direction nr) h r v' \<longleftrightarrow>
     v' = gpio_view regs g h \<and> r = (if pin_is_output nr (gpio_view regs g h) then 0 else 1)"

section \<open>The interface\<close>

text \<open>Where the mutex is held, how far it is from being given back, and what a call relies on.\<close>

fun point_holds :: "gpio_point \<Rightarrow> bool" where
  "point_holds G_Entry = False"
| "point_holds (G_Return r) = False"
| "point_holds _ = True"

fun point_left :: "gpio_point \<Rightarrow> nat" where
  "point_left G_Locked = 3"
| "point_left (G_Old v) = 2"
| "point_left (G_Dir d) = 2"
| "point_left _ = 1"

fun point_ok :: "gpio_call \<Rightarrow> gpio_point \<Rightarrow> u32 list \<Rightarrow> bool" where
  "point_ok (Get_Direction nr) l v \<longleftrightarrow> \<not> point_holds l"
| "point_ok (Gpio_Get nr) (G_Dir d) v \<longleftrightarrow> d = (if pin_is_output nr v then 0 else 1)"
| "point_ok (Gpio_Get nr) (G_Old w) v \<longleftrightarrow> False"
| "point_ok (Gpio_Set nr val) (G_Old w) v \<longleftrightarrow> w = v ! 0"
| "point_ok (Direction_Input nr) (G_Old w) v \<longleftrightarrow> w = v ! 2"
| "point_ok (Direction_Output nr val) (G_Old w) v \<longleftrightarrow> w = v ! 2"
| "point_ok c (G_Dir d) v \<longleftrightarrow> False"
| "point_ok c l v \<longleftrightarrow> True"

lemma gpio_view_nth: "k < 4 \<Longrightarrow> gpio_view regs g h ! k = regs h (g_ioaddr g + 4 * k)"
  by (simp add: gpio_view_def)

lemma length_gpio_view [simp]: "length (gpio_view regs g h) = 4"
  by (simp add: gpio_view_def)

lemma bank_read:
  assumes "reg32_law hw regs (gpio_banks g)" and "k < 6" and "ioread32 hw (g_ioaddr g + 4 * k) h = (v, h')"
  shows "v = regs h (g_ioaddr g + 4 * k)" and "gpio_view regs g h' = gpio_view regs g h"
proof -
  have a: "g_ioaddr g + 4 * k \<in> gpio_banks g" using assms(2) by (auto simp: gpio_banks_def)
  show "v = regs h (g_ioaddr g + 4 * k)" using assms(1,3) a unfolding reg32_law_def by (metis fst_conv)
  have "\<forall>b \<in> gpio_banks g. regs h' b = regs h b" using assms(1,3) a unfolding reg32_law_def by (metis snd_conv)
  then show "gpio_view regs g h' = gpio_view regs g h" by (simp add: gpio_view_def gpio_banks_def)
qed

lemma bank_write:
  assumes "reg32_law hw regs (gpio_banks g)" and "k < 4"
  shows "gpio_view regs g (iowrite32 hw w (g_ioaddr g + 4 * k) h) = (gpio_view regs g h)[k := w]"
proof -
  have "g_ioaddr g + 4 * k \<in> gpio_banks g" using assms(2) by (auto simp: gpio_banks_def)
  then have "\<forall>b \<in> gpio_banks g. regs (iowrite32 hw w (g_ioaddr g + 4 * k) h) b = (if b = g_ioaddr g + 4 * k then w else regs h b)"
    using assms(1) unfolding reg32_law_def by blast
  then show ?thesis by (intro nth_equalityI) (auto simp: gpio_view_def gpio_banks_def nth_list_update)
qed

lemma dir_read:
  assumes law: "reg32_law hw regs (gpio_banks g)" and nr: "nr < 64" and run: "ccat_gpio_get_direction hw g nr h = (dir, h')"
  shows "dir = (if pin_is_output nr (gpio_view regs g h) then 0 else 1)" and "gpio_view regs g h' = gpio_view regs g h"
proof -
  have k: "2 + nr div 32 < 6" "2 + nr div 32 < 4" using nr by auto
  have a: "g_ioaddr g + (4 * (nr div 32) + 8) = g_ioaddr g + 4 * (2 + nr div 32)" by simp
  obtain v h1 where rd: "ioread32 hw (g_ioaddr g + 4 * (2 + nr div 32)) h = (v, h1)" by fastforce
  note b = bank_read [OF law k(1) rd]
  have "push_bit (nr mod 32) 1 AND v = 0 \<longleftrightarrow> \<not> bit v (nr mod 32)" by (rule masked_bit) simp
  moreover have "ccat_gpio_get_direction hw g nr h = (if push_bit (nr mod 32) 1 AND v = 0 then 1 else 0, h1)"
    by (simp only: ccat_gpio_get_direction_def Let_def a rd prod.case)
  moreover have "pin_is_output nr (gpio_view regs g h) = bit v (nr mod 32)" unfolding pin_is_output_def gpio_view_nth [OF k(2)] b(1) by (rule refl)
  ultimately show "dir = (if pin_is_output nr (gpio_view regs g h) then 0 else 1)" "gpio_view regs g h' = gpio_view regs g h"
    using run b(2) by simp_all
qed

lemma level_read:
  assumes law: "reg32_law hw regs (gpio_banks g)" and nr: "nr < 64"
    and rd: "ioread32 hw (g_ioaddr g + 4 * (nr div 32) + 0x10 * (if pin_is_output nr (gpio_view regs g h) then 0 else 1)) h = (v, h')"
  shows "(push_bit (nr mod 32) 1 AND v = 0) = (\<not> pin_level regs g nr h)" and "gpio_view regs g h' = gpio_view regs g h"
proof -
  define k where "k = nr div 32 + (if pin_is_output nr (gpio_view regs g h) then 0 else 4)"
  have k: "k < 6" using nr by (auto simp: k_def)
  have "ioread32 hw (g_ioaddr g + 4 * k) h = (v, h')" using rd by (simp add: k_def algebra_simps split: if_splits)
  note b = bank_read [OF law k this]
  have "push_bit (nr mod 32) 1 AND v = 0 \<longleftrightarrow> \<not> bit v (nr mod 32)" by (rule masked_bit) simp
  then show "(push_bit (nr mod 32) 1 AND v = 0) = (\<not> pin_level regs g nr h)" and "gpio_view regs g h' = gpio_view regs g h"
    using b by (auto simp: pin_level_def k_def algebra_simps)
qed

text \<open>One access of a call: what it leaves, and what it decides.\<close>

definition access_promise :: "('h \<Rightarrow> addr \<Rightarrow> u32) \<Rightarrow> ccat_gpio \<Rightarrow> gpio_call \<Rightarrow> gpio_point \<Rightarrow> gpio_point \<Rightarrow> 'h \<Rightarrow> 'h \<Rightarrow> bool" where
  "access_promise regs g c l l' h h' \<longleftrightarrow>
     point_holds l' = point_holds l \<and> point_ok c l' (gpio_view regs g h') \<and>
     (point_holds l \<or> gpio_view regs g h' = gpio_view regs g h) \<and> (point_holds l \<longrightarrow> point_left l' < point_left l) \<and>
     gpio_decided l = None \<and>
     (case gpio_decided l' of None \<Rightarrow> gpio_view regs g h' = gpio_view regs g h | Some r \<Rightarrow> gpio_spec regs g c h r (gpio_view regs g h'))"

lemma set_bit_access:
  assumes law: "reg32_law hw regs (gpio_banks g)" and k: "k < 4" "a = g_ioaddr g + 4 * k"
    and code: "set_bit_code hw a nr val l = Access f" and run: "f h = (l', h')"
  shows "l = G_Locked \<and> l' = G_Old (gpio_view regs g h ! k) \<and> gpio_view regs g h' = gpio_view regs g h \<or>
    (\<exists>w. l = G_Old w \<and> l' = G_Unlock 0 \<and> gpio_view regs g h' = (gpio_view regs g h)[k := modify_word nr val w])"
  using code run bank_read [OF law, of k h] bank_write [OF law k(1)] k gpio_view_nth [OF k(1), of regs g h]
  by (cases l) (auto split: prod.splits)

lemma gpio_access:
  assumes law: "reg32_law hw regs (gpio_banks g)" and nr: "gpio_pin c < 64" and ok: "point_ok c l (gpio_view regs g h)"
    and code: "gpio_code hw g c l = Access f" and run: "f h = (l', h')"
  shows "access_promise regs g c l l' h h'"
proof (cases c)
  case (Direction_Input k)
  then show ?thesis
    using set_bit_access [OF law, of 2 "g_ioaddr g + 8" k 0 l f h l' h'] code run ok modify_word_changes [of k 0]
    by (auto simp: access_promise_def)
next
  case (Direction_Output k val)
  then show ?thesis
    using set_bit_access [OF law, of 2 "g_ioaddr g + 8" k 1 l f h l' h'] code run ok modify_word_changes [of k 1]
    by (auto simp: access_promise_def)
next
  case (Gpio_Set k val)
  then show ?thesis
    using set_bit_access [OF law, of 0 "g_ioaddr g" k val l f h l' h'] code run ok modify_word_changes [of k val]
    by (auto simp: access_promise_def)
next
  case (Gpio_Get k)
  then have k: "k < 64" using nr by simp
  obtain dir h1 where d: "ccat_gpio_get_direction hw g k h = (dir, h1)" by fastforce
  show ?thesis
  proof (cases l)
    case G_Locked
    then have "l' = G_Dir dir" "h' = h1" using code run Gpio_Get d by auto
    then show ?thesis using G_Locked Gpio_Get dir_read [OF law k d] by (simp add: access_promise_def)
  next
    case (G_Dir x)
    then have x: "x = (if pin_is_output k (gpio_view regs g h) then 0 else 1)" using ok Gpio_Get by simp
    obtain v h2 where rd: "ioread32 hw (g_ioaddr g + 4 * (k div 32) + 0x10 * x) h = (v, h2)" by fastforce
    then have "l' = G_Unlock (if push_bit (k mod 32) 1 AND v = 0 then 1 else 0)" "h' = h2" using code run Gpio_Get G_Dir by auto
    then show ?thesis using G_Dir Gpio_Get level_read [OF law k rd [unfolded x]] by (simp add: access_promise_def)
  qed (use code Gpio_Get ok in simp_all)
next
  case (Get_Direction k)
  then have k: "k < 64" using nr by simp
  obtain dir h1 where d: "ccat_gpio_get_direction hw g k h = (dir, h1)" by fastforce
  show ?thesis
  proof (cases l)
    case G_Entry
    then have "l' = G_Return (int dir)" "h' = h1" using code run Get_Direction d by auto
    then show ?thesis using G_Entry Get_Direction dir_read [OF law k d] by (simp add: access_promise_def)
  qed (use code Get_Direction in simp_all)
qed

text \<open>The instructions that touch the mutex or return.\<close>

lemma gpio_control:
  assumes "point_ok c l v"
  shows "gpio_code hw g c l = Lock l' \<Longrightarrow> \<not> point_holds l \<and> point_holds l' \<and> point_ok c l' v \<and> gpio_decided l' = gpio_decided l"
    and "gpio_code hw g c l = Unlock l' \<Longrightarrow> point_holds l \<and> \<not> point_holds l' \<and> point_ok c l' v \<and> gpio_decided l' = gpio_decided l"
    and "gpio_code hw g c l = Return r \<Longrightarrow> \<not> point_holds l \<and> gpio_decided l = Some r"
  using assms by (cases c; cases l; auto)+

interpretation gpio_lock: locked_object "gpio_code hw g" G_Entry gpio_decided "\<lambda>c. reg32_law hw regs (gpio_banks g) \<and> gpio_valid c"
  "gpio_view regs g" "gpio_spec regs g" point_holds
  "\<lambda>c l v. reg32_law hw regs (gpio_banks g) \<and> gpio_valid c \<and> point_ok c l v" point_left for hw regs g
proof
  fix c :: gpio_call and l l' :: gpio_point and v v' :: "u32 list" and h h' and f and r :: int
  let ?law = "reg32_law hw regs (gpio_banks g)"
  show "?law \<and> gpio_valid c \<and> point_ok c G_Entry v" if "?law \<and> gpio_valid c" using that by (cases c) auto
  show "?law \<and> gpio_valid c \<and> point_ok c l v'" if "?law \<and> gpio_valid c \<and> point_ok c l v" "\<not> point_holds l"
    using that by (cases c; cases l) auto
  show "\<not> point_holds l \<and> point_holds l' \<and> (?law \<and> gpio_valid c \<and> point_ok c l' v) \<and> gpio_decided l' = gpio_decided l"
    if "?law \<and> gpio_valid c \<and> point_ok c l v" "gpio_code hw g c l = Lock l'"
    using gpio_control(1) [of c l v, OF _ that(2)] that(1) by blast
  show "point_holds l \<and> \<not> point_holds l' \<and> (?law \<and> gpio_valid c \<and> point_ok c l' v) \<and> gpio_decided l' = gpio_decided l"
    if "?law \<and> gpio_valid c \<and> point_ok c l v" "gpio_code hw g c l = Unlock l'"
    using gpio_control(2) [of c l v, OF _ that(2)] that(1) by blast
  show "\<not> point_holds l \<and> gpio_decided l = Some r"
    if "?law \<and> gpio_valid c \<and> point_ok c l v" "gpio_code hw g c l = Return r"
    using gpio_control(3) [of c l v, OF _ that(2)] that(1) by blast
  have acc: "access_promise regs g c l l' h h'"
    if "?law \<and> gpio_valid c \<and> point_ok c l (gpio_view regs g h)" "gpio_code hw g c l = Access f" "f h = (l', h')"
    using gpio_access [OF _ _ _ that(2,3)] that(1) by (simp add: gpio_valid_def)
  show "point_holds l' = point_holds l \<and> (?law \<and> gpio_valid c \<and> point_ok c l' (gpio_view regs g h')) \<and>
      (point_holds l \<or> gpio_view regs g h' = gpio_view regs g h) \<and> (point_holds l \<longrightarrow> point_left l' < point_left l)"
    if "?law \<and> gpio_valid c \<and> point_ok c l (gpio_view regs g h)" "gpio_code hw g c l = Access f" "f h = (l', h')"
    using acc [OF that] that(1) by (simp add: access_promise_def)
  show "gpio_view regs g h' = gpio_view regs g h"
    if "?law \<and> gpio_valid c \<and> point_ok c l (gpio_view regs g h)" "gpio_code hw g c l = Access f" "f h = (l', h')"
      "gpio_decided l' = gpio_decided l"
    using acc [OF that(1-3)] that(4) by (auto simp: access_promise_def)
  show "gpio_decided l = None \<and> (\<forall>r. gpio_decided l' = Some r \<longrightarrow> gpio_spec regs g c h r (gpio_view regs g h'))"
    if "?law \<and> gpio_valid c \<and> point_ok c l (gpio_view regs g h)" "gpio_code hw g c l = Access f" "f h = (l', h')"
      "gpio_decided l' \<noteq> gpio_decided l"
    using acc [OF that(1-3)] by (auto simp: access_promise_def)
  show "0 < point_left l" if "point_holds l" using that by (cases l) simp_all
qed simp_all

section \<open>Properties\<close>

text \<open>The step relation of the chip: its calls for pins below 64.\<close>

abbreviation gpio_step :: "'h mmio \<Rightarrow> ('h \<Rightarrow> addr \<Rightarrow> u32) \<Rightarrow> ccat_gpio \<Rightarrow>
    ('h, gpio_call, gpio_point, int) lock_sys \<Rightarrow> ('h, gpio_call, gpio_point, int) lock_sys \<Rightarrow> bool" where
  "gpio_step hw regs g \<equiv> lock_step (gpio_code hw g) G_Entry gpio_decided gpio_valid (gpio_view regs g)"

lemma gpio_reach:
  assumes "reg32_law hw regs (gpio_banks g)" and "(gpio_step hw regs g)\<^sup>*\<^sup>* s s'"
  shows "(lock_step (gpio_code hw g) G_Entry gpio_decided (\<lambda>c. reg32_law hw regs (gpio_banks g) \<and> gpio_valid c) (gpio_view regs g))\<^sup>*\<^sup>* s s'"
proof -
  have "(\<lambda>c. reg32_law hw regs (gpio_banks g) \<and> gpio_valid c) = gpio_valid" using assms(1) by (simp add: fun_eq_iff)
  then show ?thesis using assms(2) by (simp only:)
qed

text \<open>The direction and the output value a pin has after the calls of a log.\<close>

fun pin_output :: "nat \<Rightarrow> bool \<Rightarrow> ('h, gpio_call, int) log_entry list \<Rightarrow> bool" where
  "pin_output nr b [] = b"
| "pin_output nr b ((t, Direction_Input k, h, r) # log) = pin_output nr (if k = nr then False else b) log"
| "pin_output nr b ((t, Direction_Output k val, h, r) # log) = pin_output nr (if k = nr then True else b) log"
| "pin_output nr b (_ # log) = pin_output nr b log"

fun pin_value :: "nat \<Rightarrow> bool \<Rightarrow> ('h, gpio_call, int) log_entry list \<Rightarrow> bool" where
  "pin_value nr b [] = b"
| "pin_value nr b ((t, Gpio_Set k val, h, r) # log) = pin_value nr (if k = nr then val \<noteq> 0 else b) log"
| "pin_value nr b (_ # log) = pin_value nr b log"

lemma serial_pins:
  assumes "serial (gpio_view regs g) (gpio_spec regs g) v log v'" and "nr < 32" and "length v = 4"
  shows "bit (v' ! 0) nr = pin_value nr (bit (v ! 0) nr) log \<and> bit (v' ! 2) nr = pin_output nr (bit (v ! 2) nr) log"
  using assms(1,3)
proof (induction log arbitrary: v)
  case (Cons e log)
  obtain t c h r where e: "e = (t, c, h, r)" by (metis prod_cases4)
  obtain v1 where v: "v = gpio_view regs g h" and v1: "gpio_spec regs g c h r v1" "serial (gpio_view regs g) (gpio_spec regs g) v1 log v'"
    using Cons.prems(1) e by auto
  have len: "length v1 = 4" using v1(1) by (cases c) (simp_all, (metis length_gpio_view length_list_update)+)
  have "bit (v1 ! 0) nr = pin_value nr (bit (v ! 0) nr) [e] \<and> bit (v1 ! 2) nr = pin_output nr (bit (v ! 2) nr) [e]"
  proof (cases c)
    case (Direction_Input k)
    then have "v1 ! 0 = v ! 0" using v1(1) v by simp (metis nth_list_update_neq zero_neq_numeral)
    then show ?thesis using v1(1) v assms(2) Direction_Input by (simp add: e bit_changed_def)
  next
    case (Direction_Output k val)
    then have "v1 ! 0 = v ! 0" using v1(1) v by simp (metis nth_list_update_neq zero_neq_numeral)
    then show ?thesis using v1(1) v assms(2) Direction_Output by (simp add: e bit_changed_def)
  next
    case (Gpio_Set k val)
    then have "v1 ! 2 = v ! 2" using v1(1) v by simp (metis nth_list_update_neq zero_neq_numeral)
    then show ?thesis using v1(1) v assms(2) Gpio_Set by (simp add: e bit_changed_def)
  qed (use v1(1) v e in simp_all)
  then show ?case using Cons.IH [OF v1(2) len] by (cases c) (simp_all add: e)
qed simp

text \<open>C12: however the register accesses of any number of threads interleave under the driver's mutex, for
  calls of all pins below 64 (from there on the driver's behaviour is undefined), and whatever the input
  pins do meanwhile: the calls that were decided are explained by running them one after the other. A
  value read is the level the pin has at that moment, output or input by its direction at that moment,
  negated; each call returns the result recorded for it. No change of the direction or output value of
  the first 32 pins is lost; for the others the driver's changes have no effect.\<close>

theorem gpio_calls_serialise:
  assumes "reg32_law hw regs (gpio_banks g)" and "(gpio_step hw regs g)\<^sup>*\<^sup>* (lock_sys0 h) s"
  shows "serial (gpio_view regs g) (gpio_spec regs g) (gpio_view regs g h) (ls_log s) (gpio_view regs g (ls_state s)) \<and>
    (\<forall>t c r. ls_thread s t = L_At c (G_Return r) \<longrightarrow> (\<exists>h'. last_entry t (ls_log s) = Some (c, h', r))) \<and>
    (\<forall>nr < 32. bit (regs (ls_state s) (g_ioaddr g)) nr = pin_value nr (bit (regs h (g_ioaddr g)) nr) (ls_log s) \<and>
       bit (regs (ls_state s) (g_ioaddr g + 8)) nr = pin_output nr (bit (regs h (g_ioaddr g + 8)) nr) (ls_log s))"
proof -
  note reach = gpio_reach [OF assms]
  note ser = gpio_lock.serialises [OF reach]
  have ret: "gpio_code hw g c (G_Return r) = Return r" for c r by (cases c) simp_all
  have "bit (regs (ls_state s) (g_ioaddr g)) nr = pin_value nr (bit (regs h (g_ioaddr g)) nr) (ls_log s) \<and>
       bit (regs (ls_state s) (g_ioaddr g + 8)) nr = pin_output nr (bit (regs h (g_ioaddr g + 8)) nr) (ls_log s)" if "nr < 32" for nr
    using serial_pins [OF ser that] by (simp add: gpio_view_nth)
  then show ?thesis using ser gpio_lock.returns_logged [OF reach _ ret] by blast
qed

text \<open>C28: the mutex of the chip is always given back. A thread that is outside of the driver never has it, so
  no call returns with it; and whenever a thread has it, this thread is inside a call and, by at most three
  instructions of its own, whatever the others wait for, gives it back.\<close>

theorem gpio_mutex_freed:
  assumes "reg32_law hw regs (gpio_banks g)" and "(gpio_step hw regs g)\<^sup>*\<^sup>* (lock_sys0 h) s"
  shows "(\<forall>t. ls_thread s t = L_Idle \<longrightarrow> ls_lock s \<noteq> Some t) \<and>
    (\<forall>t. ls_lock s = Some t \<longrightarrow>
       (\<exists>n \<le> 3. \<exists>s'. own_moves (gpio_code hw g) gpio_decided t n s = Some s' \<and> ls_lock s' = None))"
proof (intro conjI allI impI)
  note reach = gpio_reach [OF assms]
  show "ls_lock s \<noteq> Some t" if "ls_thread s t = L_Idle" for t using gpio_lock.idle_not_holding [OF reach that] .
  show "\<exists>n \<le> 3. \<exists>s'. own_moves (gpio_code hw g) gpio_decided t n s = Some s' \<and> ls_lock s' = None" if held: "ls_lock s = Some t" for t
  proof -
    obtain l n s' where "n \<le> point_left l" "own_moves (gpio_code hw g) gpio_decided t n s = Some s' \<and> ls_lock s' = None"
      using gpio_lock.lock_given_back [OF reach held] by blast
    moreover have "point_left l \<le> 3" by (cases l) simp_all
    ultimately show ?thesis by (meson le_trans)
  qed
qed

text \<open>Executed on its own, the program of a call is the function of the driver it stands for.\<close>

lemma run_code_numeral:
  "run_code code (numeral v) c l h =
     (case code c l of
        Lock l' \<Rightarrow> run_code code (pred_numeral v) c l' h
      | Unlock l' \<Rightarrow> run_code code (pred_numeral v) c l' h
      | Access f \<Rightarrow> (case f h of (l', h) \<Rightarrow> run_code code (pred_numeral v) c l' h)
      | Return r \<Rightarrow> Some (r, h))"
  unfolding numeral_eq_Suc by (rule run_code.simps)

theorem gpio_code_run:
  assumes "nr < 64"
  shows "ccat_gpio_direction_input hw g nr h = Inr (the (run_code (gpio_code hw g) 5 (Direction_Input nr) G_Entry h)) \<and>
    ccat_gpio_direction_output hw g nr val h = Inr (the (run_code (gpio_code hw g) 5 (Direction_Output nr val) G_Entry h)) \<and>
    ccat_gpio_set hw g nr val h = Inr (snd (the (run_code (gpio_code hw g) 5 (Gpio_Set nr val) G_Entry h))) \<and>
    run_code (gpio_code hw g) 5 (Gpio_Get nr) G_Entry h = Some (map_prod int id (ccat_gpio_get hw g nr h)) \<and>
    run_code (gpio_code hw g) 2 (Get_Direction nr) G_Entry h = Some (map_prod int id (ccat_gpio_get_direction hw g nr h))"
  using assms
  by (simp add: ccat_gpio_direction_input_def ccat_gpio_direction_output_def ccat_gpio_set_def ccat_gpio_get_def
      set_bit_in_register_eq run_code_numeral Let_def split: prod.splits)

section \<open>Closed instances\<close>

lemma own_moves_numeral:
  "own_moves code decided t (numeral v) s =
     (case thread_move code decided t s of None \<Rightarrow> None | Some s' \<Rightarrow> own_moves code decided t (pred_numeral v) s')"
  unfolding numeral_eq_Suc by (rule own_moves.simps)

text \<open>A whole call that changes a pin, while the mutex is free.\<close>

lemma set_call_reach:
  assumes "ls_thread s t = L_Idle" and "ls_lock s = None" and "gpio_valid c" and "gpio_code hw g c = set_bit_code hw a nr val"
  shows "\<exists>h1 h2. (gpio_step hw regs g)\<^sup>*\<^sup>* s (s\<lparr>ls_state := h2, ls_log := ls_log s @ [(t, c, h1, 0)]\<rparr>)"
proof -
  let ?s1 = "s\<lparr>ls_thread := (ls_thread s)(t := L_At c G_Entry)\<rparr>"
  obtain v h1 where rd: "ioread32 hw a (ls_state s) = (v, h1)" by fastforce
  let ?h2 = "iowrite32 hw (modify_word nr val v) a h1"
  have idle: "(ls_thread s)(t := L_Idle) = ls_thread s" using assms(1) by (simp add: fun_upd_idem)
  have "own_moves (gpio_code hw g) gpio_decided t 5 ?s1 = Some (s\<lparr>ls_state := ?h2, ls_log := ls_log s @ [(t, c, h1, 0)]\<rparr>)"
    using assms(2) rd idle by (cases s) (simp add: own_moves_numeral thread_move_def assms(4))
  then have "(gpio_step hw regs g)\<^sup>*\<^sup>* ?s1 (s\<lparr>ls_state := ?h2, ls_log := ls_log s @ [(t, c, h1, 0)]\<rparr>)" by (rule own_moves_reach)
  moreover have "gpio_step hw regs g s ?s1" using lock_step.Enter [OF assms(1), of gpio_valid c] assms(3) by blast
  ultimately show ?thesis by (blast intro: converse_rtranclp_into_rtranclp)
qed

text \<open>Two threads make pin 3 an output and set it, the one after the other.\<close>

lemma gpio_example:
  "\<exists>s h1 h2. (gpio_step reg_bus (\<lambda>h. h) gpio0)\<^sup>*\<^sup>* (lock_sys0 (\<lambda>_. 0)) s \<and>
     ls_log s = [(0, Direction_Output 3 1, h1, 0), (1, Gpio_Set 3 1, h2, 0)]"
proof -
  let ?s0 = "lock_sys0 (\<lambda>_. 0) :: (addr \<Rightarrow> u32, gpio_call, gpio_point, int) lock_sys"
  obtain h1 h where s1: "(gpio_step reg_bus (\<lambda>h. h) gpio0)\<^sup>*\<^sup>* ?s0 (?s0\<lparr>ls_state := h, ls_log := [(0, Direction_Output 3 1, h1, 0)]\<rparr>)"
    using set_call_reach [of ?s0 0 "Direction_Output 3 1" reg_bus gpio0 "g_ioaddr gpio0 + 8" 3 1 "\<lambda>h. h"]
    by (auto simp: lock_sys0_def gpio_valid_def fun_eq_iff)
  let ?s1 = "?s0\<lparr>ls_state := h, ls_log := [(0, Direction_Output 3 1, h1, 0)]\<rparr>"
  obtain h2 h' where "(gpio_step reg_bus (\<lambda>h. h) gpio0)\<^sup>*\<^sup>* ?s1
      (?s1\<lparr>ls_state := h', ls_log := [(0, Direction_Output 3 1, h1, 0), (1, Gpio_Set 3 1, h2, 0)]\<rparr>)"
    using set_call_reach [of ?s1 1 "Gpio_Set 3 1" reg_bus gpio0 "g_ioaddr gpio0" 3 1 "\<lambda>h. h"]
    by (auto simp: lock_sys0_def gpio_valid_def fun_eq_iff)
  with s1 have "(gpio_step reg_bus (\<lambda>h. h) gpio0)\<^sup>*\<^sup>* ?s0
      (?s1\<lparr>ls_state := h', ls_log := [(0, Direction_Output 3 1, h1, 0), (1, Gpio_Set 3 1, h2, 0)]\<rparr>)" by (rule rtranclp_trans)
  then show ?thesis
    by (intro exI [of _ "?s1\<lparr>ls_state := h', ls_log := [(0, Direction_Output 3 1, h1, 0), (1, Gpio_Set 3 1, h2, 0)]\<rparr>"] exI [of _ h1] exI [of _ h2])
      simp
qed

theorem gpio_calls_serialise_witness:
  "\<exists>s. (gpio_step reg_bus (\<lambda>h. h) gpio0)\<^sup>*\<^sup>* (lock_sys0 (\<lambda>_. 0)) s \<and>
     bit (ls_state s (g_ioaddr gpio0)) 3 \<and> bit (ls_state s (g_ioaddr gpio0 + 8)) 3 \<and> \<not> bit (ls_state s (g_ioaddr gpio0)) 4"
proof -
  obtain s h1 h2 where s: "(gpio_step reg_bus (\<lambda>h. h) gpio0)\<^sup>*\<^sup>* (lock_sys0 (\<lambda>_. 0)) s"
    and log: "ls_log s = [(0, Direction_Output 3 1, h1, 0), (1, Gpio_Set 3 1, h2, 0)]" using gpio_example by blast
  show ?thesis
    using s gpio_calls_serialise [OF reg_bus_law s] by (intro exI [of _ s]) (simp add: log)
qed

text \<open>A thread has taken the mutex and not yet given it back.\<close>

theorem gpio_mutex_freed_witness:
  "\<exists>s. (gpio_step reg_bus (\<lambda>h. h) gpio0)\<^sup>*\<^sup>* (lock_sys0 (\<lambda>_. 0)) s \<and> ls_lock s = Some 0 \<and>
     (\<exists>n \<le> 3. \<exists>s'. own_moves (gpio_code reg_bus gpio0) gpio_decided 0 n s = Some s' \<and> ls_lock s' = None)"
proof -
  let ?s0 = "lock_sys0 (\<lambda>_. 0) :: (addr \<Rightarrow> u32, gpio_call, gpio_point, int) lock_sys"
  let ?s1 = "?s0\<lparr>ls_thread := (ls_thread ?s0)(0 := L_At (Gpio_Get 3) G_Entry)\<rparr>"
  let ?s2 = "?s1\<lparr>ls_lock := Some 0, ls_thread := (ls_thread ?s1)(0 := L_At (Gpio_Get 3) G_Locked)\<rparr>"
  have "gpio_step reg_bus (\<lambda>h. h) gpio0 ?s0 ?s1" by (rule lock_step.Enter) (simp_all add: lock_sys0_def gpio_valid_def)
  moreover have "gpio_step reg_bus (\<lambda>h. h) gpio0 ?s1 ?s2"
    by (rule lock_step.Move [where t = 0]) (simp add: thread_move_def lock_sys0_def)
  ultimately have reach: "(gpio_step reg_bus (\<lambda>h. h) gpio0)\<^sup>*\<^sup>* ?s0 ?s2" by (meson converse_rtranclp_into_rtranclp r_into_rtranclp)
  have "ls_lock ?s2 = Some 0" by simp
  then show ?thesis using reach gpio_mutex_freed [OF reg_bus_law reach] by blast
qed

theorem gpio_code_run_witness:
  "ccat_gpio_direction_input reg_bus gpio0 3 (\<lambda>_. 0) =
     Inr (the (run_code (gpio_code reg_bus gpio0) 5 (Direction_Input 3) G_Entry (\<lambda>_. 0)))"
proof -
  have "(3 :: nat) < 64" by simp
  from gpio_code_run [OF this, of reg_bus gpio0 "\<lambda>_. 0" 0] show ?thesis by blast
qed

end
