(* ===== verification/Ccat_Eth_Probe.thy ===== *)
theory Ccat_Eth_Probe
  imports Ccat_Netdev Ccat_Replug
begin

text \<open>
  Bringing the network device up and down (\<^verbatim>\<open>src/netdev.c\<close>, lines 226 to 281, 445 to 536 and 793 to
  929): the DMA memory and its alignment, the register addresses, probe and remove of the DMA and
  the EIM variant, and the module's driver registration.

  The kernel's resources the probe takes are the record \<open>eth_kernel\<close>; its answers are the parameter
  \<open>eth_env\<close>: the CPU and the device address of the \<open>n\<close>-th coherent allocation (either is 0 when the
  kernel has none to give), whether \<open>alloc_etherdev\<close> succeeds, and the status of \<open>register_netdev\<close>.
\<close>

section \<open>Kernel resources\<close>

record eth_kernel =
  ek_dma :: "(addr \<times> u64 \<times> nat) list"
  ek_dma_calls :: nat
  ek_netdevs :: nat
  ek_registered :: nat

record eth_env =
  ee_dma :: "nat \<Rightarrow> addr \<times> u64"
  ee_alloc :: bool
  ee_register :: int

definition dma_alloc_coherent :: "eth_env \<Rightarrow> nat \<Rightarrow> eth_kernel \<Rightarrow> (addr \<times> u64) \<times> eth_kernel" where
  "dma_alloc_coherent env sz k =
     (let (base, phys) = ee_dma env (ek_dma_calls k); k = k\<lparr>ek_dma_calls := Suc (ek_dma_calls k)\<rparr>
      in ((base, phys), if base = 0 then k else k\<lparr>ek_dma := (base, phys, sz) # ek_dma k\<rparr>))"

definition dma_free_coherent :: "nat \<Rightarrow> addr \<Rightarrow> u64 \<Rightarrow> eth_kernel \<Rightarrow> eth_kernel" where
  "dma_free_coherent sz base phys k = k\<lparr>ek_dma := remove1 (base, phys, sz) (ek_dma k)\<rparr>"

section \<open>DMA memory\<close>

definition zero_dma_mem :: ccat_dma_mem where
  "zero_dma_mem = \<lparr>dm_size = 0, dm_phys = 0, dm_dev = 0, dm_base = 0\<rparr>"

definition ccat_dma_free :: "ccat_dma_mem \<Rightarrow> eth_kernel \<Rightarrow> ccat_dma_mem \<times> eth_kernel" where
  "ccat_dma_free d k =
     (if dm_base d \<noteq> 0 then (zero_dma_mem, dma_free_coherent (dm_size d) (dm_base d) (dm_phys d) k) else (d, k))"

text \<open>\<open>PTR_ALIGN(phys, CCAT_ALIGNMENT)\<close>.\<close>

definition ccat_align :: "u64 \<Rightarrow> u64" where
  "ccat_align phys = (phys + (of_nat CCAT_ALIGNMENT - 1)) AND NOT (of_nat CCAT_ALIGNMENT - 1)"

text \<open>The two words of the device's address register: bit 0 of the low one enables 64-bit mode.\<close>

definition dma_addr_words :: "u64 \<Rightarrow> u32 \<times> u32" where
  "dma_addr_words phys =
     (let phys_hi = ucast (drop_bit 32 phys) :: u32
      in (ucast phys OR (if phys_hi > 0 then 1 else 0), phys_hi))"

text \<open>
  \<open>add\<close> is the \<open>add\<close> member of the fifo's operation table and \<open>pdev\<close> the address of the PCI device's
  \<open>struct device\<close>. The message at the end reads both address registers back.
\<close>

definition ccat_dma_init ::
  "eth_env \<Rightarrow> 'h mmio \<Rightarrow> ('o ccat_eth_fifo \<Rightarrow> 'h machine \<Rightarrow> 'h machine) \<Rightarrow> addr \<Rightarrow> u8 \<Rightarrow> addr \<Rightarrow> 'o ccat_eth_fifo \<Rightarrow>
     eth_kernel \<Rightarrow> 'h machine \<Rightarrow> int \<times> 'o ccat_eth_fifo \<times> eth_kernel \<times> 'h machine" where
  "ccat_dma_init env hw add pdev channel bar2 f k m =
     (let sz = 2 * CCAT_ALIGNMENT - 1;
          ((base, phys), k) = dma_alloc_coherent env sz k;
          f = f\<lparr>f_dma_mem := \<lparr>dm_size = sz, dm_phys = phys, dm_dev = pdev, dm_base = base\<rparr>\<rparr>
      in if base = 0 \<or> phys = 0 then (- ENOMEM, f, k, m)
         else
           let ioaddr = bar2 + 0x1000 + 8 * unat channel;
               aligned = ccat_align phys;
               (lo, hi) = dma_addr_words aligned;
               f = f\<lparr>f_start := base + unat (aligned - phys)\<rparr>;
               (f, m) = fifo_set_end add hw CCAT_ALIGNMENT f m;
               m = io_write32 hw lo ioaddr m;
               m = io_write32 hw hi (ioaddr + 4) m;
               h = snd (ioread32 hw (ioaddr + 4) (dev m));
               h = snd (ioread32 hw ioaddr h)
           in (0, f, k, m\<lparr>dev := h\<rparr>))"

section \<open>Private data\<close>

definition ccat_eth_priv_free ::
  "'h mmio \<Rightarrow> ccat_eth_priv \<Rightarrow> eth_kernel \<Rightarrow> 'h machine \<Rightarrow> ccat_eth_priv \<times> eth_kernel \<times> 'h machine" where
  "ccat_eth_priv_free hw p k m =
     (let m = ccat_eth_fifo_hw_reset hw (p_rx_fifo p) m;
          m = ccat_eth_fifo_hw_reset hw (p_tx_fifo p) m;
          (d, k) = ccat_dma_free (f_dma_mem (p_rx_fifo p)) k;
          p = on_rx (\<lambda>f. f\<lparr>f_dma_mem := d\<rparr>) p;
          (d, k) = ccat_dma_free (f_dma_mem (p_tx_fifo p)) k;
          p = on_tx (\<lambda>f. f\<lparr>f_dma_mem := d\<rparr>) p
      in (p, k, m))"

definition ccat_hw_disable_mac_filter :: "'h mmio \<Rightarrow> ccat_eth_priv \<Rightarrow> 'h machine \<Rightarrow> int \<times> 'h machine" where
  "ccat_hw_disable_mac_filter hw p m = (0, m\<lparr>dev := iowrite8 hw 0 (reg_mii (p_reg p) + 0x8 + 6) (dev m)\<rparr>)"

definition ccat_eth_priv_init_dma ::
  "eth_env \<Rightarrow> 'h mmio \<Rightarrow> addr \<Rightarrow> ccat_eth_priv \<Rightarrow> eth_kernel \<Rightarrow> 'h machine \<Rightarrow>
     int \<times> ccat_eth_priv \<times> eth_kernel \<times> 'h machine" where
  "ccat_eth_priv_init_dma env hw pdev p k m =
     (let bar_2 = bar_2 (func_ccat (p_func p));
          rx_chan = rx_dma_chan (func_info (p_func p));
          tx_chan = tx_dma_chan (func_info (p_func p));
          p = on_rx (\<lambda>f. f\<lparr>f_ops := Dma_Rx\<rparr>) p;
          (status, f, k, m) = ccat_dma_init env hw (rx_add hw) pdev rx_chan bar_2 (p_rx_fifo p) k m;
          p = p\<lparr>p_rx_fifo := f\<rparr>
      in if status \<noteq> 0 then (status, p, k, m)
         else
           let p = on_tx (\<lambda>f. f\<lparr>f_ops := Dma_Tx\<rparr>) p;
               (status, f, k, m) = ccat_dma_init env hw tx_add pdev tx_chan bar_2 (p_tx_fifo p) k m;
               p = p\<lparr>p_tx_fifo := f\<rparr>
           in if status \<noteq> 0 then
                let (d, k) = ccat_dma_free (f_dma_mem (p_rx_fifo p)) k
                in (status, on_rx (\<lambda>f. f\<lparr>f_dma_mem := d\<rparr>) p, k, m)
              else
                let (status, m) = ccat_hw_disable_mac_filter hw p m in (status, p, k, m))"

definition ccat_eth_priv_init_eim :: "'h mmio \<Rightarrow> ccat_eth_priv \<Rightarrow> 'h machine \<Rightarrow> int \<times> ccat_eth_priv \<times> 'h machine" where
  "ccat_eth_priv_init_eim hw p m =
     (let p = on_rx (\<lambda>f. f\<lparr>f_start := reg_rx_mem (p_reg p), f_ops := Eim_Rx\<rparr>) p;
          (f, m) = fifo_set_end (rx_add hw) hw sizeof_eth_frame (p_rx_fifo p) m;
          p = p\<lparr>p_rx_fifo := f\<rparr>;
          p = on_tx (\<lambda>f. f\<lparr>f_start := reg_tx_mem (p_reg p), f_ops := Eim_Tx\<rparr>) p;
          (f, m) = fifo_set_end tx_add hw (unat (tx_size (func_info (p_func p)))) (p_tx_fifo p) m;
          p = p\<lparr>p_tx_fifo := f\<rparr>;
          (status, m) = ccat_hw_disable_mac_filter hw p m
      in (status, p, m))"

text \<open>\<open>struct ccat_mac_infoblock\<close>: seven 32-bit words, the first one reserved.\<close>

record ccat_mac_infoblock =
  off_mii :: u32
  off_tx_fifo :: u32
  off_mac :: u32
  off_rx_mem :: u32
  off_tx_mem :: u32
  off_misc :: u32

definition sizeof_mac_infoblock :: nat where "sizeof_mac_infoblock = 28"

definition mac_infoblock_of_bytes :: "u8 list \<Rightarrow> ccat_mac_infoblock" where
  "mac_infoblock_of_bytes bs =
     \<lparr>off_mii = le_word (field bs 4 4), off_tx_fifo = le_word (field bs 8 4), off_mac = le_word (field bs 12 4),
      off_rx_mem = le_word (field bs 16 4), off_tx_mem = le_word (field bs 20 4), off_misc = le_word (field bs 24 4)\<rparr>"

definition ccat_eth_priv_init_reg :: "'h mmio \<Rightarrow> ccat_eth_priv \<Rightarrow> 'h machine \<Rightarrow> ccat_eth_priv \<times> 'h machine" where
  "ccat_eth_priv_init_reg hw p m =
     (let base = func_base (p_func p);
          (bs, h) = memcpy_fromio hw base sizeof_mac_infoblock (dev m);
          offsets = mac_infoblock_of_bytes bs
      in (p\<lparr>p_reg := \<lparr>reg_mii = base + unat (off_mii offsets), reg_mac = base + unat (off_mac offsets),
                      reg_rx_mem = base + unat (off_rx_mem offsets), reg_tx_mem = base + unat (off_tx_mem offsets),
                      reg_misc = base + unat (off_misc offsets)\<rparr>,
            p_tx_fifo := (p_tx_fifo p)\<lparr>f_reg := base + unat (off_tx_fifo offsets)\<rparr>,
            p_rx_fifo := (p_rx_fifo p)\<lparr>f_reg := base + unat (off_tx_fifo offsets) + 0x10\<rparr>\<rparr>, m\<lparr>dev := h\<rparr>))"

text \<open>
  A zeroed fifo. Its null operation table is never called through before the initialisation sets
  it; the model has no null table and takes the one the initialisation may choose.
\<close>

definition zero_fifo :: "'o \<Rightarrow> 'o ccat_eth_fifo" where
  "zero_fifo ops = \<lparr>f_ops = ops, f_end = 0, f_reg = 0, f_bytes = 0, f_dropped = 0, f_dma_mem = zero_dma_mem,
                    f_next = 0, f_start = 0\<rparr>"

definition ccat_eth_alloc_netdev ::
  "eth_env \<Rightarrow> 'h mmio \<Rightarrow> ccat_function \<Rightarrow> eth_kernel \<Rightarrow> 'h machine \<Rightarrow> ccat_eth_priv option \<times> eth_kernel \<times> 'h machine" where
  "ccat_eth_alloc_netdev env hw func k m =
     (if ee_alloc env then
        let netdev = \<lparr>nd_stopped = False, nd_carrier = True, nd_rx = [], nd_freed = [], nd_allocs = 0, nd_addr = replicate 6 0\<rparr>;
            reg = \<lparr>reg_mii = 0, reg_mac = 0, reg_rx_mem = 0, reg_tx_mem = 0, reg_misc = 0\<rparr>;
            p = \<lparr>p_func = func, p_netdev = netdev, p_reg = reg, p_rx_fifo = zero_fifo Dma_Rx,
                 p_tx_fifo = zero_fifo Dma_Tx, p_timer = False\<rparr>;
            (p, m) = ccat_eth_priv_init_reg hw p m
        in (Some p, k\<lparr>ek_netdevs := Suc (ek_netdevs k)\<rparr>, m)
      else (None, k, m))"

definition free_netdev :: "eth_kernel \<Rightarrow> eth_kernel" where
  "free_netdev k = k\<lparr>ek_netdevs := ek_netdevs k - 1\<rparr>"

definition register_netdev :: "eth_env \<Rightarrow> eth_kernel \<Rightarrow> int \<times> eth_kernel" where
  "register_netdev env k =
     (ee_register env, if ee_register env = 0 then k\<lparr>ek_registered := Suc (ek_registered k)\<rparr> else k)"

definition unregister_netdev :: "eth_kernel \<Rightarrow> eth_kernel" where
  "unregister_netdev k = k\<lparr>ek_registered := ek_registered k - 1\<rparr>"

text \<open>Neither a multicast address nor all zero.\<close>

definition is_valid_ether_addr :: "u8 list \<Rightarrow> bool" where
  "is_valid_ether_addr a \<longleftrightarrow> \<not> odd (unat (a ! 0)) \<and> a \<noteq> replicate 6 0"

text \<open>The last component is the function's \<open>private_data\<close> afterwards.\<close>

definition ccat_eth_init_netdev ::
  "eth_env \<Rightarrow> 'h mmio \<Rightarrow> ccat_eth_priv \<Rightarrow> eth_kernel \<Rightarrow> 'h machine \<Rightarrow>
     int \<times> ccat_eth_priv option \<times> eth_kernel \<times> 'h machine" where
  "ccat_eth_init_netdev env hw p k m =
     (let (mac_addr, h) = memcpy_fromio hw (reg_mii (p_reg p) + 8) 6 (dev m); m = m\<lparr>dev := h\<rparr>
      in if \<not> is_valid_ether_addr mac_addr then (- EADDRNOTAVAIL, None, k, m)
         else
           let p = on_netdev (\<lambda>d. d\<lparr>nd_addr := mac_addr\<rparr>) p;
               p = on_netdev netif_carrier_off p;
               (status, k) = register_netdev env k
           in if status \<noteq> 0 then
                let (p, k, m) = ccat_eth_priv_free hw p k m in (status, None, free_netdev k, m)
              else (0, Some p, k, m))"

definition ccat_eth_dma_probe ::
  "eth_env \<Rightarrow> 'h mmio \<Rightarrow> addr \<Rightarrow> ccat_function \<Rightarrow> eth_kernel \<Rightarrow> 'h machine \<Rightarrow>
     int \<times> ccat_eth_priv option \<times> eth_kernel \<times> 'h machine" where
  "ccat_eth_dma_probe env hw pdev func k m =
     (case ccat_eth_alloc_netdev env hw func k m of
        (None, k, m) \<Rightarrow> (- ENOMEM, None, k, m)
      | (Some p, k, m) \<Rightarrow>
          let (status, p, k, m) = ccat_eth_priv_init_dma env hw pdev p k m
          in if status \<noteq> 0 then (status, None, free_netdev k, m)
             else ccat_eth_init_netdev env hw p k m)"

definition ccat_eth_eim_probe ::
  "eth_env \<Rightarrow> 'h mmio \<Rightarrow> ccat_function \<Rightarrow> eth_kernel \<Rightarrow> 'h machine \<Rightarrow>
     int \<times> ccat_eth_priv option \<times> eth_kernel \<times> 'h machine" where
  "ccat_eth_eim_probe env hw func k m =
     (case ccat_eth_alloc_netdev env hw func k m of
        (None, k, m) \<Rightarrow> (- ENOMEM, None, k, m)
      | (Some p, k, m) \<Rightarrow>
          let (status, p, m) = ccat_eth_priv_init_eim hw p m
          in if status \<noteq> 0 then (status, None, free_netdev k, m)
             else ccat_eth_init_netdev env hw p k m)"

text \<open>Both remove functions have the same body; it follows the function's \<open>private_data\<close>.\<close>

definition ccat_eth_remove ::
  "'h mmio \<Rightarrow> ccat_eth_priv option \<Rightarrow> eth_kernel \<Rightarrow> 'h machine \<Rightarrow> (eth_kernel \<times> 'h machine) exec" where
  "ccat_eth_remove hw private_data k m =
     (case private_data of
        None \<Rightarrow> Inl NullDeref
      | Some p \<Rightarrow>
          let k = unregister_netdev k; (p, k, m) = ccat_eth_priv_free hw p k m
          in Inr (free_netdev k, m))"

definition ccat_eth_dma_remove ::
  "'h mmio \<Rightarrow> ccat_eth_priv option \<Rightarrow> eth_kernel \<Rightarrow> 'h machine \<Rightarrow> (eth_kernel \<times> 'h machine) exec" where
  "ccat_eth_dma_remove = ccat_eth_remove"

definition ccat_eth_eim_remove ::
  "'h mmio \<Rightarrow> ccat_eth_priv option \<Rightarrow> eth_kernel \<Rightarrow> 'h machine \<Rightarrow> (eth_kernel \<times> 'h machine) exec" where
  "ccat_eth_eim_remove = ccat_eth_remove"

section \<open>Module init and exit\<close>

text \<open>The registered platform drivers by name; \<open>reg\<close> is the status \<open>platform_driver_register\<close> returns.\<close>

definition platform_driver_register :: "(string \<Rightarrow> int) \<Rightarrow> string \<Rightarrow> string list \<Rightarrow> int \<times> string list" where
  "platform_driver_register reg nm ds = (reg nm, if reg nm = 0 then nm # ds else ds)"

definition platform_driver_unregister :: "string \<Rightarrow> string list \<Rightarrow> string list" where
  "platform_driver_unregister nm ds = remove1 nm ds"

definition ccat_eth_init :: "(string \<Rightarrow> int) \<Rightarrow> string list \<Rightarrow> int \<times> string list" where
  "ccat_eth_init reg ds =
     (let (result, ds) = platform_driver_register reg ''ccat_eth_eim'' ds
      in if result \<noteq> 0 then (result, ds) else platform_driver_register reg ''ccat_eth_dma'' ds)"

definition ccat_eth_exit :: "string list \<Rightarrow> string list" where
  "ccat_eth_exit ds =
     platform_driver_unregister ''ccat_eth_dma'' (platform_driver_unregister ''ccat_eth_eim'' ds)"

section \<open>Alignment\<close>

lemma unat_and_not_mask:
  fixes x :: "'a::len word"
  assumes "n < LENGTH('a)"
  shows "unat (x AND NOT (mask n)) = unat x div 2 ^ n * 2 ^ n"
proof -
  have "x AND NOT (mask n) = push_bit n (drop_bit n x)"
    by (rule bit_eqI) (auto simp: bit_and_iff bit_not_iff bit_mask_iff bit_push_bit_iff bit_drop_bit_eq)
  also have "\<dots> = of_nat (unat x div 2 ^ n * 2 ^ n)"
  proof -
    have "unat (2 ^ n :: 'a word) = 2 ^ n" using assms unat_of_nat_small [where 'a = 'a, of "2 ^ n"] by simp
    then have "of_nat (unat x div 2 ^ n) = x div 2 ^ n" by (simp add: word_arith_nat_div [of x])
    then show ?thesis by (simp add: push_bit_eq_mult drop_bit_eq_div)
  qed
  finally show ?thesis
    using le_less_trans [OF div_times_less_eq_dividend unsigned_less, of x "2 ^ n"]
    by (metis unat_of_nat_small)
qed

lemma ccat_align_eq:
  assumes "unat phys + 0x1FFFF < 2 ^ 64"
  shows "unat (ccat_align phys) = (unat phys + 0x1FFFF) div 0x20000 * 0x20000"
proof -
  have "ccat_align phys = (phys + 0x1FFFF) AND NOT (mask 17)"
    by (simp add: ccat_align_def CCAT_ALIGNMENT_def mask_eq_exp_minus_1)
  moreover have "unat (phys + 0x1FFFF) = unat phys + 0x1FFFF"
    using assms by (simp add: unat_word_ariths)
  ultimately show ?thesis by (simp add: unat_and_not_mask)
qed

lemma ccat_align_bounds:
  assumes "unat phys + 0x1FFFF < 2 ^ 64"
  shows "unat phys \<le> unat (ccat_align phys)" and "unat (ccat_align phys) \<le> unat phys + 0x1FFFF"
    and "CCAT_ALIGNMENT dvd unat (ccat_align phys)" and "unat (ccat_align phys - phys) = unat (ccat_align phys) - unat phys"
proof -
  show le: "unat phys \<le> unat (ccat_align phys)" and "unat (ccat_align phys) \<le> unat phys + 0x1FFFF"
    and "CCAT_ALIGNMENT dvd unat (ccat_align phys)"
    using ccat_align_eq [OF assms] by (simp_all add: CCAT_ALIGNMENT_def)
  show "unat (ccat_align phys - phys) = unat (ccat_align phys) - unat phys"
    using le by (simp add: unat_sub word_le_nat_alt)
qed

section \<open>The DMA window\<close>

lemma fifo_set_end_dma:
  fixes f :: "'o ccat_eth_fifo"
  assumes "fifo_set_end add hw CCAT_ALIGNMENT f m = (f', m')"
  shows "f' = f\<lparr>f_end := f_start f + (CCAT_ALIGNMENT - sizeof_eth_frame), f_next := f_start f\<rparr>"
    and "ccat_eth_fifo_reset add hw (f\<lparr>f_end := f_start f + (CCAT_ALIGNMENT - sizeof_eth_frame)\<rparr>) m = (f', m')"
proof -
  have e: "f_start f + CCAT_ALIGNMENT - sizeof_eth_frame = f_start f + (CCAT_ALIGNMENT - sizeof_eth_frame)"
    by (simp add: CCAT_ALIGNMENT_def layout)
  show r: "ccat_eth_fifo_reset add hw (f\<lparr>f_end := f_start f + (CCAT_ALIGNMENT - sizeof_eth_frame)\<rparr>) m = (f', m')"
    using assms by (simp only: fifo_set_end_def e)
  show "f' = f\<lparr>f_end := f_start f + (CCAT_ALIGNMENT - sizeof_eth_frame), f_next := f_start f\<rparr>"
    using r by (simp add: fifo_reset_eq)
qed

lemma dma_init_cases:
  assumes "ccat_dma_init env hw add pdev chan bar2 f k m = (st, f', k', m')"
    and "ee_dma env (ek_dma_calls k) = (base, phys)"
  defines "d \<equiv> \<lparr>dm_size = 2 * CCAT_ALIGNMENT - 1, dm_phys = phys, dm_dev = pdev, dm_base = base\<rparr>"
  obtains (fail) "base = 0 \<or> phys = 0" "st = - ENOMEM" "f' = f\<lparr>f_dma_mem := d\<rparr>" "m' = m"
      "k' = snd (dma_alloc_coherent env (2 * CCAT_ALIGNMENT - 1) k)"
    | (ok) start m1 h where "base \<noteq> 0" "phys \<noteq> 0" "st = 0" "start = base + unat (ccat_align phys - phys)"
      "fifo_set_end add hw CCAT_ALIGNMENT (f\<lparr>f_dma_mem := d, f_start := start\<rparr>) m = (f', m1)"
      "m' = m1\<lparr>dev := h\<rparr>"
      "k' = k\<lparr>ek_dma_calls := Suc (ek_dma_calls k), ek_dma := (base, phys, 2 * CCAT_ALIGNMENT - 1) # ek_dma k\<rparr>"
proof (cases "base = 0 \<or> phys = 0")
  case True
  then show thesis
    using assms(1,2) by (intro fail) (auto simp: ccat_dma_init_def dma_alloc_coherent_def d_def Let_def)
next
  case False
  let ?start = "base + unat (ccat_align phys - phys)"
  obtain f1 m1 where s: "fifo_set_end add hw CCAT_ALIGNMENT (f\<lparr>f_dma_mem := d, f_start := ?start\<rparr>) m = (f1, m1)" by fastforce
  obtain lo hi where w: "dma_addr_words (ccat_align phys) = (lo, hi)" by fastforce
  have r: "st = 0 \<and> f' = f1 \<and> (\<exists>h. m' = m1\<lparr>dev := h\<rparr>) \<and>
      k' = k\<lparr>ek_dma_calls := Suc (ek_dma_calls k), ek_dma := (base, phys, 2 * CCAT_ALIGNMENT - 1) # ek_dma k\<rparr>"
    using assms(1,2) False s w by (auto simp: ccat_dma_init_def dma_alloc_coherent_def d_def io_write32_def Let_def)
  then obtain h where "m' = m1\<lparr>dev := h\<rparr>" by blast
  with r False s show thesis by (intro ok [of ?start m1 h]) simp_all
qed

lemma dma_init_ring:
  assumes "ccat_dma_init env hw add pdev chan bar2 f k m = (0, f', k', m')"
    and "ee_dma env (ek_dma_calls k) = (base, phys)"
  shows "f_start f' = base + unat (ccat_align phys - phys)" and "nslots f' = FIFO_LENGTH" and "ring_wf f'"
    and "f_ops f' = f_ops f" and "f_reg f' = f_reg f"
    and "f_dma_mem f' = \<lparr>dm_size = 2 * CCAT_ALIGNMENT - 1, dm_phys = phys, dm_dev = pdev, dm_base = base\<rparr>"
    and "k' = k\<lparr>ek_dma_calls := Suc (ek_dma_calls k), ek_dma := (base, phys, 2 * CCAT_ALIGNMENT - 1) # ek_dma k\<rparr>"
    and "base \<noteq> 0" and "phys \<noteq> 0"
proof -
  have "f_start f' = base + unat (ccat_align phys - phys) \<and> nslots f' = FIFO_LENGTH \<and> ring_wf f' \<and>
    f_ops f' = f_ops f \<and> f_reg f' = f_reg f \<and>
    f_dma_mem f' = \<lparr>dm_size = 2 * CCAT_ALIGNMENT - 1, dm_phys = phys, dm_dev = pdev, dm_base = base\<rparr> \<and>
    k' = k\<lparr>ek_dma_calls := Suc (ek_dma_calls k), ek_dma := (base, phys, 2 * CCAT_ALIGNMENT - 1) # ek_dma k\<rparr> \<and>
    base \<noteq> 0 \<and> phys \<noteq> 0"
    using assms
  proof (cases rule: dma_init_cases)
    case fail
    then show ?thesis by simp
  next
    case (ok start m1 h)
    then show ?thesis
      using fifo_set_end_dma(1) [OF ok(5)] by (simp add: nslots_def ring_wf_def CCAT_ALIGNMENT_def FIFO_LENGTH_def layout)
  qed
  then show "f_start f' = base + unat (ccat_align phys - phys)" "nslots f' = FIFO_LENGTH" "ring_wf f'"
    "f_ops f' = f_ops f" "f_reg f' = f_reg f"
    "f_dma_mem f' = \<lparr>dm_size = 2 * CCAT_ALIGNMENT - 1, dm_phys = phys, dm_dev = pdev, dm_base = base\<rparr>"
    "k' = k\<lparr>ek_dma_calls := Suc (ek_dma_calls k), ek_dma := (base, phys, 2 * CCAT_ALIGNMENT - 1) # ek_dma k\<rparr>"
    "base \<noteq> 0" "phys \<noteq> 0" by blast+
qed

text \<open>C25: the DMA ring that \<open>ccat_dma_init\<close> sets up has 64 slots, lies inside the memory the kernel
  allocated, and the device address of its start is aligned to 128 KiB, wherever the kernel placed
  the allocation.\<close>

theorem dma_window:
  assumes "ccat_dma_init env hw add pdev chan bar2 f k m = (0, f', k', m')"
    and "ee_dma env (ek_dma_calls k) = (base, phys)"
    and "unat phys + (2 * CCAT_ALIGNMENT - 1) \<le> 2 ^ 64"
  shows "nslots f' = FIFO_LENGTH \<and> ring_wf f' \<and> base \<le> f_start f' \<and>
    f_start f' + FIFO_LENGTH * sizeof_eth_frame \<le> base + (2 * CCAT_ALIGNMENT - 1) \<and>
    CCAT_ALIGNMENT dvd unat phys + (f_start f' - base)"
proof -
  have p: "unat phys + 0x1FFFF < 2 ^ 64" using assms(3) by (simp add: CCAT_ALIGNMENT_def)
  note a = ccat_align_bounds [OF p]
  note r = dma_init_ring [OF assms(1,2)]
  have off: "f_start f' - base = unat (ccat_align phys) - unat phys" using r(1) a(4) by simp
  have "f_start f' - base \<le> 0x1FFFF" using a(2) off by linarith
  then have "f_start f' + FIFO_LENGTH * sizeof_eth_frame \<le> base + (2 * CCAT_ALIGNMENT - 1)"
    by (simp add: CCAT_ALIGNMENT_def FIFO_LENGTH_def layout)
  moreover have "CCAT_ALIGNMENT dvd unat phys + (f_start f' - base)" using a(1,3) by (simp add: off)
  ultimately show ?thesis using r(1-3) by simp
qed

text \<open>C38: the two words written to the device's address register encode the aligned address: the low
  word without its flag bit and the high word give the address back, and the flag that selects
  64-bit mode is set exactly for addresses of 4 GiB and above.\<close>

theorem dma_addr_words_decode:
  assumes "CCAT_ALIGNMENT dvd unat phys" and "dma_addr_words phys = (lo, hi)"
  shows "unat (lo AND NOT 1) + 2 ^ 32 * unat hi = unat phys \<and> (bit lo 0 \<longleftrightarrow> 2 ^ 32 \<le> unat phys)"
proof -
  have hi: "hi = ucast (drop_bit 32 phys)" and lo: "lo = ucast phys OR (if hi > 0 then 1 else 0)"
    using assms(2) by (auto simp: dma_addr_words_def Let_def)
  have even: "even (unat phys)" using assms(1) by (rule dvd_trans [rotated]) (simp add: CCAT_ALIGNMENT_def)
  have "bit (unat phys) 0 = bit phys 0" by (simp only: bit_unsigned_iff) simp
  then have "\<not> bit phys 0" using even by (simp only: bit_0) simp
  then have b0: "\<not> bit (ucast phys :: u32) 0" by (simp only: bit_unsigned_iff) simp
  have "lo AND NOT 1 = ucast phys"
    using b0 by (intro bit_eqI) (auto simp: lo bit_and_iff bit_or_iff bit_not_iff bit_1_iff intro!: gr0I)
  moreover have "unat (ucast phys :: u32) = unat phys mod 2 ^ 32"
    by (simp add: unsigned_ucast_eq take_bit_eq_mod)
  moreover have u: "unat hi = unat phys div 2 ^ 32"
  proof -
    have "unat (drop_bit 32 phys) = unat phys div 2 ^ 32" by (simp add: drop_bit_eq_div unat_div)
    moreover have "unat phys div 2 ^ 32 < 2 ^ 32" using unsigned_less [of phys, where 'a = nat] by simp
    ultimately show ?thesis by (simp add: hi unsigned_ucast_eq take_bit_nat_eq_self_iff)
  qed
  moreover have "bit lo 0 \<longleftrightarrow> hi > 0" using b0 by (simp add: lo bit_or_iff)
  moreover have "hi > 0 \<longleftrightarrow> 2 ^ 32 \<le> unat phys" using u by (simp add: word_gt_0 div_greater_zero_iff flip: unat_eq_0)
  ultimately show ?thesis by simp
qed

section \<open>Probe establishes the device's invariant\<close>

definition probe_kernel0 :: eth_kernel where
  "probe_kernel0 = \<lparr>ek_dma = [], ek_dma_calls = 0, ek_netdevs = 0, ek_registered = 0\<rparr>"

text \<open>An example environment: the two allocations are at CPU addresses 0x100000 and 0x200000.\<close>

definition probe_env0 :: eth_env where
  "probe_env0 = \<lparr>ee_dma = (\<lambda>n. if n = 0 then (0x100000, 0x7654321) else (0x200000, 0x123456789)),
     ee_alloc = True, ee_register = 0\<rparr>"

theorem dma_window_witness:
  "\<exists>f' k' m'. ccat_dma_init probe_env0 ram_bus tx_add 1 0 0x8000 (zero_fifo Dma_Tx) probe_kernel0 (machine0 0) = (0, f', k', m') \<and>
     nslots f' = FIFO_LENGTH \<and> 0x100000 \<le> f_start f' \<and> f_start f' + FIFO_LENGTH * sizeof_eth_frame \<le> 0x13FFFF"
proof -
  obtain st f' k' m' where run: "ccat_dma_init probe_env0 ram_bus tx_add 1 0 0x8000 (zero_fifo Dma_Tx) probe_kernel0 (machine0 0) = (st, f', k', m')"
    by (metis prod.collapse)
  have e: "ee_dma probe_env0 (ek_dma_calls probe_kernel0) = (0x100000, 0x7654321)"
    by (simp add: probe_env0_def probe_kernel0_def)
  have "st = 0" using run e by (cases rule: dma_init_cases) simp_all
  then show ?thesis using run dma_window [OF run [unfolded \<open>st = 0\<close>] e] by (simp add: CCAT_ALIGNMENT_def)
qed

theorem dma_addr_words_decode_witness:
  "case dma_addr_words 0x123460000 of (lo, hi) \<Rightarrow> unat (lo AND NOT 1) + 2 ^ 32 * unat hi = 0x123460000"
proof -
  obtain lo hi where w: "dma_addr_words 0x123460000 = (lo, hi)" by fastforce
  have "CCAT_ALIGNMENT dvd unat (0x123460000 :: u64)" by (simp add: CCAT_ALIGNMENT_def)
  from dma_addr_words_decode [OF this w] show ?thesis by (simp add: w)
qed

lemma dma_init_tx:
  assumes "ccat_dma_init env hw tx_add pdev chan bar2 f k m = (0, f', k', m')"
    and "ee_dma env (ek_dma_calls k) = (base, phys)" and "f_ops f = Dma_Tx"
  shows "tx_inv f' m'" and "inflight f' m' = []"
proof -
  have "tx_inv f' m' \<and> inflight f' m' = []"
    using assms(1,2)
  proof (cases rule: dma_init_cases)
    case fail
    then show ?thesis by simp
  next
    case (ok start m1 h)
    have "tx_inv f' m1" "inflight f' m1 = []"
      using assms(3) by (intro tx_reset_inflight [OF _ _ fifo_set_end_dma(2) [OF ok(5)]]; simp)+
    then show ?thesis by (simp add: ok(6))
  qed
  then show "tx_inv f' m'" "inflight f' m' = []" by blast+
qed

lemma inflight_Nil_cursor:
  assumes "ring_wf f" and "inflight f m = []"
  shows "tx_sent f m (cursor f)"
  using assms(2) by (simp add: inflight_def ring_order_Cons [OF assms(1)] split: if_splits)

text \<open>The steps of a successful initialisation of both rings.\<close>

lemma init_dma_steps:
  assumes "ccat_eth_priv_init_dma env hw pdev p k m = (0, p', k', m')"
  obtains f1 k1 m1 f2 m2 h where
    "ccat_dma_init env hw (rx_add hw) pdev (rx_dma_chan (func_info (p_func p))) (bar_2 (func_ccat (p_func p)))
       ((p_rx_fifo p)\<lparr>f_ops := Dma_Rx\<rparr>) k m = (0, f1, k1, m1)"
    "ccat_dma_init env hw tx_add pdev (tx_dma_chan (func_info (p_func p))) (bar_2 (func_ccat (p_func p)))
       ((p_tx_fifo p)\<lparr>f_ops := Dma_Tx\<rparr>) k1 m1 = (0, f2, k', m2)"
    "p' = p\<lparr>p_rx_fifo := f1, p_tx_fifo := f2\<rparr>" "m' = m2\<lparr>dev := h\<rparr>"
proof -
  obtain s1 f1 k1 m1 where r: "ccat_dma_init env hw (rx_add hw) pdev (rx_dma_chan (func_info (p_func p)))
      (bar_2 (func_ccat (p_func p))) ((p_rx_fifo p)\<lparr>f_ops := Dma_Rx\<rparr>) k m = (s1, f1, k1, m1)" by (metis prod.collapse)
  obtain s2 f2 k2 m2 where t: "ccat_dma_init env hw tx_add pdev (tx_dma_chan (func_info (p_func p)))
      (bar_2 (func_ccat (p_func p))) ((p_tx_fifo p)\<lparr>f_ops := Dma_Tx\<rparr>) k1 m1 = (s2, f2, k2, m2)" by (metis prod.collapse)
  have s1: "s1 = 0" using assms r by (auto simp: ccat_eth_priv_init_dma_def Let_def split: if_splits)
  have s2: "s2 = 0" using assms r t s1
    by (auto simp: ccat_eth_priv_init_dma_def ccat_hw_disable_mac_filter_def Let_def split: if_splits prod.splits)
  have "k' = k2 \<and> p' = p\<lparr>p_rx_fifo := f1, p_tx_fifo := f2\<rparr> \<and> (\<exists>h. m' = m2\<lparr>dev := h\<rparr>)"
    using assms r t s1 s2 by (auto simp: ccat_eth_priv_init_dma_def ccat_hw_disable_mac_filter_def Let_def)
  then show thesis using that r t s1 s2 by blast
qed

lemma init_netdev_ok:
  assumes "ccat_eth_init_netdev env hw p k m = (0, Some p', k', m')"
  shows "p_rx_fifo p' = p_rx_fifo p" "p_tx_fifo p' = p_tx_fifo p" "ram m' = ram m"
    "k' = k\<lparr>ek_registered := Suc (ek_registered k)\<rparr>" "nd_stopped (p_netdev p') = nd_stopped (p_netdev p)"
    "is_valid_ether_addr (nd_addr (p_netdev p'))" "\<not> nd_carrier (p_netdev p')"
  using assms by (auto simp: ccat_eth_init_netdev_def register_netdev_def netdev_defs Let_def split: if_splits prod.splits)

lemma alloc_netdev_ok:
  assumes "ccat_eth_alloc_netdev env hw func k m = (Some p, k', m')"
  shows "k' = k\<lparr>ek_netdevs := Suc (ek_netdevs k)\<rparr>" "p_func p = func" "\<not> nd_stopped (p_netdev p)"
    "f_dma_mem (p_rx_fifo p) = zero_dma_mem" "f_dma_mem (p_tx_fifo p) = zero_dma_mem"
  using assms
  by (auto simp: ccat_eth_alloc_netdev_def ccat_eth_priv_init_reg_def zero_fifo_def Let_def split: if_splits prod.splits)

lemma dma_probe_steps:
  assumes "ccat_eth_dma_probe env hw pdev func k m = (0, Some p, k', m')"
  obtains p0 k0 m0 p1 k1 m1 where
    "ccat_eth_alloc_netdev env hw func k m = (Some p0, k0, m0)"
    "ccat_eth_priv_init_dma env hw pdev p0 k0 m0 = (0, p1, k1, m1)"
    "ccat_eth_init_netdev env hw p1 k1 m1 = (0, Some p, k', m')"
proof -
  obtain o0 k0 m0 where a: "ccat_eth_alloc_netdev env hw func k m = (o0, k0, m0)" by (metis prod.collapse)
  obtain p0 where p0: "o0 = Some p0" using assms a by (cases o0) (simp_all add: ccat_eth_dma_probe_def)
  obtain st p1 k1 m1 where i: "ccat_eth_priv_init_dma env hw pdev p0 k0 m0 = (st, p1, k1, m1)" by (metis prod.collapse)
  have "st = 0" using assms a i p0 by (auto simp: ccat_eth_dma_probe_def split: if_splits)
  then show thesis using that a i p0 assms by (simp add: ccat_eth_dma_probe_def)
qed

text \<open>Rings in allocations that do not overlap are apart.\<close>

lemma ring_in_window:
  assumes init: "ccat_dma_init env hw add pdev chan bar2 f k m = (0, f', k', m')"
    and e: "ee_dma env (ek_dma_calls k) = (base, phys)"
    and fit: "unat phys + (2 * CCAT_ALIGNMENT - 1) \<le> 2 ^ 64" and a: "in_ring f' a"
  shows "base \<le> a" and "a < base + (2 * CCAT_ALIGNMENT - 1)"
proof -
  have p: "unat phys + 0x1FFFF < 2 ^ 64" using fit by (simp add: CCAT_ALIGNMENT_def)
  note al = ccat_align_bounds(2,4) [OF p]
  note r = dma_init_ring(1,2) [OF init e]
  have "unat (ccat_align phys - phys) \<le> 0x1FFFF" using al by linarith
  then show "base \<le> a" and "a < base + (2 * CCAT_ALIGNMENT - 1)"
    using a r by (simp_all add: in_ring_def CCAT_ALIGNMENT_def FIFO_LENGTH_def layout)
qed

text \<open>The state a DMA probe leaves.\<close>

lemma dma_probe_inv:
  assumes "ccat_eth_dma_probe env hw pdev func k m = (0, Some p, k', m')"
    and "ee_dma env (ek_dma_calls k) = (base0, phys0)" and "ee_dma env (Suc (ek_dma_calls k)) = (base1, phys1)"
    and "unat phys0 + (2 * CCAT_ALIGNMENT - 1) \<le> 2 ^ 64" and "unat phys1 + (2 * CCAT_ALIGNMENT - 1) \<le> 2 ^ 64"
    and "base0 + (2 * CCAT_ALIGNMENT - 1) \<le> base1 \<or> base1 + (2 * CCAT_ALIGNMENT - 1) \<le> base0"
  shows "eth_inv p m' \<and> nslots (p_rx_fifo p) = FIFO_LENGTH \<and> nslots (p_tx_fifo p) = FIFO_LENGTH \<and>
    inflight (p_tx_fifo p) m' = [] \<and> \<not> nd_carrier (p_netdev p) \<and> is_valid_ether_addr (nd_addr (p_netdev p))"
proof -
  obtain p0 k0 m0 p1 k1 m1 where a: "ccat_eth_alloc_netdev env hw func k m = (Some p0, k0, m0)"
    and i: "ccat_eth_priv_init_dma env hw pdev p0 k0 m0 = (0, p1, k1, m1)"
    and n: "ccat_eth_init_netdev env hw p1 k1 m1 = (0, Some p, k', m')"
    using dma_probe_steps [OF assms(1)] .
  note al = alloc_netdev_ok [OF a] and nd = init_netdev_ok [OF n]
  from i obtain f1 k2 m2 f2 m3 h where
    rx: "ccat_dma_init env hw (rx_add hw) pdev (rx_dma_chan (func_info (p_func p0))) (bar_2 (func_ccat (p_func p0)))
       ((p_rx_fifo p0)\<lparr>f_ops := Dma_Rx\<rparr>) k0 m0 = (0, f1, k2, m2)" and
    tx: "ccat_dma_init env hw tx_add pdev (tx_dma_chan (func_info (p_func p0))) (bar_2 (func_ccat (p_func p0)))
       ((p_tx_fifo p0)\<lparr>f_ops := Dma_Tx\<rparr>) k2 m2 = (0, f2, k1, m3)" and
    p1: "p1 = p0\<lparr>p_rx_fifo := f1, p_tx_fifo := f2\<rparr>" and m1: "m1 = m3\<lparr>dev := h\<rparr>"
    by (rule init_dma_steps)
  have e0: "ee_dma env (ek_dma_calls k0) = (base0, phys0)" using assms(2) al(1) by simp
  note r = dma_init_ring [OF rx e0]
  have e1: "ee_dma env (ek_dma_calls k2) = (base1, phys1)" using assms(3) al(1) r(7) by simp
  note t = dma_init_ring [OF tx e1]
  have inv: "tx_inv f2 m3" "inflight f2 m3 = []" using dma_init_tx [OF tx e1] by simp_all
  have "ram m' = ram m3" using nd(3) m1 by simp
  then have tinv: "tx_inv f2 m'" "inflight f2 m' = []"
    using inv by (simp_all add: tx_inv_def inflight_def tx_sent_def tx_length_def tx_frame_def)
  have apart: "\<not> (in_ring f1 a \<and> in_ring f2 a)" for a
  proof
    assume a: "in_ring f1 a \<and> in_ring f2 a"
    note ring_in_window [OF rx e0 assms(4)] and ring_in_window [OF tx e1 assms(5)]
    with a have "base0 \<le> a \<and> a < base0 + (2 * CCAT_ALIGNMENT - 1) \<and> base1 \<le> a \<and> a < base1 + (2 * CCAT_ALIGNMENT - 1)"
      by blast
    with assms(6) show False by linarith
  qed
  have "tx_sent f2 m' (cursor f2)" by (rule inflight_Nil_cursor [OF t(3) tinv(2)])
  then have "eth_inv p m'"
    using r(3,4) t(2) tinv apart nd(1,2) by (simp add: eth_inv_def rings_apart_def p1 FIFO_LENGTH_def)
  then show ?thesis using r(2) t(2) tinv(2) nd by (simp add: p1)
qed

lemma dma_probe_awake:
  assumes "ccat_eth_dma_probe env hw pdev func k m = (0, Some p, k', m')"
  shows "\<not> nd_stopped (p_netdev p)"
proof -
  obtain p0 k0 m0 p1 k1 m1 where a: "ccat_eth_alloc_netdev env hw func k m = (Some p0, k0, m0)"
    and i: "ccat_eth_priv_init_dma env hw pdev p0 k0 m0 = (0, p1, k1, m1)"
    and n: "ccat_eth_init_netdev env hw p1 k1 m1 = (0, Some p, k', m')"
    using dma_probe_steps [OF assms] .
  from i obtain f1 f2 where "p1 = p0\<lparr>p_rx_fifo := f1, p_tx_fifo := f2\<rparr>" by (rule init_dma_steps)
  then show ?thesis using alloc_netdev_ok(3) [OF a] init_netdev_ok(5) [OF n] by simp
qed

text \<open>C19: a DMA probe that succeeds leaves the device in the state on which the transmit and receive
  guarantees rest: both rings well formed, 64 slots each, apart from each other, every transmit
  slot free, carrier off and a valid MAC address. What is needed of the kernel is that the two
  allocations do not overlap and do not wrap around the address space.\<close>

theorem dma_probe_establishes_inv:
  assumes "ccat_eth_dma_probe env hw pdev func k m = (0, Some p, k', m')"
    and "ee_dma env (ek_dma_calls k) = (base0, phys0)" and "ee_dma env (Suc (ek_dma_calls k)) = (base1, phys1)"
    and "unat phys0 + (2 * CCAT_ALIGNMENT - 1) \<le> 2 ^ 64" and "unat phys1 + (2 * CCAT_ALIGNMENT - 1) \<le> 2 ^ 64"
    and "base0 + (2 * CCAT_ALIGNMENT - 1) \<le> base1 \<or> base1 + (2 * CCAT_ALIGNMENT - 1) \<le> base0"
  shows "eth_inv p m' \<and> nslots (p_rx_fifo p) = FIFO_LENGTH \<and> nslots (p_tx_fifo p) = FIFO_LENGTH \<and>
    inflight (p_tx_fifo p) m' = [] \<and> \<not> nd_carrier (p_netdev p) \<and> is_valid_ether_addr (nd_addr (p_netdev p))"
  by (rule dma_probe_inv [OF assms])

text \<open>A bus that answers every read with the byte 2 and ignores writes: its MAC address is valid.\<close>

definition rom_bus :: "unit mmio" where
  "rom_bus = \<lparr>ioread8 = (\<lambda>a h. (2, h)), ioread16 = (\<lambda>a h. (0x202, h)), ioread32 = (\<lambda>a h. (0x2020202, h)),
     memcpy_fromio = (\<lambda>a n h. (replicate n 2, h)),
     iowrite8 = (\<lambda>v a h. h), iowrite16 = (\<lambda>v a h. h), iowrite32 = (\<lambda>v a h. h),
     memcpy_toio = (\<lambda>a bs h. h), schedule = (\<lambda>h. h)\<rparr>"

text \<open>What is needed of the device for a network function: the MAC address that the driver reads, eight
  bytes behind the MII registers, to which the function's information block points, is valid in every
  state.\<close>

definition mac_valid :: "'h mmio \<Rightarrow> ccat_function \<Rightarrow> bool" where
  "mac_valid hw func \<longleftrightarrow>
     (\<forall>h h'. let offsets = mac_infoblock_of_bytes (fst (memcpy_fromio hw (func_base func) sizeof_mac_infoblock h))
             in is_valid_ether_addr (fst (memcpy_fromio hw (func_base func + unat (off_mii offsets) + 8) 6 h')))"

abbreviation dma_given :: "eth_env \<Rightarrow> nat \<Rightarrow> bool" where
  "dma_given env n \<equiv> fst (ee_dma env n) \<noteq> 0 \<and> snd (ee_dma env n) \<noteq> 0"

lemma rom_bus_mac: "mac_valid rom_bus func"
  by (simp add: mac_valid_def rom_bus_def is_valid_ether_addr_def replicate_eq_replicate)

lemma alloc_netdev_mac:
  assumes "ccat_eth_alloc_netdev env hw func k m = (Some p0, k', m')" and "mac_valid hw func" and "p_reg p = p_reg p0"
  shows "\<exists>bs h'. memcpy_fromio hw (reg_mii (p_reg p) + 8) 6 h = (bs, h') \<and> is_valid_ether_addr bs"
proof -
  have "reg_mii (p_reg p0) = func_base func +
      unat (off_mii (mac_infoblock_of_bytes (fst (memcpy_fromio hw (func_base func) sizeof_mac_infoblock (dev m)))))"
    using assms(1) by (auto simp: ccat_eth_alloc_netdev_def ccat_eth_priv_init_reg_def Let_def split: if_splits prod.splits)
  then have "is_valid_ether_addr (fst (memcpy_fromio hw (reg_mii (p_reg p0) + 8) 6 h))"
    using assms(2) by (simp add: mac_valid_def Let_def)
  then show ?thesis using assms(3) by (metis prod.collapse)
qed

lemma init_dma_reg: "ccat_eth_priv_init_dma env hw pdev p k m = (0, p', k', m') \<Longrightarrow> p_reg p' = p_reg p"
  by (elim init_dma_steps) simp

lemma init_eim_reg: "ccat_eth_priv_init_eim hw p m = (st, p', m') \<Longrightarrow> p_reg p' = p_reg p"
  by (auto simp: ccat_eth_priv_init_eim_def ccat_hw_disable_mac_filter_def Let_def split: prod.splits)

lemma dma_init_succeeds:
  assumes "dma_given env (ek_dma_calls k)"
  shows "\<exists>f' m'. ccat_dma_init env hw add pdev chan bar2 f k m =
    (0, f', k\<lparr>ek_dma_calls := Suc (ek_dma_calls k),
       ek_dma := (fst (ee_dma env (ek_dma_calls k)), snd (ee_dma env (ek_dma_calls k)), 2 * CCAT_ALIGNMENT - 1) # ek_dma k\<rparr>, m')"
proof -
  obtain base phys where e: "ee_dma env (ek_dma_calls k) = (base, phys)" by fastforce
  obtain st f' k' m' where run: "ccat_dma_init env hw add pdev chan bar2 f k m = (st, f', k', m')" by (metis prod.collapse)
  from run e show ?thesis
  proof (cases rule: dma_init_cases)
    case fail
    then show ?thesis using assms e by auto
  next
    case (ok start m1 h)
    then show ?thesis using run e by simp
  qed
qed

lemma init_dma_succeeds:
  assumes "dma_given env (ek_dma_calls k)" and "dma_given env (Suc (ek_dma_calls k))"
  shows "\<exists>p' m'. ccat_eth_priv_init_dma env hw pdev p k m =
    (0, p', k\<lparr>ek_dma_calls := Suc (Suc (ek_dma_calls k)),
       ek_dma := (fst (ee_dma env (Suc (ek_dma_calls k))), snd (ee_dma env (Suc (ek_dma_calls k))), 2 * CCAT_ALIGNMENT - 1) #
         (fst (ee_dma env (ek_dma_calls k)), snd (ee_dma env (ek_dma_calls k)), 2 * CCAT_ALIGNMENT - 1) # ek_dma k\<rparr>, m')"
proof -
  let ?k1 = "k\<lparr>ek_dma_calls := Suc (ek_dma_calls k),
       ek_dma := (fst (ee_dma env (ek_dma_calls k)), snd (ee_dma env (ek_dma_calls k)), 2 * CCAT_ALIGNMENT - 1) # ek_dma k\<rparr>"
  obtain f1 m1 where r: "ccat_dma_init env hw (rx_add hw) pdev (rx_dma_chan (func_info (p_func p)))
      (bar_2 (func_ccat (p_func p))) ((p_rx_fifo p)\<lparr>f_ops := Dma_Rx\<rparr>) k m = (0, f1, ?k1, m1)"
    using dma_init_succeeds [OF assms(1)] by blast
  have g: "dma_given env (ek_dma_calls ?k1)" using assms(2) by simp
  obtain f2 m2 where "ccat_dma_init env hw tx_add pdev (tx_dma_chan (func_info (p_func p)))
      (bar_2 (func_ccat (p_func p))) ((p_tx_fifo p)\<lparr>f_ops := Dma_Tx\<rparr>) ?k1 m1 =
      (0, f2, ?k1\<lparr>ek_dma_calls := Suc (ek_dma_calls ?k1),
       ek_dma := (fst (ee_dma env (ek_dma_calls ?k1)), snd (ee_dma env (ek_dma_calls ?k1)), 2 * CCAT_ALIGNMENT - 1) # ek_dma ?k1\<rparr>, m2)"
    using dma_init_succeeds [OF g] by blast
  with r show ?thesis by (simp add: ccat_eth_priv_init_dma_def ccat_hw_disable_mac_filter_def Let_def)
qed

lemma alloc_netdev_succeeds:
  assumes "ee_alloc env"
  shows "\<exists>p m'. ccat_eth_alloc_netdev env hw func k m = (Some p, k\<lparr>ek_netdevs := Suc (ek_netdevs k)\<rparr>, m')"
  using assms by (simp add: ccat_eth_alloc_netdev_def ccat_eth_priv_init_reg_def Let_def split: prod.split)

lemma dma_probe_succeeds:
  assumes "ee_alloc env" and "dma_given env (ek_dma_calls k)" and "dma_given env (Suc (ek_dma_calls k))"
    and "mac_valid hw func" and "ee_register env = 0"
  shows "\<exists>p k' m'. ccat_eth_dma_probe env hw pdev func k m = (0, Some p, k', m')"
proof -
  let ?k = "k\<lparr>ek_netdevs := Suc (ek_netdevs k)\<rparr>"
  obtain p m1 where a: "ccat_eth_alloc_netdev env hw func k m = (Some p, ?k, m1)"
    using alloc_netdev_succeeds [OF assms(1)] by blast
  obtain p2 k2 m2 where i: "ccat_eth_priv_init_dma env hw pdev p ?k m1 = (0, p2, k2, m2)"
    using init_dma_succeeds [of env ?k hw pdev p m1] assms(2,3) by auto
  obtain bs h where "memcpy_fromio hw (reg_mii (p_reg p2) + 8) 6 (dev m2) = (bs, h)" "is_valid_ether_addr bs"
    using alloc_netdev_mac [OF a assms(4) init_dma_reg [OF i]] by blast
  then show ?thesis
    using a i assms(5) by (simp add: ccat_eth_dma_probe_def ccat_eth_init_netdev_def register_netdev_def Let_def)
qed

definition eth_func0 :: ccat_function where
  "eth_func0 = \<lparr>func_ccat = \<lparr>bar_0 = 0x1000, bar_2 = 0x8000\<rparr>,
     func_info = \<lparr>info_type = 0x14, info_rev = 0, info_config = 0x1000, info_addr = 0x100, info_size = 0x100\<rparr>\<rparr>"

definition machine1 :: "unit machine" where
  "machine1 = \<lparr>ram = (\<lambda>_. 0), dev = ()\<rparr>"

lemma probe_env0_gives: "ee_alloc probe_env0" "ee_register probe_env0 = 0" "dma_given probe_env0 n"
  by (simp_all add: probe_env0_def)

lemma probe0_succeeds:
  "\<exists>p k' m'. ccat_eth_dma_probe probe_env0 rom_bus 1 eth_func0 probe_kernel0 machine1 = (0, Some p, k', m')"
  by (rule dma_probe_succeeds [OF probe_env0_gives(1) probe_env0_gives(3) probe_env0_gives(3) rom_bus_mac probe_env0_gives(2)])

theorem dma_probe_establishes_inv_witness:
  "\<exists>p k' m'. ccat_eth_dma_probe probe_env0 rom_bus 1 eth_func0 probe_kernel0 machine1 = (0, Some p, k', m') \<and> eth_inv p m'"
proof -
  have e: "ee_dma probe_env0 (ek_dma_calls probe_kernel0) = (0x100000, 0x7654321)"
    "ee_dma probe_env0 (Suc (ek_dma_calls probe_kernel0)) = (0x200000, 0x123456789)"
    by (simp_all add: probe_env0_def probe_kernel0_def)
  obtain p k' m' where run: "ccat_eth_dma_probe probe_env0 rom_bus 1 eth_func0 probe_kernel0 machine1 = (0, Some p, k', m')"
    using probe0_succeeds by blast
  from dma_probe_establishes_inv [OF run e] run show ?thesis by (simp add: CCAT_ALIGNMENT_def)
qed

section \<open>Resources\<close>

lemma priv_free_kernel:
  assumes "ccat_eth_priv_free hw p k m = (p', k', m')"
  shows "k' = snd (ccat_dma_free (f_dma_mem (p_tx_fifo p)) (snd (ccat_dma_free (f_dma_mem (p_rx_fifo p)) k)))"
  using assms by (auto simp: ccat_eth_priv_free_def Let_def split: prod.splits)

lemma free_both:
  assumes "f_dma_mem (p_rx_fifo p) = \<lparr>dm_size = n, dm_phys = ph0, dm_dev = d0, dm_base = b0\<rparr>" and "b0 \<noteq> 0"
    and "f_dma_mem (p_tx_fifo p) = \<lparr>dm_size = n, dm_phys = ph1, dm_dev = d1, dm_base = b1\<rparr>" and "b1 \<noteq> 0"
    and "ek_dma k = (b1, ph1, n) # (b0, ph0, n) # ds" and "ccat_eth_priv_free hw p k m = (p', k', m')"
  shows "k' = k\<lparr>ek_dma := ds\<rparr>"
  using assms(1-5) priv_free_kernel [OF assms(6)]
  by (simp add: ccat_dma_free_def dma_free_coherent_def)

lemma dma_probe_resources:
  assumes "ccat_eth_dma_probe env hw pdev func k m = (0, Some p, k', m')"
    and "ee_dma env (ek_dma_calls k) = (base0, phys0)" and "ee_dma env (Suc (ek_dma_calls k)) = (base1, phys1)"
  shows "f_dma_mem (p_rx_fifo p) = \<lparr>dm_size = 2 * CCAT_ALIGNMENT - 1, dm_phys = phys0, dm_dev = pdev, dm_base = base0\<rparr>"
    and "f_dma_mem (p_tx_fifo p) = \<lparr>dm_size = 2 * CCAT_ALIGNMENT - 1, dm_phys = phys1, dm_dev = pdev, dm_base = base1\<rparr>"
    and "base0 \<noteq> 0" and "base1 \<noteq> 0"
    and "ek_dma k' = (base1, phys1, 2 * CCAT_ALIGNMENT - 1) # (base0, phys0, 2 * CCAT_ALIGNMENT - 1) # ek_dma k"
    and "ek_netdevs k' = Suc (ek_netdevs k)" and "ek_registered k' = Suc (ek_registered k)"
proof -
  obtain p0 k0 m0 p1 k1 m1 where a: "ccat_eth_alloc_netdev env hw func k m = (Some p0, k0, m0)"
    and i: "ccat_eth_priv_init_dma env hw pdev p0 k0 m0 = (0, p1, k1, m1)"
    and n: "ccat_eth_init_netdev env hw p1 k1 m1 = (0, Some p, k', m')"
    using dma_probe_steps [OF assms(1)] .
  note al = alloc_netdev_ok [OF a] and nd = init_netdev_ok [OF n]
  from i obtain f1 k2 m2 f2 m3 h where
    rx: "ccat_dma_init env hw (rx_add hw) pdev (rx_dma_chan (func_info (p_func p0))) (bar_2 (func_ccat (p_func p0)))
       ((p_rx_fifo p0)\<lparr>f_ops := Dma_Rx\<rparr>) k0 m0 = (0, f1, k2, m2)" and
    tx: "ccat_dma_init env hw tx_add pdev (tx_dma_chan (func_info (p_func p0))) (bar_2 (func_ccat (p_func p0)))
       ((p_tx_fifo p0)\<lparr>f_ops := Dma_Tx\<rparr>) k2 m2 = (0, f2, k1, m3)" and
    p1: "p1 = p0\<lparr>p_rx_fifo := f1, p_tx_fifo := f2\<rparr>"
    by (rule init_dma_steps)
  have e0: "ee_dma env (ek_dma_calls k0) = (base0, phys0)" using assms(2) al(1) by simp
  note r = dma_init_ring [OF rx e0]
  have e1: "ee_dma env (ek_dma_calls k2) = (base1, phys1)" using assms(3) al(1) r(7) by simp
  note t = dma_init_ring [OF tx e1]
  show "f_dma_mem (p_rx_fifo p) = \<lparr>dm_size = 2 * CCAT_ALIGNMENT - 1, dm_phys = phys0, dm_dev = pdev, dm_base = base0\<rparr>"
    "f_dma_mem (p_tx_fifo p) = \<lparr>dm_size = 2 * CCAT_ALIGNMENT - 1, dm_phys = phys1, dm_dev = pdev, dm_base = base1\<rparr>"
    "base0 \<noteq> 0" "base1 \<noteq> 0"
    "ek_dma k' = (base1, phys1, 2 * CCAT_ALIGNMENT - 1) # (base0, phys0, 2 * CCAT_ALIGNMENT - 1) # ek_dma k"
    "ek_netdevs k' = Suc (ek_netdevs k)" "ek_registered k' = Suc (ek_registered k)"
    using r t nd(1,2,4) al(1) by (simp_all add: p1)
qed

text \<open>removing a successfully probed DMA device gives back every resource the probe took: the two
  coherent allocations, the network device and its registration.\<close>

theorem dma_probe_remove:
  assumes "ccat_eth_dma_probe env hw pdev func k m = (0, Some p, k', m')"
  shows "\<exists>k'' m''. ccat_eth_dma_remove hw (Some p) k' m' = Inr (k'', m'') \<and>
    ek_dma k'' = ek_dma k \<and> ek_netdevs k'' = ek_netdevs k \<and> ek_registered k'' = ek_registered k"
proof -
  obtain base0 phys0 base1 phys1 where e: "ee_dma env (ek_dma_calls k) = (base0, phys0)"
    "ee_dma env (Suc (ek_dma_calls k)) = (base1, phys1)" by fastforce
  note r = dma_probe_resources [OF assms e]
  obtain p2 k2 m2 where f: "ccat_eth_priv_free hw p (unregister_netdev k') m' = (p2, k2, m2)" by (metis prod.collapse)
  have "ek_dma (unregister_netdev k') = (base1, phys1, 2 * CCAT_ALIGNMENT - 1) # (base0, phys0, 2 * CCAT_ALIGNMENT - 1) # ek_dma k"
    using r(5) by (simp add: unregister_netdev_def)
  from free_both [OF r(1,3,2,4) this f] have "k2 = (unregister_netdev k')\<lparr>ek_dma := ek_dma k\<rparr>" .
  then show ?thesis
    using f r(6,7) by (simp add: ccat_eth_dma_remove_def ccat_eth_remove_def free_netdev_def unregister_netdev_def)
qed

theorem dma_probe_remove_witness:
  "\<exists>p k' m' k'' m''. ccat_eth_dma_probe probe_env0 rom_bus 1 eth_func0 probe_kernel0 machine1 = (0, Some p, k', m') \<and>
     ccat_eth_dma_remove rom_bus (Some p) k' m' = Inr (k'', m'') \<and> ek_dma k'' = [] \<and> ek_netdevs k'' = 0"
proof -
  obtain p k' m' where run: "ccat_eth_dma_probe probe_env0 rom_bus 1 eth_func0 probe_kernel0 machine1 = (0, Some p, k', m')"
    using probe0_succeeds by blast
  from dma_probe_remove [OF this] run show ?thesis by (auto simp: probe_kernel0_def)
qed

text \<open>with an invalid MAC address the probe reports \<open>-EADDRNOTAVAIL\<close> but keeps the network device
  and both DMA allocations: nothing refers to them any more.\<close>

theorem invalid_mac_leaks:
  assumes "ee_alloc env" and "dma_given env (ek_dma_calls k)" and "dma_given env (Suc (ek_dma_calls k))"
    and "\<forall>a h. \<not> is_valid_ether_addr (fst (memcpy_fromio hw a 6 h))"
  shows "\<exists>k' m'. ccat_eth_dma_probe env hw pdev func k m = (- EADDRNOTAVAIL, None, k', m') \<and>
    length (ek_dma k') = length (ek_dma k) + 2 \<and> ek_netdevs k' = Suc (ek_netdevs k)"
proof -
  let ?k = "k\<lparr>ek_netdevs := Suc (ek_netdevs k)\<rparr>"
  obtain p m1 where a: "ccat_eth_alloc_netdev env hw func k m = (Some p, ?k, m1)"
    using alloc_netdev_succeeds [OF assms(1)] by blast
  obtain p2 k2 m2 where i: "ccat_eth_priv_init_dma env hw pdev p ?k m1 = (0, p2, k2, m2)"
    "length (ek_dma k2) = length (ek_dma k) + 2" "ek_netdevs k2 = Suc (ek_netdevs k)"
    using init_dma_succeeds [of env ?k hw pdev p m1] assms(2,3) by auto
  obtain bs h where "memcpy_fromio hw (reg_mii (p_reg p2) + 8) 6 (dev m2) = (bs, h)" "\<not> is_valid_ether_addr bs"
    using assms(4) by (metis prod.collapse)
  then show ?thesis using a i by (simp add: ccat_eth_dma_probe_def ccat_eth_init_netdev_def Let_def)
qed

theorem invalid_mac_leaks_witness:
  "\<exists>k' m'. ccat_eth_dma_probe probe_env0 (rom_bus\<lparr>memcpy_fromio := \<lambda>a n h. (replicate n 0, h)\<rparr>) 1 eth_func0 probe_kernel0 machine1 =
     (- EADDRNOTAVAIL, None, k', m') \<and> length (ek_dma k') = 2"
proof -
  have "\<forall>a h. \<not> is_valid_ether_addr (fst (memcpy_fromio (rom_bus\<lparr>memcpy_fromio := \<lambda>a n h. (replicate n 0, h)\<rparr>) a 6 h))"
    by (simp add: is_valid_ether_addr_def)
  moreover have "length (ek_dma probe_kernel0) = 0" by (simp add: probe_kernel0_def)
  ultimately show ?thesis
    using invalid_mac_leaks [OF probe_env0_gives(1) probe_env0_gives(3) probe_env0_gives(3)] by (metis add_0)
qed

lemma fifo_set_end_fst:
  "sizeof_eth_frame \<le> n \<Longrightarrow>
   fst (fifo_set_end add hw n f m) = f\<lparr>f_end := f_start f + (n - sizeof_eth_frame), f_next := f_start f\<rparr>"
  using fifo_reset_eq [of "f\<lparr>f_end := f_start f + (n - sizeof_eth_frame)\<rparr>" add hw m] by (simp add: fifo_set_end_def)


lemma eim_probe0_succeeds:
  "\<exists>p k' m'. ccat_eth_eim_probe probe_env0 rom_bus eth_func0 probe_kernel0 machine1 = (0, Some p, k', m')"
proof -
  obtain p0 m0 where a: "ccat_eth_alloc_netdev probe_env0 rom_bus eth_func0 probe_kernel0 machine1 =
    (Some p0, probe_kernel0\<lparr>ek_netdevs := Suc (ek_netdevs probe_kernel0)\<rparr>, m0)"
    using alloc_netdev_succeeds [OF probe_env0_gives(1)] by blast
  obtain st p1 m1 where i: "ccat_eth_priv_init_eim rom_bus p0 m0 = (st, p1, m1)" by (metis prod.collapse)
  have "st = 0" using i by (auto simp: ccat_eth_priv_init_eim_def ccat_hw_disable_mac_filter_def Let_def split: prod.splits)
  obtain bs h where "memcpy_fromio rom_bus (reg_mii (p_reg p1) + 8) 6 (dev m1) = (bs, h)" "is_valid_ether_addr bs"
    using alloc_netdev_mac [OF a rom_bus_mac init_eim_reg [OF i]] by blast
  then show ?thesis
    using a i \<open>st = 0\<close> probe_env0_gives(2)
    by (simp add: ccat_eth_eim_probe_def ccat_eth_init_netdev_def register_netdev_def Let_def)
qed


text \<open>a module load that fails because the second driver cannot be registered leaves the first one
  registered, although the module's code goes away.\<close>

theorem eth_init_failure_keeps_driver:
  assumes "reg ''ccat_eth_eim'' = 0" and "reg ''ccat_eth_dma'' \<noteq> 0"
  shows "ccat_eth_init reg ds = (reg ''ccat_eth_dma'', ''ccat_eth_eim'' # ds)"
  using assms by (simp add: ccat_eth_init_def platform_driver_register_def)

theorem eth_init_failure_keeps_driver_witness:
  "ccat_eth_init (\<lambda>nm. if nm = ''ccat_eth_dma'' then - ENOMEM else 0) [] = (- ENOMEM, [''ccat_eth_eim''])"
  using eth_init_failure_keeps_driver [of "\<lambda>nm. if nm = ''ccat_eth_dma'' then - ENOMEM else 0" "[]"] by simp

section \<open>Plugging and unplugging\<close>

text \<open>Coherent memory comes with a device address, or not at all.\<close>

definition dma_pairs :: "eth_env \<Rightarrow> bool" where
  "dma_pairs env \<longleftrightarrow> (\<forall>n. fst (ee_dma env n) \<noteq> 0 \<longrightarrow> snd (ee_dma env n) \<noteq> 0)"

lemma dma_init_failed:
  assumes "ccat_dma_init env hw add pdev chan bar2 f k m = (st, f', k', m')" and "st \<noteq> 0" and "dma_pairs env"
  shows "k' = k\<lparr>ek_dma_calls := Suc (ek_dma_calls k)\<rparr>"
proof -
  obtain base phys where e: "ee_dma env (ek_dma_calls k) = (base, phys)" by fastforce
  then have pair: "base \<noteq> 0 \<longrightarrow> phys \<noteq> 0" using assms(3) unfolding dma_pairs_def by (metis fst_conv snd_conv)
  show ?thesis
    using assms(1,2) pair e
    by (auto simp: ccat_dma_init_def dma_alloc_coherent_def Let_def split: if_splits prod.splits)
qed

lemma init_dma_failed:
  assumes "ccat_eth_priv_init_dma env hw pdev p k m = (st, p', k', m')" and "st \<noteq> 0" and "dma_pairs env"
  shows "\<exists>n. k' = k\<lparr>ek_dma_calls := n\<rparr>"
proof -
  obtain s1 f1 k1 m1 where r: "ccat_dma_init env hw (rx_add hw) pdev (rx_dma_chan (func_info (p_func p)))
      (bar_2 (func_ccat (p_func p))) ((p_rx_fifo p)\<lparr>f_ops := Dma_Rx\<rparr>) k m = (s1, f1, k1, m1)" by (metis prod.collapse)
  show ?thesis
  proof (cases "s1 = 0")
    case False
    then have "k' = k1" using assms(1) r by (auto simp: ccat_eth_priv_init_dma_def Let_def)
    then show ?thesis using dma_init_failed [OF r False assms(3)] by auto
  next
    case True
    obtain base phys where e: "ee_dma env (ek_dma_calls k) = (base, phys)" by fastforce
    note ok = dma_init_ring [OF r [unfolded True] e]
    obtain s2 f2 k2 m2 where t: "ccat_dma_init env hw tx_add pdev (tx_dma_chan (func_info (p_func p)))
        (bar_2 (func_ccat (p_func p))) ((p_tx_fifo p)\<lparr>f_ops := Dma_Tx\<rparr>) k1 m1 = (s2, f2, k2, m2)" by (metis prod.collapse)
    have s2: "s2 \<noteq> 0" using assms(1,2) r t True
      by (auto simp: ccat_eth_priv_init_dma_def ccat_hw_disable_mac_filter_def Let_def split: if_splits)
    have "k' = snd (ccat_dma_free (f_dma_mem f1) k2)"
      using assms(1) r t True s2 by (auto simp: ccat_eth_priv_init_dma_def Let_def split: prod.splits)
    then show ?thesis
      using ok(6-8) dma_init_failed [OF t s2 assms(3)] by (auto simp: ccat_dma_free_def dma_free_coherent_def)
  qed
qed

lemma init_netdev_failed:
  assumes i: "ccat_eth_priv_init_dma env hw pdev p k m = (0, p1, k1, m1)"
    and n: "ccat_eth_init_netdev env hw p1 k1 m1 = (r, None, k', m')"
    and rd: "memcpy_fromio hw (reg_mii (p_reg p1) + 8) 6 (dev m1) = (bs, h')" "is_valid_ether_addr bs"
  shows "ek_dma k' = ek_dma k \<and> ek_netdevs k' = ek_netdevs k - 1 \<and> ek_registered k' = ek_registered k"
proof -
  obtain base0 phys0 base1 phys1 where e: "ee_dma env (ek_dma_calls k) = (base0, phys0)"
    "ee_dma env (Suc (ek_dma_calls k)) = (base1, phys1)" by fastforce
  from i obtain f1 k2 m2 f2 m3 h where
    rx: "ccat_dma_init env hw (rx_add hw) pdev (rx_dma_chan (func_info (p_func p))) (bar_2 (func_ccat (p_func p)))
       ((p_rx_fifo p)\<lparr>f_ops := Dma_Rx\<rparr>) k m = (0, f1, k2, m2)" and
    tx: "ccat_dma_init env hw tx_add pdev (tx_dma_chan (func_info (p_func p))) (bar_2 (func_ccat (p_func p)))
       ((p_tx_fifo p)\<lparr>f_ops := Dma_Tx\<rparr>) k2 m2 = (0, f2, k1, m3)" and
    p1: "p1 = p\<lparr>p_rx_fifo := f1, p_tx_fifo := f2\<rparr>"
    by (rule init_dma_steps)
  note r0 = dma_init_ring [OF rx e(1)]
  have e1: "ee_dma env (ek_dma_calls k2) = (base1, phys1)" using e(2) r0(7) by simp
  note t0 = dma_init_ring [OF tx e1]
  have reg: "ee_register env \<noteq> 0" using n rd by (auto simp: ccat_eth_init_netdev_def register_netdev_def Let_def split: if_splits)
  let ?p = "on_netdev netif_carrier_off (on_netdev (\<lambda>d. d\<lparr>nd_addr := bs\<rparr>) p1)"
  obtain p2 k3 m4 where f: "ccat_eth_priv_free hw ?p k1 (m1\<lparr>dev := h'\<rparr>) = (p2, k3, m4)" by (metis prod.collapse)
  have k': "k' = free_netdev k3" using n rd reg f by (auto simp: ccat_eth_init_netdev_def register_netdev_def Let_def)
  have mem: "f_dma_mem (p_rx_fifo ?p) = f_dma_mem f1" "f_dma_mem (p_tx_fifo ?p) = f_dma_mem f2" by (simp_all add: p1)
  have dma: "ek_dma k1 = (base1, phys1, 2 * CCAT_ALIGNMENT - 1) # (base0, phys0, 2 * CCAT_ALIGNMENT - 1) # ek_dma k"
    using t0(7) r0(7) by simp
  have "k3 = k1\<lparr>ek_dma := ek_dma k\<rparr>"
    by (rule free_both [OF mem(1) [unfolded r0(6)] r0(8) mem(2) [unfolded t0(6)] t0(8) dma f])
  then show ?thesis using t0(7) r0(7) by (simp add: k' free_netdev_def)
qed

text \<open>A probe that fails, unless for an invalid MAC address, gives back what it took.\<close>

lemma dma_probe_failed:
  assumes run: "ccat_eth_dma_probe env hw pdev func k m = (r, None, k', m')" and "dma_pairs env" and mac: "mac_valid hw func"
  shows "ek_dma k' = ek_dma k \<and> ek_netdevs k' = ek_netdevs k \<and> ek_registered k' = ek_registered k"
proof (cases "ee_alloc env")
  case False
  then show ?thesis using run by (simp add: ccat_eth_dma_probe_def ccat_eth_alloc_netdev_def)
next
  case True
  obtain p m0 where a: "ccat_eth_alloc_netdev env hw func k m = (Some p, k\<lparr>ek_netdevs := Suc (ek_netdevs k)\<rparr>, m0)"
    using alloc_netdev_succeeds [OF True] by blast
  obtain st p1 k1 m1 where i: "ccat_eth_priv_init_dma env hw pdev p (k\<lparr>ek_netdevs := Suc (ek_netdevs k)\<rparr>) m0 = (st, p1, k1, m1)"
    by (metis prod.collapse)
  show ?thesis
  proof (cases "st = 0")
    case False
    then have "k' = free_netdev k1" using run a i by (auto simp: ccat_eth_dma_probe_def Let_def)
    then show ?thesis using init_dma_failed [OF i False assms(2)] by (auto simp: free_netdev_def)
  next
    case True
    then have n: "ccat_eth_init_netdev env hw p1 k1 m1 = (r, None, k', m')" using run a i by (auto simp: ccat_eth_dma_probe_def Let_def)
    obtain bs h where rd: "memcpy_fromio hw (reg_mii (p_reg p1) + 8) 6 (dev m1) = (bs, h)" "is_valid_ether_addr bs"
      using alloc_netdev_mac [OF a mac init_dma_reg [OF i [unfolded True]]] by blast
    show ?thesis using init_netdev_failed [OF i [unfolded True] n rd] by simp
  qed
qed

text \<open>The EIM variant takes no coherent memory.\<close>

lemma set_end_mem: "fifo_set_end add hw n f m = (f', m') \<Longrightarrow> f_dma_mem f' = f_dma_mem f"
  using reset_mem [of add hw "f\<lparr>f_end := f_start f + n - sizeof_eth_frame\<rparr>" m] by (simp add: fifo_set_end_def)

lemma init_eim_mem:
  assumes "ccat_eth_priv_init_eim hw p m = (st, p', m')"
  shows "st = 0" and "f_dma_mem (p_rx_fifo p') = f_dma_mem (p_rx_fifo p)" and "f_dma_mem (p_tx_fifo p') = f_dma_mem (p_tx_fifo p)"
  using assms
  by (auto simp: ccat_eth_priv_init_eim_def ccat_hw_disable_mac_filter_def Let_def dest!: set_end_mem split: prod.splits)

lemma priv_free_nothing:
  assumes "f_dma_mem (p_rx_fifo p) = zero_dma_mem" and "f_dma_mem (p_tx_fifo p) = zero_dma_mem"
    and "ccat_eth_priv_free hw p k m = (p', k', m')"
  shows "k' = k"
  using priv_free_kernel [OF assms(3)] assms(1,2) by (simp add: ccat_dma_free_def zero_dma_mem_def)

definition eth_plug :: "'h mmio \<Rightarrow> (eth_env \<times> addr \<times> ccat_function, eth_kernel \<times> 'h machine, ccat_eth_priv) probe_op" where
  "eth_plug hw e s =
     (let (r, p, k, m) = ccat_eth_dma_probe (fst e) hw (fst (snd e)) (snd (snd e)) (fst s) (snd s) in Inr (p, k, m))"

definition eth_unplug :: "'h mmio \<Rightarrow> (eth_kernel \<times> 'h machine, ccat_eth_priv) remove_op" where
  "eth_unplug hw p s = ccat_eth_dma_remove hw (Some p) (fst s) (snd s)"

definition eth_resources :: "eth_kernel \<times> 'h machine \<Rightarrow> (addr \<times> u64 \<times> nat) list \<times> nat \<times> nat" where
  "eth_resources s = (ek_dma (fst s), ek_netdevs (fst s), ek_registered (fst s))"

lemma dma_probe_status:
  assumes "ccat_eth_dma_probe env hw pdev func k m = (r, Some p, k', m')"
  shows "r = 0"
  using assms
  by (auto simp: ccat_eth_dma_probe_def ccat_eth_init_netdev_def Let_def split: option.splits prod.splits if_splits)

interpretation eth_driver: hotplug "eth_plug hw" "eth_unplug hw" "\<lambda>s. True"
  "\<lambda>e. dma_pairs (fst e) \<and> mac_valid hw (snd (snd e))" eth_resources for hw
proof
  fix s :: "eth_kernel \<times> 'a machine" and e :: "eth_env \<times> addr \<times> ccat_function"
  obtain k m where s: "s = (k, m)" by fastforce
  obtain env pdev func where e: "e = (env, pdev, func)" by (cases e)
  assume "dma_pairs (fst e) \<and> mac_valid hw (snd (snd e))"
  then have env: "dma_pairs env" and mac: "mac_valid hw func" by (simp_all add: e)
  obtain r po k1 m1 where run: "ccat_eth_dma_probe env hw pdev func k m = (r, po, k1, m1)" by (metis prod.collapse)
  have plug: "eth_plug hw e s = Inr (po, k1, m1)" by (simp add: eth_plug_def s e run)
  then show "\<exists>d s'. eth_plug hw e s = Inr (d, s')" by blast
  show "True \<and> eth_resources s' = eth_resources s" if "eth_plug hw e s = Inr (None, s')" for s'
    using that plug dma_probe_failed [of env hw pdev func k m r k1 m1] run mac env
    by (auto simp: eth_resources_def s e)
  show "\<exists>s''. eth_unplug hw d s' = Inr s'' \<and> True \<and> eth_resources s'' = eth_resources s"
    if "eth_plug hw e s = Inr (Some d, s')" for d s'
  proof -
    have s': "s' = (k1, m1)" "po = Some d" using that plug by simp_all
    then have "ccat_eth_dma_probe env hw pdev func k m = (0, Some d, k1, m1)" using run dma_probe_status by simp
    then show ?thesis using dma_probe_remove [of env hw pdev func k m d k1 m1] by (auto simp: eth_unplug_def eth_resources_def s s')
  qed
qed

text \<open>the network device can be probed and removed any number of times, whichever of its requests the
  kernel refuses: every probe that fails and every removal gives back all coherent memory, the
  network device and its registration. What is needed is a valid MAC address and that coherent
  memory comes with a device address.\<close>

theorem eth_replug:
  assumes "\<forall>e \<in> set es. dma_pairs (fst e) \<and> mac_valid hw (snd (snd e))"
  shows "\<exists>k' m'. replug (eth_plug hw) (eth_unplug hw) es (k, m) = Inr (k', m') \<and>
    ek_dma k' = ek_dma k \<and> ek_netdevs k' = ek_netdevs k \<and> ek_registered k' = ek_registered k"
  using eth_driver.replug_keeps [of es hw "(k, m)"] assms by (auto simp: eth_resources_def)

theorem eth_replug_witness:
  "\<exists>k' m'. replug (eth_plug rom_bus) (eth_unplug rom_bus)
       [(probe_env0, 1, eth_func0), (probe_env0\<lparr>ee_register := -12\<rparr>, 1, eth_func0)] (probe_kernel0, machine1) = Inr (k', m') \<and>
     ek_dma k' = [] \<and> ek_netdevs k' = 0"
proof -
  have "dma_pairs probe_env0" "dma_pairs (probe_env0\<lparr>ee_register := -12\<rparr>)" by (simp_all add: dma_pairs_def probe_env0_def)
  then show ?thesis
    using eth_replug [of "[(probe_env0, 1, eth_func0), (probe_env0\<lparr>ee_register := -12\<rparr>, 1, eth_func0)]" rom_bus probe_kernel0 machine1]
    by (auto simp: probe_kernel0_def rom_bus_mac)
qed

end
