(* ===== verification/Ccat_Sram.thy ===== *)
theory Ccat_Sram
  imports Ccat_File
begin

text \<open>
  The SRAM driver, \<^verbatim>\<open>src/sram.c\<close>: a character device on the FPGA's static memory.

  A file's state is its \<open>cdev_buffer\<close> and the device behind the bus. \<open>nc\<close> gives the number of bytes a
  copy between user and kernel memory leaves out; the user's bytes are a list of the length passed
  to the call.
\<close>

definition CCAT_SRAM_DEVICES_MAX :: nat where "CCAT_SRAM_DEVICES_MAX = 4"

definition sram_class :: ccat_class where
  "sram_class = static_class ''ccat_sram'' CCAT_SRAM_DEVICES_MAX"

text \<open>Overwriting the first bytes of the buffer.\<close>

definition buf_fill :: "u8 list \<Rightarrow> cdev_buffer \<Rightarrow> cdev_buffer" where
  "buf_fill bs b = b\<lparr>buf_data := bs @ drop (length bs) (buf_data b)\<rparr>"

definition sram_read ::
  "'h mmio \<Rightarrow> (nat \<Rightarrow> nat) \<Rightarrow> ccat_cdev \<Rightarrow> u64 \<Rightarrow> u64 \<Rightarrow> cdev_buffer \<times> 'h \<Rightarrow>
     int \<times> u8 list \<times> u64 \<times> cdev_buffer \<times> 'h" where
  "sram_read hw nc d len off s =
     (let (b, h) = s;
          (bs, h) = memcpy_fromio hw (cd_ioaddr d + unat off) (unat len) h;
          b = buf_fill bs b;
          (r, us) = copy_to_user nc (take (unat len) (buf_data b))
      in if r \<noteq> 0 then (- EFAULT, us, off, b, h)
         else (sint len, us, off + len, b, h))"

definition ccat_sram_read ::
  "'h mmio \<Rightarrow> (nat \<Rightarrow> nat) \<Rightarrow> ccat_cdev \<Rightarrow> u64 \<Rightarrow> u64 \<Rightarrow> cdev_buffer \<times> 'h \<Rightarrow>
     int \<times> u8 list \<times> u64 \<times> cdev_buffer \<times> 'h" where
  "ccat_sram_read hw nc d len off s =
     (if cd_iosize d \<le> off then (0, [], off, s)
      else sram_read hw nc d (min len (cd_iosize d - off)) off s)"

text \<open>\<open>off + len\<close> is a 64-bit sum.\<close>

definition ccat_sram_write ::
  "'h mmio \<Rightarrow> (nat \<Rightarrow> nat) \<Rightarrow> ccat_cdev \<Rightarrow> u8 list \<Rightarrow> u64 \<Rightarrow> u64 \<Rightarrow> cdev_buffer \<times> 'h \<Rightarrow>
     int \<times> u64 \<times> cdev_buffer \<times> 'h" where
  "ccat_sram_write hw nc d ubuf len off s =
     (let (b, h) = s
      in if cd_iosize d < off + len then (0, off, b, h)
         else
           let (r, us) = copy_from_user nc ubuf (unat len); b = buf_fill us b
           in if r \<noteq> 0 then (- EFAULT, off, b, h)
           else
           let h = memcpy_toio hw (cd_ioaddr d + unat off) (take (unat len) (buf_data b)) h
           in (sint len, off + len, b, h))"

text \<open>
  \<open>1 << sram_size\<close> is an \<open>int\<close>: a shift by 32 or more is out of range, a shift by 31 gives the most
  negative one, which the conversion to \<open>size_t\<close> extends with its sign.
\<close>

definition sram_iosize :: "ccat_info_block \<Rightarrow> u64 exec" where
  "sram_iosize i =
     (if 32 \<le> unat (sram_size i) then Inl ShiftOutOfRange
      else Inr (scast (push_bit (unat (sram_size i)) 1 :: u32)))"

definition ccat_sram_probe ::
  "kenv \<Rightarrow> ccat_function \<Rightarrow> ccat_class \<Rightarrow> kernel \<Rightarrow> (int \<times> nat option \<times> ccat_class \<times> kernel) exec" where
  "ccat_sram_probe env func cls k =
     (case sram_iosize (func_info func) of
        Inl e \<Rightarrow> Inl e
      | Inr iosize \<Rightarrow>
          if sram_width (func_info func) AND 0x3 = 0 then Inr (- ENODEV, None, cls, k)
          else ccat_cdev_probe env func iosize cls k)"

section \<open>Contents\<close>

text \<open>
  The device's memory seen through a file: the invariant is that the bus is storage over the
  device's range, that the range is smaller than 2 GiB, and that the buffer has the device's size.
\<close>

definition sram_contents :: "('h \<Rightarrow> memory) \<Rightarrow> ccat_cdev \<Rightarrow> cdev_buffer \<times> 'h \<Rightarrow> u8 list" where
  "sram_contents cells d s = mem_read (cells (snd s)) (cd_ioaddr d) (unat (cd_iosize d))"

definition sram_inv :: "'h mmio \<Rightarrow> ('h \<Rightarrow> memory) \<Rightarrow> ccat_cdev \<Rightarrow> cdev_buffer \<times> 'h \<Rightarrow> bool" where
  "sram_inv hw cells d s \<longleftrightarrow> io_storage hw cells (cd_ioaddr d) (unat (cd_iosize d)) \<and>
     unat (cd_iosize d) < 2 ^ 31 \<and> length (buf_data (fst s)) = unat (cd_iosize d)"

lemma buf_fill_length: "length bs \<le> length (buf_data b) \<Longrightarrow> length (buf_data (buf_fill bs b)) = length (buf_data b)"
  by (simp add: buf_fill_def)

lemma sram_min_len:
  assumes "off < sz"
  shows "unat (min len (sz - off :: u64)) = min (unat len) (unat sz - unat off)"
proof -
  have "unat (sz - off) = unat sz - unat off" using assms by (intro unat_sub) simp
  then show ?thesis by (simp add: min_def word_le_nat_alt)
qed

text \<open>A read copies the part of the contents at the file position; if the user's memory cannot take all of
  it, the position stays.\<close>

lemma sram_read_copy:
  fixes len :: u64 and hw :: "'h mmio"
  assumes inv: "sram_inv hw cells d s" and le: "unat off \<le> unat (cd_iosize d)"
  defines "bs \<equiv> take (unat len) (drop (unat off) (sram_contents cells d s))"
  shows "\<exists>off' s'. ccat_sram_read hw nc d len off s =
      (if fst (copy_to_user nc bs) = 0 then int (length bs) else - EFAULT, snd (copy_to_user nc bs), off', s') \<and>
    unat off' = unat off + (if fst (copy_to_user nc bs) = 0 then length bs else 0) \<and>
    sram_inv hw cells d s' \<and> sram_contents cells d s' = sram_contents cells d s"
proof (cases "cd_iosize d \<le> off")
  case True
  then have "bs = []" using le by (simp add: bs_def sram_contents_def word_le_nat_alt)
  then show ?thesis using True inv by (simp add: ccat_sram_read_def copy_to_user_def)
next
  case False
  obtain b h where s: "s = (b, h)" by fastforce
  have io: "io_storage hw cells (cd_ioaddr d) (unat (cd_iosize d))" and sz: "unat (cd_iosize d) < 2 ^ 31"
    and bl: "length (buf_data b) = unat (cd_iosize d)" using inv by (simp_all add: sram_inv_def s)
  let ?n = "min len (cd_iosize d - off)"
  have n: "unat ?n = min (unat len) (unat (cd_iosize d) - unat off)" using False by (intro sram_min_len) simp
  obtain rs h' where rd: "memcpy_fromio hw (cd_ioaddr d + unat off) (unat ?n) h = (rs, h')" by fastforce
  have fit: "cd_ioaddr d + unat off + unat ?n \<le> cd_ioaddr d + unat (cd_iosize d)" using n le by simp
  have rs: "rs = mem_read (cells h) (cd_ioaddr d + unat off) (unat ?n)"
    using io_storage_read(1) [OF io _ fit, of h] rd by simp
  have same: "cells h' x = cells h x" if "cd_ioaddr d \<le> x" "x < cd_ioaddr d + unat (cd_iosize d)" for x
    using io_storage_read(2) [OF io _ fit that, of h] rd by simp
  have bs: "bs = rs"
    using n by (simp add: bs_def rs sram_contents_def s drop_mem_read take_mem_read)
  have len: "length rs = unat ?n" by (simp add: rs)
  have off': "unat (off + ?n) = unat off + unat ?n"
    using n le sz by (simp add: unat_word_ariths)
  obtain r us where cp: "copy_to_user nc bs = (r, us)" by fastforce
  have "sint ?n = int (unat ?n)" using n sz by (intro sint_small) simp
  then have run: "ccat_sram_read hw nc d len off s =
      (if r = 0 then int (length bs) else - EFAULT, us, if r = 0 then off + ?n else off, buf_fill rs b, h')"
    using False rd len cp by (simp add: ccat_sram_read_def sram_read_def s bs buf_fill_def Let_def)
  have "sram_contents cells d (buf_fill rs b, h') = sram_contents cells d s"
    using same by (auto simp: sram_contents_def s intro: mem_read_cong)
  moreover have "sram_inv hw cells d (buf_fill rs b, h')"
    using io sz bl n len by (simp add: sram_inv_def buf_fill_length)
  ultimately show ?thesis using run off' len bs cp by auto
qed

lemma sram_read_part:
  fixes len :: u64 and hw :: "'h mmio"
  assumes inv: "sram_inv hw cells d s" and le: "unat off \<le> unat (cd_iosize d)"
  defines "bs \<equiv> take (unat len) (drop (unat off) (sram_contents cells d s))"
  shows "\<exists>off' s'. ccat_sram_read hw (\<lambda>_. 0) d len off s = (int (length bs), bs, off', s') \<and>
    unat off' = unat off + length bs \<and> sram_inv hw cells d s' \<and> sram_contents cells d s' = sram_contents cells d s"
  using sram_read_copy [OF assms(1,2), of "\<lambda>_. 0" len] by (simp add: bs_def)

interpretation sram_file: readable_file "\<lambda>len off s. Some (ccat_sram_read hw (\<lambda>_. 0) d len off s)"
    "sram_contents cells d" "sram_inv hw cells d" for hw cells d
proof
  fix s :: "cdev_buffer \<times> 'a" and off len :: u64
  show "length (sram_contents cells d s) < 2 ^ 63" if "sram_inv hw cells d s"
    using that by (simp add: sram_inv_def sram_contents_def)
  show "\<exists>off' s'. Some (ccat_sram_read hw (\<lambda>_. 0) d len off s) =
          Some (int (length (take (unat len) (drop (unat off) (sram_contents cells d s)))),
                take (unat len) (drop (unat off) (sram_contents cells d s)), off', s') \<and>
        unat off' = unat off + length (take (unat len) (drop (unat off) (sram_contents cells d s))) \<and>
        sram_inv hw cells d s' \<and> sram_contents cells d s' = sram_contents cells d s"
    if "sram_inv hw cells d s" "unat off \<le> length (sram_contents cells d s)"
    using sram_read_part [OF that(1), of off len] that(2) unfolding option.inject by (simp add: sram_contents_def)
qed

lemma mem_write_list:
  assumes "n + length bs \<le> k"
  shows "mem_read (mem_write m (a + n) bs) a k = take n (mem_read m a k) @ bs @ drop (n + length bs) (mem_read m a k)"
  using assms
  by (intro nth_equalityI) (auto simp: mem_read_def mem_write_def nth_append)

lemma sram_write_contents:
  assumes inv: "sram_inv hw cells d s" and len: "length ubuf = unat len"
    and fit: "unat off + unat len \<le> unat (cd_iosize d)"
    and run: "ccat_sram_write hw (\<lambda>_. 0) d ubuf len off s = (r, off', s')"
  shows "r = int (unat len)" and "unat off' = unat off + unat len" and "sram_inv hw cells d s'"
    and "sram_contents cells d s' = take (unat off) (sram_contents cells d s) @ ubuf @
      drop (unat off + unat len) (sram_contents cells d s)"
proof -
  obtain b h where s: "s = (b, h)" by fastforce
  have io: "io_storage hw cells (cd_ioaddr d) (unat (cd_iosize d))" and sz: "unat (cd_iosize d) < 2 ^ 31"
    and bl: "length (buf_data b) = unat (cd_iosize d)" using inv by (simp_all add: sram_inv_def s)
  have sum: "unat (off + len) = unat off + unat len" using fit sz by (simp add: unat_word_ariths)
  have "\<not> cd_iosize d < off + len" using sum fit by (simp add: word_less_nat_alt)
  then have r: "r = sint len" "off' = off + len"
    "s' = (buf_fill ubuf b, memcpy_toio hw (cd_ioaddr d + unat off) ubuf h)"
    using run len by (auto simp: ccat_sram_write_def s buf_fill_def Let_def)
  show "r = int (unat len)" unfolding r(1) using fit sz by (intro sint_small) simp
  show "unat off' = unat off + unat len" using sum r(2) by simp
  show "sram_inv hw cells d s'" using io sz bl fit len by (simp add: r sram_inv_def buf_fill_length)
  have "cells (memcpy_toio hw (cd_ioaddr d + unat off) ubuf h) x = mem_write (cells h) (cd_ioaddr d + unat off) ubuf x"
    if "cd_ioaddr d \<le> x" "x < cd_ioaddr d + unat (cd_iosize d)" for x
    using io_storage_write [OF io _ _ that] fit len by simp
  then have "sram_contents cells d s' = mem_read (mem_write (cells h) (cd_ioaddr d + unat off) ubuf) (cd_ioaddr d) (unat (cd_iosize d))"
    by (auto simp: sram_contents_def r intro: mem_read_cong)
  also have "\<dots> = take (unat off) (sram_contents cells d s) @ ubuf @ drop (unat off + unat len) (sram_contents cells d s)"
    using mem_write_list [of "unat off" ubuf "unat (cd_iosize d)" "cells h" "cd_ioaddr d"] fit len
    by (simp add: sram_contents_def s)
  finally show "sram_contents cells d s' = take (unat off) (sram_contents cells d s) @ ubuf @
      drop (unat off + unat len) (sram_contents cells d s)" .
qed

section \<open>Several writes\<close>

text \<open>Writes of whole buffers at the given positions.\<close>

fun sram_writes :: "'h mmio \<Rightarrow> ccat_cdev \<Rightarrow> (u64 \<times> u8 list) list \<Rightarrow> cdev_buffer \<times> 'h \<Rightarrow> int list \<times> cdev_buffer \<times> 'h" where
  "sram_writes hw d [] s = ([], s)"
| "sram_writes hw d ((off, bs) # ws) s =
     (let (r, off', s) = ccat_sram_write hw (\<lambda>_. 0) d bs (of_nat (length bs)) off s; (rs, s) = sram_writes hw d ws s
      in (r # rs, s))"

definition patch :: "u64 \<times> u8 list \<Rightarrow> u8 list \<Rightarrow> u8 list" where
  "patch w xs = take (unat (fst w)) xs @ snd w @ drop (unat (fst w) + length (snd w)) xs"

lemma sram_writes_contents:
  assumes "sram_inv hw cells d s" and "\<forall>(off, bs) \<in> set ws. unat off + length bs \<le> unat (cd_iosize d)"
    and "sram_writes hw d ws s = (rs, s')"
  shows "rs = map (int \<circ> length \<circ> snd) ws \<and> sram_inv hw cells d s' \<and>
    sram_contents cells d s' = fold patch ws (sram_contents cells d s)"
  using assms
proof (induction ws arbitrary: s rs)
  case (Cons w ws)
  obtain off bs where w: "w = (off, bs)" by fastforce
  obtain r off' s1 where run: "ccat_sram_write hw (\<lambda>_. 0) d bs (of_nat (length bs)) off s = (r, off', s1)" by (metis prod.collapse)
  obtain rs' where rest: "sram_writes hw d ws s1 = (rs', s')" "rs = r # rs'"
    using Cons.prems(3) run by (auto simp: w split: prod.splits)
  have fit: "unat off + length bs \<le> unat (cd_iosize d)" using Cons.prems(2) by (simp add: w)
  moreover have "unat (cd_iosize d) < 2 ^ 31" using Cons.prems(1) by (simp add: sram_inv_def)
  ultimately have len: "unat (of_nat (length bs) :: u64) = length bs" by (simp add: unat_of_nat)
  note c = sram_write_contents [OF Cons.prems(1) len [symmetric] _ run]
  show ?case using Cons.IH [OF _ _ rest(1)] c Cons.prems(2) fit by (simp add: rest(2) w len patch_def)
qed simp

section \<open>Properties\<close>

text \<open>a write to the SRAM file that ends inside the device succeeds, and reading the file afterwards
  from its start, in blocks of any sizes that together cover the device, yields the old contents
  with exactly the written bytes replaced.\<close>

theorem sram_write_read_back:
  assumes "sram_inv hw cells d s" and "length ubuf = unat len" and "unat off + unat len \<le> unat (cd_iosize d)"
    and "ccat_sram_write hw (\<lambda>_. 0) d ubuf len off s = (r, off', s')"
    and "unat (cd_iosize d) \<le> sum_list (map unat ns)"
  shows "r = int (unat len) \<and> unat off' = unat off + unat len \<and>
    (\<exists>off'' s''. read_blocks (\<lambda>len off s. Some (ccat_sram_read hw (\<lambda>_. 0) d len off s)) ns 0 s' =
       Some (take (unat off) (sram_contents cells d s) @ ubuf @
         drop (unat off + unat len) (sram_contents cells d s), off'', s''))"
proof -
  note w = sram_write_contents [OF assms(1-4)]
  have "length (sram_contents cells d s') \<le> sum_list (map unat ns)" using assms(5) by (simp add: sram_contents_def)
  from sram_file.blocks_all [OF w(3) this] w(1,2,4) show ?thesis by simp
qed

text \<open>a write that would end beyond the device returns 0 and changes nothing; a write whose user
  memory cannot be read completely returns \<open>-EFAULT\<close> and changes neither the device nor the file
  position.\<close>

theorem sram_write_refused:
  assumes "unat off + unat len < 2 ^ 64" and "unat (cd_iosize d) < unat off + unat len \<or> 0 < min (nc (unat len)) (unat len)"
    and "ccat_sram_write hw nc d ubuf len off s = (r, off', s')"
  shows "if unat (cd_iosize d) < unat off + unat len then r = 0 \<and> off' = off \<and> s' = s
    else r = - EFAULT \<and> off' = off \<and> snd s' = snd s"
proof -
  have "unat (off + len) = unat off + unat len" using assms(1) by (simp add: unat_word_ariths)
  then have "cd_iosize d < off + len \<longleftrightarrow> unat (cd_iosize d) < unat off + unat len" by (simp add: word_less_nat_alt)
  then show ?thesis
    using assms(2,3) by (auto simp: ccat_sram_write_def copy_from_user_def Let_def split: prod.splits if_splits)
qed

text \<open>a size exponent of 31 makes the probe register a device of almost 2^64 bytes, because the
  shift is done in an \<open>int\<close>; larger exponents are undefined behaviour.\<close>

theorem sram_iosize_wraps:
  assumes "unat (sram_size i) = 31"
  shows "sram_iosize i = Inr (- (2 ^ 31))"
  using assms by (simp add: sram_iosize_def)

text \<open>Example device: 16 bytes at address 0x40 of a bus that is memory.\<close>

definition sram0 :: ccat_cdev where
  "sram0 = \<lparr>cd_in_use = 0, cd_ioaddr = 0x40, cd_iosize = 16, cd_dev = 1, cd_class = True\<rparr>"

definition sram_state0 :: "cdev_buffer \<times> memory" where
  "sram_state0 = (\<lparr>buf_size = 0, buf_data = replicate 16 0\<rparr>, \<lambda>a. of_nat a)"

lemma sram_state0_inv: "sram_inv ram_bus (\<lambda>h. h) sram0 sram_state0"
  by (simp add: sram_inv_def sram0_def sram_state0_def ram_bus_storage)

theorem sram_write_read_back_witness:
  "case ccat_sram_write ram_bus (\<lambda>_. 0) sram0 [7, 8] 2 3 sram_state0 of
     (r, off', s') \<Rightarrow> r = 2 \<and>
       (\<exists>off'' s''. read_blocks (\<lambda>len off s. Some (ccat_sram_read ram_bus (\<lambda>_. 0) sram0 len off s)) [5, 20] 0 s' =
         Some (take 3 (sram_contents (\<lambda>h. h) sram0 sram_state0) @ [7, 8] @ drop 5 (sram_contents (\<lambda>h. h) sram0 sram_state0), off'', s''))"
proof -
  obtain r off' s' where run: "ccat_sram_write ram_bus (\<lambda>_. 0) sram0 [7, 8] 2 3 sram_state0 = (r, off', s')"
    by (metis prod.collapse)
  from sram_write_read_back [OF sram_state0_inv _ _ run, of "[5, 20]"] run show ?thesis by (simp add: sram0_def)
qed

theorem sram_write_refused_witness:
  "ccat_sram_write ram_bus (\<lambda>_. 0) sram0 [7, 8] 2 15 sram_state0 = (0, 15, sram_state0)"
proof -
  obtain r off' s' where run: "ccat_sram_write ram_bus (\<lambda>_. 0) sram0 [7, 8] 2 15 sram_state0 = (r, off', s')"
    by (metis prod.collapse)
  from sram_write_refused [OF _ _ run] run show ?thesis by (simp add: sram0_def)
qed

theorem sram_iosize_wraps_witness:
  "sram_iosize \<lparr>info_type = 0x16, info_rev = 0, info_config = 0x1F01, info_addr = 0, info_size = 0\<rparr> = Inr (- (2 ^ 31))"
  by (rule sram_iosize_wraps) (simp add: sram_size_def)

end
