(* ===== verification/Ccat_Systemtime.thy ===== *)
theory Ccat_Systemtime
  imports Ccat_Types
begin

text \<open>
  The clock source of \<^verbatim>\<open>src/systemtime.c\<close>: a 64-bit counter of the device, registered with a
  32-bit mask and a rate of one tick per nanosecond. \<open>readq\<close> is one 64-bit access where the architecture has one (the parameter \<open>native\<close>)
  and otherwise, as \<^verbatim>\<open>linux/io-64-nonatomic-lo-hi.h\<close> defines it, two 32-bit accesses, the low word first.
\<close>

record clocksource =
  cs_name :: "string option"
  cs_rating :: nat
  cs_mask :: u64
  cs_mult :: u32
  cs_shift :: u32

record ccat_systemtime =
  sys_ioaddr :: addr
  sys_clock :: clocksource

type_synonym 'h readq_op = "(addr \<Rightarrow> 'h \<Rightarrow> u64 \<times> 'h) option"

definition readq :: "'h readq_op \<Rightarrow> 'h mmio \<Rightarrow> addr \<Rightarrow> 'h \<Rightarrow> u64 \<times> 'h" where
  "readq native hw a h =
     (case native of
        Some rd \<Rightarrow> rd a h
      | None \<Rightarrow>
          let (low, h) = ioread32 hw a h; (high, h) = ioread32 hw (a + 4) h
          in (ucast low + push_bit 32 (ucast high), h))"

definition ccat_systemtime_get :: "'h readq_op \<Rightarrow> 'h mmio \<Rightarrow> ccat_systemtime \<Rightarrow> 'h \<Rightarrow> u64 \<times> 'h" where
  "ccat_systemtime_get native hw st h = readq native hw (sys_ioaddr st) h"

definition ccat_systemtime_get_cycles :: "'h readq_op \<Rightarrow> 'h mmio \<Rightarrow> ccat_systemtime \<Rightarrow> 'h \<Rightarrow> u64 \<times> 'h" where
  "ccat_systemtime_get_cycles = ccat_systemtime_get"

definition CCAT_SYSTEMTIME_RATING :: nat where "CCAT_SYSTEMTIME_RATING = 140"

text \<open>Decimal digits, for the name \<open>ccat%d\<close>.\<close>

fun decimal :: "nat \<Rightarrow> string" where
  "decimal n = (if n < 10 then [char_of (48 + n)] else decimal (n div 10) @ [char_of (48 + n mod 10)])"

declare decimal.simps [simp del]

text \<open>
  Probe and remove. \<open>cnt\<close> is the static counter, \<open>kz\<close> whether the allocation succeeds, \<open>kn\<close> whether
  that of the name does (a failure leaves a null name, which is not tested), \<open>reg\<close> the
  status of \<open>clocksource_register_hz\<close>; the list holds the registered clock sources and the option is
  the function's \<open>private_data\<close>, set before the registration.
\<close>

definition ccat_systemtime_probe ::
  "bool \<Rightarrow> bool \<Rightarrow> (clocksource \<Rightarrow> int) \<Rightarrow> ccat_function \<Rightarrow> nat \<Rightarrow> clocksource list \<Rightarrow>
     int \<times> nat \<times> clocksource list \<times> ccat_systemtime option" where
  "ccat_systemtime_probe kz kn reg func cnt clocks =
     (if \<not> kz then (- ENOMEM, cnt, clocks, None)
      else
        let clock = \<lparr>cs_name = (if kn then Some (''ccat'' @ decimal cnt) else None),
              cs_rating = CCAT_SYSTEMTIME_RATING, cs_mask = mask 32, cs_mult = 1, cs_shift = 0\<rparr>;
            st = \<lparr>sys_ioaddr = func_base func, sys_clock = clock\<rparr>
        in (reg clock, Suc cnt, if reg clock = 0 then clock # clocks else clocks, Some st))"

definition ccat_systemtime_remove :: "ccat_systemtime option \<Rightarrow> clocksource list \<Rightarrow> clocksource list exec" where
  "ccat_systemtime_remove private_data clocks =
     (case private_data of None \<Rightarrow> Inl NullDeref | Some st \<Rightarrow> Inr (remove1 (sys_clock st) clocks))"

section \<open>A running counter\<close>

text \<open>
  What is assumed of the device: \<open>now\<close> is the number of ticks its counter has run; a read of the low word
  returns its value modulo 2^32 at that moment, a 64-bit read its value modulo 2^64. The counter
  runs on between the two accesses of a split read: nothing is assumed of the high word.
\<close>

definition counter_law :: "'h readq_op \<Rightarrow> 'h mmio \<Rightarrow> ('h \<Rightarrow> nat) \<Rightarrow> addr \<Rightarrow> bool" where
  "counter_law native hw now a \<longleftrightarrow>
     (\<forall>h. fst (ioread32 hw a h) = of_nat (now h)) \<and>
     (\<forall>rd. native = Some rd \<longrightarrow> (\<forall>h. fst (rd a h) = of_nat (now h)))"

lemma mask32_unat: "unat (w AND mask 32 :: u64) = unat w mod 2 ^ 32"
proof -
  have "w AND mask 32 = w mod 2 ^ 32" by (simp only: take_bit_eq_mod flip: take_bit_eq_mask)
  then show ?thesis by (simp add: unat_mod_distrib)
qed

lemma split_read_low: "unat ((ucast (low :: u32) + push_bit 32 high :: u64) AND mask 32) = unat low"
proof -
  have low: "unat low < 2 ^ 32" using unsigned_less [of low, where 'a = nat] by simp
  then have u: "unat (ucast low :: u64) = unat low" by (simp add: unsigned_ucast_eq take_bit_nat_eq_self_iff)
  have "unat (push_bit 32 high) = unat high * 2 ^ 32 mod 2 ^ 64"
    by (simp add: push_bit_eq_mult unat_word_ariths)
  then have "unat (ucast low + push_bit 32 high :: u64) = (unat low + unat high * 2 ^ 32 mod 2 ^ 64) mod 2 ^ 64"
    by (simp add: unat_word_ariths u)
  also have "\<dots> mod 2 ^ 32 = (unat low + unat high * 2 ^ 32) mod 2 ^ 32"
    by (simp add: mod_mod_cancel mod_add_right_eq)
  finally show ?thesis using low by (simp add: mask32_unat)
qed

lemma get_masked:
  assumes "counter_law native hw now (sys_ioaddr st)" and "ccat_systemtime_get native hw st h = (t, h')"
  shows "unat (t AND mask 32) = now h mod 2 ^ 32"
proof (cases native)
  case None
  obtain low h1 high h2 where rd: "ioread32 hw (sys_ioaddr st) h = (low, h1)" "ioread32 hw (sys_ioaddr st + 4) h1 = (high, h2)"
    by (metis prod.collapse)
  have low: "low = of_nat (now h)" using assms(1) rd(1) unfolding counter_law_def by (metis fst_conv)
  have "t = ucast low + push_bit 32 (ucast high)"
    using assms(2) None rd by (simp add: ccat_systemtime_get_def readq_def)
  then show ?thesis by (simp only: split_read_low) (simp add: low unat_of_nat)
next
  case (Some rd)
  then have "t = of_nat (now h)"
    using assms by (auto simp: counter_law_def ccat_systemtime_get_def readq_def) (metis fst_conv)
  then show ?thesis unfolding mask32_unat by (simp add: unat_of_nat mod_mod_cancel)
qed

text \<open>The difference of two readings, masked with 32 bits.\<close>

lemma elapsed_masked:
  assumes "counter_law native hw now (sys_ioaddr st)"
    and "ccat_systemtime_get native hw st h = (t, h1)" and "ccat_systemtime_get native hw st h2 = (t', h3)"
    and "now h \<le> now h2" and "now h2 - now h < 2 ^ 32"
  shows "unat ((t' - t) AND mask 32) = now h2 - now h"
proof -
  have t: "unat t mod 2 ^ 32 = now h mod 2 ^ 32" "unat t' mod 2 ^ 32 = now h2 mod 2 ^ 32"
    using get_masked [OF assms(1,2)] get_masked [OF assms(1,3)] by (simp_all add: mask32_unat)
  let ?d = "now h2 - now h"
  have "(unat (t' - t) + unat t) mod 2 ^ 32 = unat t' mod 2 ^ 32"
  proof -
    have "unat t' = unat ((t' - t) + t)" by simp
    also have "\<dots> = (unat (t' - t) + unat t) mod 2 ^ 64" by (simp only: unat_word_ariths) simp
    finally show ?thesis by (simp add: mod_mod_cancel)
  qed
  also have "\<dots> = (?d + now h) mod 2 ^ 32" using t(2) assms(4) by simp
  also have "\<dots> = (?d + unat t) mod 2 ^ 32" by (metis t(1) mod_add_right_eq)
  finally have "unat (t' - t) mod 2 ^ 32 = ?d mod 2 ^ 32" by (simp add: nat_mod_eq_iff)
  then show ?thesis using assms(5) by (simp add: mask32_unat)
qed

text \<open>C27: a successful probe registers a clock whose readings the kernel can subtract: with the mask that the
  probe gave to the clock, the difference of two readings is the number of ticks the counter ran
  between them, as long as that is less than 2^32, although the counter wraps and although a split
  read may combine halves of different moments.\<close>

theorem systemtime_elapsed:
  assumes "ccat_systemtime_probe kz kn reg func cnt clocks = (0, cnt', clocks', Some st)"
    and "counter_law native hw now (func_base func)"
    and "ccat_systemtime_get native hw st h = (t, h1)" and "ccat_systemtime_get native hw st h2 = (t', h3)"
    and "now h \<le> now h2" and "now h2 - now h < 2 ^ 32"
  shows "clocks' = sys_clock st # clocks \<and> unat ((t' - t) AND cs_mask (sys_clock st)) = now h2 - now h"
proof -
  have p: "clocks' = sys_clock st # clocks" "sys_ioaddr st = func_base func" "cs_mask (sys_clock st) = mask 32"
    using assms(1) by (auto simp: ccat_systemtime_probe_def Let_def split: if_splits)
  have "counter_law native hw now (sys_ioaddr st)" using assms(2) by (simp add: p(2))
  then show ?thesis using elapsed_masked [OF _ assms(3-6)] by (simp add: p(1,3))
qed

text \<open>A device whose state is the time, advancing by 2 with every access.\<close>

definition clock_bus :: "nat mmio" where
  "clock_bus = \<lparr>ioread8 = (\<lambda>a t. (of_nat t, t + 2)), ioread16 = (\<lambda>a t. (of_nat t, t + 2)),
     ioread32 = (\<lambda>a t. (if a = 0x104 then of_nat (t div 2 ^ 32) else of_nat t, t + 2)),
     memcpy_fromio = (\<lambda>a n t. ([], t)), iowrite8 = (\<lambda>v a t. t), iowrite16 = (\<lambda>v a t. t), iowrite32 = (\<lambda>v a t. t),
     memcpy_toio = (\<lambda>a bs t. t), schedule = (\<lambda>t. t)\<rparr>"

definition systemtime_func0 :: ccat_function where
  "systemtime_func0 = \<lparr>func_ccat = \<lparr>bar_0 = 0x100, bar_2 = 0\<rparr>,
     func_info = \<lparr>info_type = 0x10, info_rev = 0, info_config = 0, info_addr = 0, info_size = 0\<rparr>\<rparr>"

theorem systemtime_elapsed_witness:
  "\<exists>cnt' clocks' st. ccat_systemtime_probe True True (\<lambda>_. 0) systemtime_func0 0 [] = (0, cnt', clocks', Some st) \<and>
     unat ((fst (ccat_systemtime_get None clock_bus st 0x100000005) -
            fst (ccat_systemtime_get None clock_bus st 0xFFFFFFFF)) AND cs_mask (sys_clock st)) = 6"
proof -
  obtain cnt' clocks' st where p: "ccat_systemtime_probe True True (\<lambda>_. 0) systemtime_func0 0 [] = (0, cnt', clocks', Some st)"
    by (simp add: ccat_systemtime_probe_def Let_def)
  have law: "counter_law None clock_bus (\<lambda>t. t) (func_base systemtime_func0)"
    by (simp add: counter_law_def clock_bus_def systemtime_func0_def func_base_def)
  show ?thesis
    using systemtime_elapsed [OF p law prod.collapse [symmetric] prod.collapse [symmetric], of "0xFFFFFFFF" "0x100000005"] p by auto
qed

section \<open>The names of the clocks\<close>

text \<open>Any number of functions are probed and removed, in any order.\<close>

datatype clock_op = Clock_Probe bool bool "clocksource \<Rightarrow> int" ccat_function | Clock_Remove ccat_systemtime

fun clock_call :: "clock_op \<Rightarrow> nat \<times> clocksource list \<Rightarrow> nat \<times> clocksource list" where
  "clock_call (Clock_Probe kz kn reg func) (cnt, clocks) =
     (case ccat_systemtime_probe kz kn reg func cnt clocks of (r, cnt, clocks, st) \<Rightarrow> (cnt, clocks))"
| "clock_call (Clock_Remove st) (cnt, clocks) =
     (case ccat_systemtime_remove (Some st) clocks of Inl e \<Rightarrow> (cnt, clocks) | Inr clocks \<Rightarrow> (cnt, clocks))"

text \<open>The value of a decimal numeral, to which the digits can be read back.\<close>

definition undecimal :: "string \<Rightarrow> nat" where
  "undecimal cs = fold (\<lambda>c n. 10 * n + (of_char c - 48)) cs 0"

lemma undecimal_decimal: "undecimal (decimal n) = n"
proof (induction n rule: decimal.induct)
  case (1 n)
  have digit: "of_char (char_of (48 + k :: nat) :: char) - 48 = k" if "k < 10" for k :: nat
    using that by simp
  show ?case
  proof (cases "n < 10")
    case True
    then show ?thesis by (simp add: decimal.simps [of n] undecimal_def)
  next
    case False
    have "undecimal (decimal n) = 10 * undecimal (decimal (n div 10)) + n mod 10"
      using False digit [of "n mod 10"] by (simp add: decimal.simps [of n] undecimal_def)
    then show ?thesis using 1 [OF False] by simp
  qed
qed

lemma clock_name_inj: "''ccat'' @ decimal i = ''ccat'' @ decimal j \<Longrightarrow> i = j"
  using undecimal_decimal by (metis same_append_eq)

text \<open>The names of the registered clocks come from earlier values of the counter.\<close>

definition clock_names :: "clocksource list \<Rightarrow> string list" where
  "clock_names cs = concat (map (\<lambda>c. case cs_name c of None \<Rightarrow> [] | Some nm \<Rightarrow> [nm]) cs)"

definition clocks_inv :: "nat \<times> clocksource list \<Rightarrow> bool" where
  "clocks_inv s \<longleftrightarrow> distinct (clock_names (snd s)) \<and> set (clock_names (snd s)) \<subseteq> (\<lambda>i. ''ccat'' @ decimal i) ` {..<fst s}"

lemma clock_names_remove1:
  "set (clock_names (remove1 c cs)) \<subseteq> set (clock_names cs)" "distinct (clock_names cs) \<Longrightarrow> distinct (clock_names (remove1 c cs))"
proof -
  show sub: "set (clock_names (remove1 c cs)) \<subseteq> set (clock_names cs)" for cs
    by (induction cs) (auto simp: clock_names_def)
  show "distinct (clock_names cs) \<Longrightarrow> distinct (clock_names (remove1 c cs))"
  proof (induction cs)
    case (Cons x xs)
    then show ?case using sub [of xs] by (auto simp: clock_names_def split: option.splits)
  qed simp
qed

lemma clock_call_inv:
  assumes "clocks_inv s"
  shows "clocks_inv (clock_call x s)"
proof (cases x)
  case (Clock_Probe kz kn reg func)
  obtain cnt cs where s: "s = (cnt, cs)" by fastforce
  have fresh: "''ccat'' @ decimal cnt \<notin> set (clock_names cs)"
    using assms clock_name_inj by (fastforce simp: clocks_inv_def s)
  have mono: "set (clock_names cs) \<subseteq> (\<lambda>i. ''ccat'' @ decimal i) ` {..<Suc cnt}"
    using assms by (fastforce simp: clocks_inv_def s)
  show ?thesis
    using assms fresh mono
    by (auto simp: Clock_Probe s ccat_systemtime_probe_def clocks_inv_def clock_names_def Let_def)
next
  case (Clock_Remove st)
  then show ?thesis using assms clock_names_remove1 [where c = "sys_clock st" and cs = "snd s"]
    by (cases s) (auto simp only: ccat_systemtime_remove_def clocks_inv_def clock_call.simps option.case sum.case fst_conv snd_conv)
qed


end
