(* ===== verification/Ccat_Module.thy ===== *)
theory Ccat_Module
  imports Ccat_Types Ccat_Replug
begin

text \<open>
  The core of \<^verbatim>\<open>src/module.c\<close> (lines 21 to 46 and 208 to 424): reading the table of information blocks,
  connecting each function to the driver of its type, and probe and remove on PCI and EIM.

  The kernel's side of the multi-function device is the record \<open>mfd_kernel\<close>: the cells added so far
  with their platform data, how many allocations and additions were asked for, and how many
  \<open>struct ccat_function\<close> allocations are live. Its answers are the parameter \<open>mfd_env\<close>.
\<close>

section \<open>Connecting functions\<close>

definition ccat_cells :: "(ccat_info_t \<times> string) list" where
  "ccat_cells =
     [(CCATINFO_ETHERCAT_NODMA, ''ccat_eth_eim''),
      (CCATINFO_ETHERCAT_MASTER_DMA, ''ccat_eth_dma''),
      (CCATINFO_GPIO, ''ccat_gpio''),
      (CCATINFO_EPCS_PROM, ''ccat_update''),
      (CCATINFO_SRAM, ''ccat_sram''),
      (CCATINFO_SYSTEMTIME, ''ccat_systemtime'')]"

record mfd_kernel =
  mk_cells :: "(string \<times> ccat_function) list"
  mk_kz :: nat
  mk_adds :: nat
  mk_live :: nat

text \<open>Whether the \<open>n\<close>-th \<open>kzalloc\<close> succeeds, and the status of the \<open>n\<close>-th \<open>mfd_add_devices\<close>.\<close>

record mfd_env =
  me_kz :: "nat \<Rightarrow> bool"
  me_add :: "nat \<Rightarrow> int"

definition kzalloc_function :: "mfd_env \<Rightarrow> mfd_kernel \<Rightarrow> bool \<times> mfd_kernel" where
  "kzalloc_function env k =
     (me_kz env (mk_kz k),
      k\<lparr>mk_kz := Suc (mk_kz k), mk_live := mk_live k + (if me_kz env (mk_kz k) then 1 else 0)\<rparr>)"

definition kfree_function :: "bool \<Rightarrow> mfd_kernel \<Rightarrow> mfd_kernel" where
  "kfree_function next k = (if next then k\<lparr>mk_live := mk_live k - 1\<rparr> else k)"

definition mfd_add_devices :: "mfd_env \<Rightarrow> string \<Rightarrow> ccat_function \<Rightarrow> mfd_kernel \<Rightarrow> int \<times> mfd_kernel" where
  "mfd_add_devices env nm func k =
     (let r = me_add env (mk_adds k); k = k\<lparr>mk_adds := Suc (mk_adds k)\<rparr>
      in (r, if r = 0 then k\<lparr>mk_cells := mk_cells k @ [(nm, func)]\<rparr> else k))"

text \<open>The loop of \<open>ccat_function_connect\<close> over the table.\<close>

fun find_cell :: "u16 \<Rightarrow> (ccat_info_t \<times> string) list \<Rightarrow> string option" where
  "find_cell t [] = None"
| "find_cell t ((ty, nm) # cells) = (if t = ccat_info_code ty then Some nm else find_cell t cells)"

definition ccat_function_connect :: "mfd_env \<Rightarrow> ccat_function \<Rightarrow> mfd_kernel \<Rightarrow> int \<times> mfd_kernel" where
  "ccat_function_connect env func k =
     (case find_cell (info_type (func_info func)) ccat_cells of
        None \<Rightarrow> (0, k)
      | Some nm \<Rightarrow> mfd_add_devices env nm func k)"

text \<open>
  The loop of \<open>ccat_functions_init\<close> with \<open>n\<close> blocks left; \<open>next\<close> is whether the pointer to the next
  function is not null.
\<close>

fun functions_loop ::
  "mfd_env \<Rightarrow> 'h mmio \<Rightarrow> ccat_device \<Rightarrow> bool \<Rightarrow> addr \<Rightarrow> nat \<Rightarrow> mfd_kernel \<Rightarrow> 'h \<Rightarrow> int \<times> mfd_kernel \<times> 'h" where
  "functions_loop env hw ccatdev next a 0 k h = (0, kfree_function next k, h)"
| "functions_loop env hw ccatdev next a (Suc n) k h =
     (if \<not> next then (0, kfree_function next k, h)
      else
        let (bs, h) = memcpy_fromio hw a info_block_size h; info = info_block_of_bytes bs
        in if info_type info \<noteq> ccat_info_code CCATINFO_NOTUSED then
             let (ret, k) = ccat_function_connect env \<lparr>func_ccat = ccatdev, func_info = info\<rparr> k
             in if ret < 0 then (ret, k, h)
                else let (next, k) = kzalloc_function env k
                     in functions_loop env hw ccatdev next (a + info_block_size) n k h
           else functions_loop env hw ccatdev next (a + info_block_size) n k h)"

text \<open>The date in the message is read from the three bytes after the number of blocks.\<close>

definition ccat_functions_init ::
  "mfd_env \<Rightarrow> 'h mmio \<Rightarrow> ccat_device \<Rightarrow> mfd_kernel \<Rightarrow> 'h \<Rightarrow> int \<times> mfd_kernel \<times> 'h" where
  "ccat_functions_init env hw ccatdev k h =
     (let (next, k) = kzalloc_function env k;
          a = bar_0 ccatdev;
          (num_func, h) = ioread8 hw (a + 4) h;
          h = snd (ioread8 hw (a + 7) h);
          h = snd (ioread8 hw (a + 6) h);
          h = snd (ioread8 hw (a + 5) h)
      in functions_loop env hw ccatdev next a (unat num_func) k h)"

section \<open>PCI\<close>

record pci_env =
  pe_kz :: bool
  pe_enable :: int
  pe_config :: int
  pe_regions :: int
  pe_dma64 :: int
  pe_dma32 :: int
  pe_bar0 :: addr
  pe_bar2 :: addr

record pci_state =
  ps_drvdata :: "ccat_device option"
  ps_enabled :: nat
  ps_regions :: nat
  ps_maps :: "addr list"
  ps_master :: bool

definition pci_iomap :: "addr \<Rightarrow> pci_state \<Rightarrow> addr \<times> pci_state" where
  "pci_iomap a s = (a, if a = 0 then s else s\<lparr>ps_maps := a # ps_maps s\<rparr>)"

definition pci_iounmap :: "addr \<Rightarrow> pci_state \<Rightarrow> pci_state" where
  "pci_iounmap a s = s\<lparr>ps_maps := remove1 a (ps_maps s)\<rparr>"

definition pci_release_regions :: "pci_state \<Rightarrow> pci_state" where
  "pci_release_regions s = s\<lparr>ps_regions := ps_regions s - 1\<rparr>"

definition pci_disable_device :: "pci_state \<Rightarrow> pci_state" where
  "pci_disable_device s = s\<lparr>ps_enabled := ps_enabled s - 1\<rparr>"

definition ccat_pci_probe ::
  "pci_env \<Rightarrow> mfd_env \<Rightarrow> 'h mmio \<Rightarrow> pci_state \<Rightarrow> mfd_kernel \<Rightarrow> 'h \<Rightarrow> int \<times> pci_state \<times> mfd_kernel \<times> 'h" where
  "ccat_pci_probe pe env hw s k h =
     (if \<not> pe_kz pe then (- ENOMEM, s, k, h)
      else
        let ccatdev = \<lparr>bar_0 = 0, bar_2 = 0\<rparr>;
            s = s\<lparr>ps_drvdata := Some ccatdev\<rparr>
        in if pe_enable pe \<noteq> 0 then (pe_enable pe, s, k, h)
        else
          let s = s\<lparr>ps_enabled := Suc (ps_enabled s)\<rparr>
          in if pe_config pe \<noteq> 0 then (pe_config pe, pci_disable_device s, k, h)
          else if pe_regions pe \<noteq> 0 then (pe_regions pe, pci_disable_device s, k, h)
          else
            let s = s\<lparr>ps_regions := Suc (ps_regions s)\<rparr>
            in if pe_dma64 pe \<noteq> 0 \<and> pe_dma32 pe \<noteq> 0 then
                 (pe_dma32 pe, pci_disable_device (pci_release_regions s), k, h)
            else
              let (b0, s) = pci_iomap (pe_bar0 pe) s; ccatdev = ccatdev\<lparr>bar_0 := b0\<rparr>;
                  s = s\<lparr>ps_drvdata := Some ccatdev\<rparr>
              in if b0 = 0 then (- EIO, pci_disable_device (pci_release_regions s), k, h)
              else
                let (b2, s) = pci_iomap (pe_bar2 pe) s; ccatdev = ccatdev\<lparr>bar_2 := b2\<rparr>;
                    s = s\<lparr>ps_drvdata := Some ccatdev, ps_master := True\<rparr>;
                    (r, k, h) = ccat_functions_init env hw ccatdev k h
                in (0, s, k, h))"

text \<open>A device is told from others by its mappings.\<close>

definition mfd_remove_devices :: "ccat_device \<Rightarrow> mfd_kernel \<Rightarrow> mfd_kernel" where
  "mfd_remove_devices d k = k\<lparr>mk_cells := filter (\<lambda>(nm, f). func_ccat f \<noteq> d) (mk_cells k)\<rparr>"

definition ccat_pci_remove :: "pci_state \<Rightarrow> mfd_kernel \<Rightarrow> pci_state \<times> mfd_kernel" where
  "ccat_pci_remove s k =
     (case ps_drvdata s of
        None \<Rightarrow> (s, k)
      | Some d \<Rightarrow>
          let k = mfd_remove_devices d k;
              s = (if bar_2 d \<noteq> 0 then pci_iounmap (bar_2 d) s else s);
              s = pci_iounmap (bar_0 d) s;
              s = pci_release_regions s;
              s = pci_disable_device s
          in (s, k))"

section \<open>EIM\<close>

definition CCAT_EIM_ADDR :: nat where "CCAT_EIM_ADDR = 0xf0000000"
definition CCAT_EIM_LEN :: nat where "CCAT_EIM_LEN = 0x02000000"

record eim_env =
  ie_kz :: bool
  ie_region :: bool
  ie_map :: addr

record eim_state =
  es_drvdata :: "ccat_device option"
  es_regions :: "(nat \<times> nat) list"
  es_maps :: "addr list"

definition ccat_eim_probe ::
  "eim_env \<Rightarrow> mfd_env \<Rightarrow> 'h mmio \<Rightarrow> eim_state \<Rightarrow> mfd_kernel \<Rightarrow> 'h \<Rightarrow> int \<times> eim_state \<times> mfd_kernel \<times> 'h" where
  "ccat_eim_probe ie env hw s k h =
     (if \<not> ie_kz ie then (- ENOMEM, s, k, h)
      else
        let s = s\<lparr>es_drvdata := Some \<lparr>bar_0 = 0, bar_2 = 0\<rparr>\<rparr>
        in if \<not> ie_region ie then (- EIO, s, k, h)
        else
          let s = s\<lparr>es_regions := (CCAT_EIM_ADDR, CCAT_EIM_LEN) # es_regions s\<rparr>
          in if ie_map ie = 0 then (- EIO, s, k, h)
          else
            let ccatdev = \<lparr>bar_0 = ie_map ie, bar_2 = 0\<rparr>;
                s = s\<lparr>es_drvdata := Some ccatdev, es_maps := ie_map ie # es_maps s\<rparr>;
                (r, k, h) = ccat_functions_init env hw ccatdev k h
            in (0, s, k, h))"

definition ccat_eim_remove :: "eim_state \<Rightarrow> mfd_kernel \<Rightarrow> int \<times> eim_state \<times> mfd_kernel" where
  "ccat_eim_remove s k =
     (case es_drvdata s of
        None \<Rightarrow> (0, s, k)
      | Some d \<Rightarrow>
          (0, s\<lparr>es_maps := remove1 (bar_0 d) (es_maps s),
                es_regions := remove1 (CCAT_EIM_ADDR, CCAT_EIM_LEN) (es_regions s)\<rparr>,
           mfd_remove_devices d k))"

section \<open>The table of functions\<close>

text \<open>What is assumed of the information table: it is read-only memory of the device.\<close>

definition table_law :: "'h mmio \<Rightarrow> ('h \<Rightarrow> memory) \<Rightarrow> addr \<Rightarrow> nat \<Rightarrow> bool" where
  "table_law hw cells base len \<longleftrightarrow>
     (\<forall>h a n. base \<le> a \<longrightarrow> a + n \<le> base + len \<longrightarrow>
        fst (memcpy_fromio hw a n h) = mem_read (cells h) a n \<and> cells (snd (memcpy_fromio hw a n h)) = cells h) \<and>
     (\<forall>h a. cells (snd (ioread8 hw a h)) = cells h)"

definition table_blocks :: "memory \<Rightarrow> addr \<Rightarrow> nat \<Rightarrow> ccat_info_block list" where
  "table_blocks c a n = map (\<lambda>i. info_block_of_bytes (mem_read c (a + i * info_block_size) info_block_size)) [0..<n]"

definition block_used :: "ccat_info_block \<Rightarrow> bool" where
  "block_used info \<longleftrightarrow> info_type info \<noteq> ccat_info_code CCATINFO_NOTUSED"

text \<open>The cell a block asks for, if its type has a driver.\<close>

definition cell_of :: "ccat_device \<Rightarrow> ccat_info_block \<Rightarrow> (string \<times> ccat_function) list" where
  "cell_of d info =
     (case find_cell (info_type info) ccat_cells of
        None \<Rightarrow> []
      | Some nm \<Rightarrow> [(nm, \<lparr>func_ccat = d, func_info = info\<rparr>)])"

lemma cell_of_unused: "\<not> block_used info \<Longrightarrow> cell_of d info = []"
  by (simp add: block_used_def cell_of_def ccat_cells_def)

lemma table_blocks_Suc:
  "table_blocks c a (Suc n) =
     info_block_of_bytes (mem_read c a info_block_size) # table_blocks c (a + info_block_size) n"
  by (simp add: table_blocks_def upt_conv_Cons map_Suc_upt [symmetric] comp_def algebra_simps del: upt_Suc)

lemma connect_granted:
  assumes "\<forall>n. me_add env n = 0"
  shows "ccat_function_connect env \<lparr>func_ccat = d, func_info = info\<rparr> k =
    (0, k\<lparr>mk_cells := mk_cells k @ cell_of d info,
          mk_adds := mk_adds k + length (cell_of d info)\<rparr>)"
  using assms by (simp add: ccat_function_connect_def mfd_add_devices_def cell_of_def split: option.split)

lemma functions_loop_granted:
  assumes "\<forall>n. me_kz env n" and "\<forall>n. me_add env n = 0" and "table_law hw cells base len"
    and "base \<le> a" and "a + n * info_block_size \<le> base + len"
    and "functions_loop env hw d True a n k h = (r, k', h')" and "0 < mk_live k"
  shows "r = 0 \<and> mk_cells k' = mk_cells k @ concat (map (cell_of d) (table_blocks (cells h) a n)) \<and>
    Suc (mk_live k') = mk_live k + length (filter block_used (table_blocks (cells h) a n))"
  using assms(4-7)
proof (induction n arbitrary: a k h)
  case 0
  then show ?case by (auto simp: table_blocks_def kfree_function_def)
next
  case (Suc n)
  let ?info = "info_block_of_bytes (mem_read (cells h) a info_block_size)"
  obtain bs h1 where rd: "memcpy_fromio hw a info_block_size h = (bs, h1)" by fastforce
  have fit: "base \<le> a" "a + info_block_size \<le> base + len" using Suc.prems(1,2) by simp_all
  have rd': "bs = mem_read (cells h) a info_block_size" "cells h1 = cells h"
    using assms(3) fit rd unfolding table_law_def by (metis fst_conv, metis snd_conv)
  have next_a: "base \<le> a + info_block_size" "a + info_block_size + n * info_block_size \<le> base + len"
    using Suc.prems(1,2) by simp_all
  note blocks = table_blocks_Suc [of "cells h" a n]
  show ?case
  proof (cases "block_used ?info")
    case True
    let ?k = "k\<lparr>mk_cells := mk_cells k @ cell_of d ?info, mk_adds := mk_adds k + length (cell_of d ?info)\<rparr>"
    have "functions_loop env hw d True (a + info_block_size) n
        (?k\<lparr>mk_kz := Suc (mk_kz ?k), mk_live := mk_live ?k + 1\<rparr>) h1 = (r, k', h')"
      using Suc.prems(3) True assms(1) rd rd'
      by (simp add: connect_granted [OF assms(2)] kzalloc_function_def block_used_def Let_def)
    from Suc.IH [OF next_a this] show ?thesis using True by (simp add: blocks rd'(2))
  next
    case False
    then have "functions_loop env hw d True (a + info_block_size) n k h1 = (r, k', h')"
      using Suc.prems(3) rd rd' by (simp add: block_used_def Let_def)
    from Suc.IH [OF next_a this Suc.prems(4)] show ?thesis using False by (simp add: blocks rd'(2) cell_of_unused)
  qed
qed

lemma functions_init_cells:
  assumes "\<forall>n. me_kz env n" and "\<forall>n. me_add env n = 0"
    and "num = unat (fst (ioread8 hw (bar_0 d + 4) h))"
    and "table_law hw cells (bar_0 d) (num * info_block_size)"
    and "ccat_functions_init env hw d k h = (r, k', h')"
  shows "r = 0 \<and> mk_cells k' = mk_cells k @ concat (map (cell_of d) (table_blocks (cells h) (bar_0 d) num)) \<and>
    mk_live k' = mk_live k + length (filter block_used (table_blocks (cells h) (bar_0 d) num))"
proof -
  let ?h = "snd (ioread8 hw (bar_0 d + 5) (snd (ioread8 hw (bar_0 d + 6) (snd (ioread8 hw (bar_0 d + 7) (snd (ioread8 hw (bar_0 d + 4) h)))))))"
  let ?k = "k\<lparr>mk_kz := Suc (mk_kz k), mk_live := mk_live k + 1\<rparr>"
  have c: "cells ?h = cells h" using assms(4) by (simp add: table_law_def)
  have "functions_loop env hw d True (bar_0 d) num ?k ?h = (r, k', h')"
    using assms(1,3,5) by (simp add: ccat_functions_init_def kzalloc_function_def Let_def case_prod_beta)
  from functions_loop_granted [OF assms(1,2,4) _ _ this] show ?thesis by (simp add: c)
qed

section \<open>Properties\<close>

text \<open>C20: on a kernel that grants its requests every used block of the table whose type has a driver
  becomes exactly one cell with the block as platform data, in the order of the table, and unknown
  or unused blocks become none. The function records allocated for the used blocks stay allocated:
  one for each of them.\<close>

theorem functions_init_connects:
  assumes "\<forall>n. me_kz env n" and "\<forall>n. me_add env n = 0"
    and "num = unat (fst (ioread8 hw (bar_0 d + 4) h))"
    and "table_law hw cells (bar_0 d) (num * info_block_size)"
    and "ccat_functions_init env hw d k h = (r, k', h')"
  shows "r = 0 \<and> mk_cells k' = mk_cells k @ concat (map (cell_of d) (table_blocks (cells h) (bar_0 d) num)) \<and>
    mk_live k' = mk_live k + length (filter block_used (table_blocks (cells h) (bar_0 d) num))"
  by (rule functions_init_cells [OF assms])

lemma functions_loop_result:
  assumes "functions_loop env hw d nx a n k h = (r, k', h')"
  shows "r = 0 \<or> r < 0 \<and> (\<exists>i. r = me_add env i)"
  using assms
proof (induction n arbitrary: nx a k h)
  case (Suc n)
  obtain bs h1 where rd: "memcpy_fromio hw a info_block_size h = (bs, h1)" by fastforce
  obtain ret k1 where c: "ccat_function_connect env \<lparr>func_ccat = d, func_info = info_block_of_bytes bs\<rparr> k = (ret, k1)" by fastforce
  have ret: "ret = 0 \<or> (\<exists>i. ret = me_add env i)"
    using c by (auto simp: ccat_function_connect_def mfd_add_devices_def Let_def split: option.splits)
  show ?case
    using Suc.prems Suc.IH rd c ret by (auto simp: Let_def split: if_splits prod.splits)
qed simp

text \<open>the result of \<open>ccat_functions_init\<close> is 0 or the negative status of a call of
  \<open>mfd_add_devices\<close>; it never is a positive count of failed functions.\<close>

theorem functions_init_result:
  assumes "ccat_functions_init env hw d k h = (r, k', h')"
  shows "r = 0 \<or> r < 0 \<and> (\<exists>i. r = me_add env i)"
  using assms unfolding ccat_functions_init_def Let_def case_prod_beta by (rule functions_loop_result)

text \<open>a PCI probe that fails leaves the device as disabled, its regions as free and its mappings as
  they were before; after one that succeeds, remove undoes all three and takes the cells of the
  device away.\<close>

theorem pci_probe_balanced:
  assumes "ccat_pci_probe pe env hw s k h = (st, s', k', h')"
  shows "if st \<noteq> 0 then
      ps_enabled s' = ps_enabled s \<and> ps_regions s' = ps_regions s \<and> ps_maps s' = ps_maps s \<and> k' = k
    else
      (case ccat_pci_remove s' k' of (s'', k'') \<Rightarrow>
         ps_enabled s'' = ps_enabled s \<and> ps_regions s'' = ps_regions s \<and> ps_maps s'' = ps_maps s \<and>
         (\<forall>c \<in> set (mk_cells k''). func_ccat (snd c) \<noteq> \<lparr>bar_0 = pe_bar0 pe, bar_2 = pe_bar2 pe\<rparr>))"
  using assms
  by (auto simp: ccat_pci_probe_def ccat_pci_remove_def mfd_remove_devices_def pci_iomap_def pci_iounmap_def
      pci_release_regions_def pci_disable_device_def Let_def split: if_splits prod.splits)

text \<open>when the EIM window cannot be mapped the probe fails and keeps the memory region it requested.\<close>

theorem eim_map_failure_leaks_region:
  assumes "ie_kz ie" and "ie_region ie" and "ie_map ie = 0"
  shows "\<exists>s'. ccat_eim_probe ie env hw s k h = (- EIO, s', k, h) \<and>
    es_regions s' = (CCAT_EIM_ADDR, CCAT_EIM_LEN) # es_regions s"
  using assms by (simp add: ccat_eim_probe_def)

text \<open>A table of three blocks: the CCAT block itself with the number of blocks at offset 4, an unused
  block and an SRAM block.\<close>

definition block0 :: ccat_info_block where
  "block0 = \<lparr>info_type = 1, info_rev = 0, info_config = 3, info_addr = 0, info_size = 0\<rparr>"

definition block1 :: ccat_info_block where
  "block1 = \<lparr>info_type = 0, info_rev = 0, info_config = 0, info_addr = 0, info_size = 0\<rparr>"

definition block2 :: ccat_info_block where
  "block2 = \<lparr>info_type = 0x16, info_rev = 0, info_config = 0x401, info_addr = 0x1000, info_size = 16\<rparr>"

definition table_bytes0 :: "u8 list" where
  "table_bytes0 = info_block_bytes block0 @ info_block_bytes block1 @ info_block_bytes block2"

definition table_mem0 :: memory where
  "table_mem0 = mem_write (\<lambda>_. 0) 0x100 table_bytes0"

definition mfd_env0 :: mfd_env where "mfd_env0 = \<lparr>me_kz = (\<lambda>_. True), me_add = (\<lambda>_. 0)\<rparr>"

definition mfd_kernel0 :: mfd_kernel where
  "mfd_kernel0 = \<lparr>mk_cells = [], mk_kz = 0, mk_adds = 0, mk_live = 0\<rparr>"

lemma ram_bus_table: "table_law ram_bus (\<lambda>h. h) base len"
  by (simp add: table_law_def ram_bus_def)

lemma table_mem0_count: "table_mem0 0x104 = 3"
  by code_simp

lemma table_mem0_blocks: "table_blocks table_mem0 0x100 3 = [block0, block1, block2]"
proof -
  have rd: "mem_read table_mem0 (0x100 + i * 16) 16 = take 16 (drop (i * 16) table_bytes0)" if "i < 3" for i
    unfolding table_mem0_def using that
    by (subst mem_read_write_sub) (simp_all add: table_bytes0_def info_block_size_def)
  have len: "length (info_block_bytes b) = 16" for b by (simp add: info_block_size_def)
  have "take 16 (drop 0 table_bytes0) = info_block_bytes block0" "take 16 (drop 16 table_bytes0) = info_block_bytes block1"
    "take 16 (drop 32 table_bytes0) = info_block_bytes block2"
    using len by (simp_all add: table_bytes0_def info_block_size_def)
  then show ?thesis
    using rd [of 0] rd [of 1] rd [of 2]
    by (simp add: table_blocks_def info_block_size_def upt_rec info_block_of_bytes_inverse)
qed

theorem functions_init_connects_witness:
  "\<exists>r k' h'. ccat_functions_init mfd_env0 ram_bus \<lparr>bar_0 = 0x100, bar_2 = 0\<rparr> mfd_kernel0 table_mem0 = (r, k', h') \<and>
     r = 0 \<and> map fst (mk_cells k') = [''ccat_sram''] \<and> mk_live k' = 2"
proof -
  obtain r k' h' where run: "ccat_functions_init mfd_env0 ram_bus \<lparr>bar_0 = 0x100, bar_2 = 0\<rparr> mfd_kernel0 table_mem0 = (r, k', h')"
    by (metis prod.collapse)
  have num: "3 = unat (fst (ioread8 ram_bus (bar_0 \<lparr>bar_0 = 0x100, bar_2 = 0\<rparr> + 4) table_mem0))"
    by (simp add: ram_bus_def table_mem0_count)
  have env: "\<forall>n. me_kz mfd_env0 n" "\<forall>n. me_add mfd_env0 n = 0" by (simp_all add: mfd_env0_def)
  have "mk_cells mfd_kernel0 = []" "mk_live mfd_kernel0 = 0" by (simp_all add: mfd_kernel0_def)
  with functions_init_connects [OF env num ram_bus_table run] run show ?thesis
    by (simp add: table_mem0_blocks cell_of_def ccat_cells_def block_used_def block0_def block1_def block2_def)
qed

theorem functions_init_result_witness:
  "fst (ccat_functions_init mfd_env0 ram_bus \<lparr>bar_0 = 0x100, bar_2 = 0\<rparr> mfd_kernel0 table_mem0) = 0"
proof -
  obtain r k' h' where run: "ccat_functions_init mfd_env0 ram_bus \<lparr>bar_0 = 0x100, bar_2 = 0\<rparr> mfd_kernel0 table_mem0 = (r, k', h')"
    by (metis prod.collapse)
  from functions_init_result [OF this] run show ?thesis by (auto simp: mfd_env0_def)
qed

definition pci_env0 :: pci_env where
  "pci_env0 = \<lparr>pe_kz = True, pe_enable = 0, pe_config = 0, pe_regions = 0, pe_dma64 = 0, pe_dma32 = 0, pe_bar0 = 0x100, pe_bar2 = 0x8000\<rparr>"

definition pci_state0 :: pci_state where
  "pci_state0 = \<lparr>ps_drvdata = None, ps_enabled = 0, ps_regions = 0, ps_maps = [], ps_master = False\<rparr>"

theorem pci_probe_balanced_witness:
  "\<exists>st s' k' h'. ccat_pci_probe (pci_env0\<lparr>pe_bar0 := 0\<rparr>) mfd_env0 ram_bus pci_state0 mfd_kernel0 table_mem0 = (st, s', k', h') \<and>
     st = - EIO \<and> ps_enabled s' = 0 \<and> ps_regions s' = 0"
proof -
  obtain st s' k' h' where run: "ccat_pci_probe (pci_env0\<lparr>pe_bar0 := 0\<rparr>) mfd_env0 ram_bus pci_state0 mfd_kernel0 table_mem0 = (st, s', k', h')"
    by (metis prod.collapse)
  have "st = - EIO" using run by (simp add: ccat_pci_probe_def pci_env0_def pci_iomap_def Let_def)
  moreover have "ps_enabled pci_state0 = 0" "ps_regions pci_state0 = 0" by (simp_all add: pci_state0_def)
  ultimately show ?thesis using pci_probe_balanced [OF run] run by simp
qed

theorem eim_map_failure_leaks_region_witness:
  "\<exists>s'. ccat_eim_probe \<lparr>ie_kz = True, ie_region = True, ie_map = 0\<rparr> mfd_env0 ram_bus
       \<lparr>es_drvdata = None, es_regions = [], es_maps = []\<rparr> mfd_kernel0 table_mem0 = (- EIO, s', mfd_kernel0, table_mem0) \<and>
     es_regions s' = [(CCAT_EIM_ADDR, CCAT_EIM_LEN)]"
  using eim_map_failure_leaks_region [of "\<lparr>ie_kz = True, ie_region = True, ie_map = 0\<rparr>" mfd_env0 ram_bus
      "\<lparr>es_drvdata = None, es_regions = [], es_maps = []\<rparr>" mfd_kernel0 table_mem0] by simp

section \<open>Plugging and unplugging\<close>

definition pci_plug :: "'h mmio \<Rightarrow> (pci_env \<times> mfd_env, pci_state \<times> mfd_kernel \<times> 'h, unit) probe_op" where
  "pci_plug hw e s =
     (let (st, s) = ccat_pci_probe (fst e) (snd e) hw (fst s) (fst (snd s)) (snd (snd s))
      in Inr (if st = 0 then Some () else None, s))"

definition pci_unplug :: "(pci_state \<times> mfd_kernel \<times> 'h, unit) remove_op" where
  "pci_unplug d s = (let (ps, k) = ccat_pci_remove (fst s) (fst (snd s)) in Inr (ps, k, snd (snd s)))"

definition pci_resources :: "pci_state \<times> mfd_kernel \<times> 'h \<Rightarrow> nat \<times> nat \<times> addr list" where
  "pci_resources s = (ps_enabled (fst s), ps_regions (fst s), ps_maps (fst s))"

interpretation pci_driver: hotplug "pci_plug hw" pci_unplug "\<lambda>s. True" "\<lambda>e. True" pci_resources for hw
proof
  fix s :: "pci_state \<times> mfd_kernel \<times> 'a" and e :: "pci_env \<times> mfd_env"
  obtain ps k h where s: "s = (ps, k, h)" by (cases s)
  obtain st ps1 k1 h1 where run: "ccat_pci_probe (fst e) (snd e) hw ps k h = (st, ps1, k1, h1)" by (metis prod.collapse)
  note bal = pci_probe_balanced [OF run]
  have plug: "pci_plug hw e s = Inr (if st = 0 then Some () else None, ps1, k1, h1)" by (simp add: pci_plug_def s run)
  then show "\<exists>d s'. pci_plug hw e s = Inr (d, s')" by blast
  show "True \<and> pci_resources s' = pci_resources s" if "pci_plug hw e s = Inr (None, s')" for s'
    using that plug bal by (auto simp: pci_resources_def s split: if_splits)
  show "\<exists>s''. pci_unplug d s' = Inr s'' \<and> True \<and> pci_resources s'' = pci_resources s" if "pci_plug hw e s = Inr (Some d, s')" for d s'
    using that plug bal by (auto simp: pci_resources_def pci_unplug_def s split: if_splits prod.splits)
qed

text \<open>the FPGA can be probed and removed on the PCI bus any number of times, whichever of its requests
  the kernel refuses: the enable count, the claimed regions and the mappings of its windows are
  as before.\<close>

theorem pci_replug:
  "\<exists>s' k' h'. replug (pci_plug hw) pci_unplug es (s, k, h) = Inr (s', k', h') \<and>
     ps_enabled s' = ps_enabled s \<and> ps_regions s' = ps_regions s \<and> ps_maps s' = ps_maps s"
  using pci_driver.replug_keeps [of es hw "(s, k, h)"] by (auto simp: pci_resources_def)

text \<open>The EIM bus.\<close>

definition eim_plug :: "'h mmio \<Rightarrow> (eim_env \<times> mfd_env, eim_state \<times> mfd_kernel \<times> 'h, unit) probe_op" where
  "eim_plug hw e s =
     (let (st, s) = ccat_eim_probe (fst e) (snd e) hw (fst s) (fst (snd s)) (snd (snd s))
      in Inr (if st = 0 then Some () else None, s))"

definition eim_unplug :: "(eim_state \<times> mfd_kernel \<times> 'h, unit) remove_op" where
  "eim_unplug d s = (let (r, es, k) = ccat_eim_remove (fst s) (fst (snd s)) in Inr (es, k, snd (snd s)))"

definition eim_resources :: "eim_state \<times> mfd_kernel \<times> 'h \<Rightarrow> (nat \<times> nat) list \<times> addr list" where
  "eim_resources s = (es_regions (fst s), es_maps (fst s))"

lemma eim_probe_balanced:
  assumes "ccat_eim_probe ie env hw s k h = (st, s', k', h')" and "ie_region ie \<longrightarrow> ie_map ie \<noteq> 0"
  shows "if st \<noteq> 0 then es_regions s' = es_regions s \<and> es_maps s' = es_maps s
    else (case ccat_eim_remove s' k' of (r, s'', k'') \<Rightarrow> es_regions s'' = es_regions s \<and> es_maps s'' = es_maps s)"
  using assms by (auto simp: ccat_eim_probe_def ccat_eim_remove_def Let_def split: if_splits prod.splits)

interpretation eim_bus: hotplug "eim_plug hw" eim_unplug "\<lambda>s. True" "\<lambda>e. ie_region (fst e) \<longrightarrow> ie_map (fst e) \<noteq> 0" eim_resources for hw
proof
  fix s :: "eim_state \<times> mfd_kernel \<times> 'a" and e :: "eim_env \<times> mfd_env"
  obtain es k h where s: "s = (es, k, h)" by (cases s)
  assume g: "ie_region (fst e) \<longrightarrow> ie_map (fst e) \<noteq> 0"
  obtain st es1 k1 h1 where run: "ccat_eim_probe (fst e) (snd e) hw es k h = (st, es1, k1, h1)" by (metis prod.collapse)
  note bal = eim_probe_balanced [OF run g]
  have plug: "eim_plug hw e s = Inr (if st = 0 then Some () else None, es1, k1, h1)" by (simp add: eim_plug_def s run)
  then show "\<exists>d s'. eim_plug hw e s = Inr (d, s')" by blast
  show "True \<and> eim_resources s' = eim_resources s" if "eim_plug hw e s = Inr (None, s')" for s'
    using that plug bal by (auto simp: eim_resources_def s split: if_splits)
  show "\<exists>s''. eim_unplug d s' = Inr s'' \<and> True \<and> eim_resources s'' = eim_resources s" if "eim_plug hw e s = Inr (Some d, s')" for d s'
    using that plug bal by (auto simp: eim_resources_def eim_unplug_def s split: if_splits prod.splits)
qed

text \<open>On the EIM bus it can be probed and removed any number of times without a leak as long as a region that
  was granted can also be mapped.\<close>

theorem eim_replug:
  assumes "\<forall>e \<in> set es. ie_region (fst e) \<longrightarrow> ie_map (fst e) \<noteq> 0"
  shows "\<exists>s' k' h'. replug (eim_plug hw) eim_unplug es (s, k, h) = Inr (s', k', h') \<and>
    es_regions s' = es_regions s \<and> es_maps s' = es_maps s"
  using eim_bus.replug_keeps [of es hw "(s, k, h)"] assms by (auto simp: eim_resources_def)

end
