(* ===== verification/Ccat_System.thy ===== *)
theory Ccat_System
  imports Ccat_Eth_Probe Ccat_Sram Ccat_Update Ccat_Gpio Ccat_Systemtime Ccat_Module
begin

text \<open>
  The drivers as the kernel sees them: the tables of \<^verbatim>\<open>platform_driver\<close>, \<^verbatim>\<open>pci_driver\<close> and device
  identifiers at the end of the source files, how the bus finds a driver for a cell of the FPGA by
  its name, and the state of all drivers together. The kernel probes the cells in the order of the
  table and removes them in the reverse order.
\<close>

section \<open>Driver tables\<close>

datatype driver = Drv_Eth_Eim | Drv_Eth_Dma | Drv_Gpio | Drv_Update | Drv_Sram | Drv_Systemtime

text \<open>\<open>pd_driver\<close> stands for the pair of probe and remove functions.\<close>

record platform_driver =
  pd_name :: string
  pd_driver :: driver

definition ccat_eth_eim_driver :: platform_driver where
  "ccat_eth_eim_driver = \<lparr>pd_name = ''ccat_eth_eim'', pd_driver = Drv_Eth_Eim\<rparr>"

definition ccat_eth_dma_driver :: platform_driver where
  "ccat_eth_dma_driver = \<lparr>pd_name = ''ccat_eth_dma'', pd_driver = Drv_Eth_Dma\<rparr>"

definition gpio_driver :: platform_driver where
  "gpio_driver = \<lparr>pd_name = ''ccat_gpio'', pd_driver = Drv_Gpio\<rparr>"

definition update_driver :: platform_driver where
  "update_driver = \<lparr>pd_name = ''ccat_update'', pd_driver = Drv_Update\<rparr>"

definition sram_driver :: platform_driver where
  "sram_driver = \<lparr>pd_name = ''ccat_sram'', pd_driver = Drv_Sram\<rparr>"

definition systemtime_driver :: platform_driver where
  "systemtime_driver = \<lparr>pd_name = ''ccat_systemtime'', pd_driver = Drv_Systemtime\<rparr>"

text \<open>What the modules register when all of them are loaded.\<close>

definition platform_drivers :: "platform_driver list" where
  "platform_drivers =
     [ccat_eth_eim_driver, ccat_eth_dma_driver, gpio_driver, update_driver, sram_driver, systemtime_driver]"

text \<open>The platform bus: the first registered driver whose name is the cell's.\<close>

definition platform_match :: "string \<Rightarrow> platform_driver list \<Rightarrow> driver option" where
  "platform_match nm ds = map_option pd_driver (find (\<lambda>d. pd_name d = nm) ds)"

text \<open>The identifiers the PCI core and the device tree match; the all-zero entry ends the first table.\<close>

definition PCI_DEVICE_ID_BECKHOFF_CCAT :: u16 where "PCI_DEVICE_ID_BECKHOFF_CCAT = 0x5000"
definition PCI_VENDOR_ID_BECKHOFF :: u16 where "PCI_VENDOR_ID_BECKHOFF = 0x15EC"

definition pci_ids :: "(u16 \<times> u16) list" where
  "pci_ids = [(PCI_VENDOR_ID_BECKHOFF, PCI_DEVICE_ID_BECKHOFF_CCAT), (0, 0)]"

fun pci_match_id :: "(u16 \<times> u16) list \<Rightarrow> u16 \<times> u16 \<Rightarrow> bool" where
  "pci_match_id [] i \<longleftrightarrow> False"
| "pci_match_id ((v, d) # ids) i \<longleftrightarrow> v \<noteq> 0 \<and> (i = (v, d) \<or> pci_match_id ids i)"

definition bhf_eim_ccat_ids :: "string list" where
  "bhf_eim_ccat_ids = [''bhf,emi-ccat'', []]"

text \<open>The device tree's matching: an entry of the empty string ends the table.\<close>

fun of_match :: "string list \<Rightarrow> string \<Rightarrow> bool" where
  "of_match [] c \<longleftrightarrow> False"
| "of_match (i # ids) c \<longleftrightarrow> i \<noteq> [] \<and> (c = i \<or> of_match ids c)"

text \<open>The two drivers of the FPGA itself, of which the kernel's configuration builds one; both carry the
  name of the module.\<close>

record 'i bus_driver =
  bd_name :: string
  bd_ids :: "'i list"

definition ccat_pci_driver :: "(u16 \<times> u16) bus_driver" where
  "ccat_pci_driver = \<lparr>bd_name = ''ccat'', bd_ids = pci_ids\<rparr>"

definition ccat_eim_driver :: "string bus_driver" where
  "ccat_eim_driver = \<lparr>bd_name = ''ccat'', bd_ids = bhf_eim_ccat_ids\<rparr>"

section \<open>The state of all drivers\<close>

record 'h system =
  sys_kernel :: kernel
  sys_sram :: ccat_class
  sys_update :: ccat_class
  sys_eth :: eth_kernel
  sys_mach :: "'h machine"
  sys_chips :: "ccat_gpio list"
  sys_clocks :: "clocksource list"
  sys_cnt :: nat

text \<open>The kernel's answers to one probe.\<close>

record sys_env =
  se_kenv :: kenv
  se_eth :: eth_env
  se_pdev :: addr
  se_kz :: bool
  se_name :: bool
  se_gpio :: "ccat_gpio \<Rightarrow> int"
  se_clock :: "clocksource \<Rightarrow> int"

text \<open>The private data of a bound device.\<close>

datatype bound = Bound_Eim ccat_eth_priv | Bound_Dma ccat_eth_priv | Bound_Gpio ccat_gpio
  | Bound_Update nat | Bound_Sram nat | Bound_Clock ccat_systemtime

text \<open>A device is bound to the driver when the probe returns 0.\<close>

fun driver_probe :: "'h mmio \<Rightarrow> sys_env \<Rightarrow> driver \<Rightarrow> ccat_function \<Rightarrow> 'h system \<Rightarrow> (bound option \<times> 'h system) exec" where
  "driver_probe hw env Drv_Eth_Eim func s =
     (let (r, p, k, m) = ccat_eth_eim_probe (se_eth env) hw func (sys_eth s) (sys_mach s)
      in Inr (map_option Bound_Eim p, s\<lparr>sys_eth := k, sys_mach := m\<rparr>))"
| "driver_probe hw env Drv_Eth_Dma func s =
     (let (r, p, k, m) = ccat_eth_dma_probe (se_eth env) hw (se_pdev env) func (sys_eth s) (sys_mach s)
      in Inr (map_option Bound_Dma p, s\<lparr>sys_eth := k, sys_mach := m\<rparr>))"
| "driver_probe hw env Drv_Gpio func s =
     (let (r, chips, g) = ccat_gpio_probe (se_kz env) (se_gpio env) func (sys_chips s)
      in Inr (map_option Bound_Gpio g, s\<lparr>sys_chips := chips\<rparr>))"
| "driver_probe hw env Drv_Update func s =
     (case ccat_update_probe (se_kenv env) func (sys_update s) (sys_kernel s) of
        Inl f \<Rightarrow> Inl f
      | Inr (r, i, c, k) \<Rightarrow> Inr (map_option Bound_Update i, s\<lparr>sys_update := c, sys_kernel := k\<rparr>))"
| "driver_probe hw env Drv_Sram func s =
     (case ccat_sram_probe (se_kenv env) func (sys_sram s) (sys_kernel s) of
        Inl f \<Rightarrow> Inl f
      | Inr (r, i, c, k) \<Rightarrow> Inr (map_option Bound_Sram i, s\<lparr>sys_sram := c, sys_kernel := k\<rparr>))"
| "driver_probe hw env Drv_Systemtime func s =
     (let (r, cnt, clocks, st) = ccat_systemtime_probe (se_kz env) (se_name env) (se_clock env) func (sys_cnt s) (sys_clocks s)
      in Inr (if r = 0 then map_option Bound_Clock st else None, s\<lparr>sys_cnt := cnt, sys_clocks := clocks\<rparr>))"

fun driver_remove :: "'h mmio \<Rightarrow> ('h system, bound) remove_op" where
  "driver_remove hw (Bound_Eim p) s =
     (case ccat_eth_eim_remove hw (Some p) (sys_eth s) (sys_mach s) of
        Inl f \<Rightarrow> Inl f | Inr (k, m) \<Rightarrow> Inr (s\<lparr>sys_eth := k, sys_mach := m\<rparr>))"
| "driver_remove hw (Bound_Dma p) s =
     (case ccat_eth_dma_remove hw (Some p) (sys_eth s) (sys_mach s) of
        Inl f \<Rightarrow> Inl f | Inr (k, m) \<Rightarrow> Inr (s\<lparr>sys_eth := k, sys_mach := m\<rparr>))"
| "driver_remove hw (Bound_Gpio g) s =
     (case ccat_gpio_remove (Some g) (sys_chips s) of Inl f \<Rightarrow> Inl f | Inr chips \<Rightarrow> Inr (s\<lparr>sys_chips := chips\<rparr>))"
| "driver_remove hw (Bound_Update i) s =
     (case ccat_cdev_remove i (sys_update s) (sys_kernel s) of
        Inl f \<Rightarrow> Inl f | Inr (c, k) \<Rightarrow> Inr (s\<lparr>sys_update := c, sys_kernel := k\<rparr>))"
| "driver_remove hw (Bound_Sram i) s =
     (case ccat_cdev_remove i (sys_sram s) (sys_kernel s) of
        Inl f \<Rightarrow> Inl f | Inr (c, k) \<Rightarrow> Inr (s\<lparr>sys_sram := c, sys_kernel := k\<rparr>))"
| "driver_remove hw (Bound_Clock st) s =
     (case ccat_systemtime_remove (Some st) (sys_clocks s) of Inl f \<Rightarrow> Inl f | Inr cs \<Rightarrow> Inr (s\<lparr>sys_clocks := cs\<rparr>))"

text \<open>A cell is offered to the driver with its name; without one it stays unbound.\<close>

definition bus_probe :: "'h mmio \<Rightarrow> (sys_env \<times> string \<times> ccat_function, 'h system, bound) probe_op" where
  "bus_probe hw e s =
     (case platform_match (fst (snd e)) platform_drivers of
        None \<Rightarrow> Inr (None, s)
      | Some d \<Rightarrow> driver_probe hw (fst e) d (snd (snd e)) s)"

section \<open>What a class of character devices holds\<close>

text \<open>The kernel's registries; and of a class the reference count, the occupied slots and, while it is
  in use, its device numbers.\<close>

definition registry :: "kernel \<Rightarrow> (u32 \<times> nat) list \<times> string list \<times> u32 list \<times> u32 list" where
  "registry k = (k_regions k, k_classes k, k_devices k, k_cdevs k)"

definition class_holds :: "ccat_class \<Rightarrow> int \<times> u32 list \<times> nat \<times> string \<times> u32 option" where
  "class_holds c = (cls_instances c, map cd_dev (cls_devices c), cls_count c, cls_name c,
     if 0 < cls_instances c then Some (cls_dev c) else None)"

lemma class_used:
  assumes "class_inv c k" and "i < cls_count c" and "cd_dev (cls_devices c ! i) \<noteq> 0"
  shows "0 < cls_instances c" and "cls_class c = KObj" and "cd_class (cls_devices c ! i)" and "i < length (cls_devices c)"
proof -
  have mid: "class_alive c k" using class_mid_wf(1) [OF class_inv_mid(1) [OF assms]] .
  then show "0 < cls_instances c" using assms(1) by (simp add: class_inv_def class_alive_def)
  show "cls_class c = KObj" using mid by (simp add: class_alive_def)
  show "cd_class (cls_devices c ! i)" by (rule class_inv_mid(2) [OF assms])
  show "i < length (cls_devices c)" using assms(1,2) by (simp add: class_inv_def)
qed

text \<open>What a remove leaves depends only on what the class and the registries held.\<close>

lemma remove_holds:
  assumes inv: "class_inv c k" and i: "i < cls_count c" "cd_dev (cls_devices c ! i) \<noteq> 0"
  defines "d \<equiv> cd_dev (cls_devices c ! i)" and "n \<equiv> cls_instances c - 1"
  shows "\<exists>c' k'. ccat_cdev_remove i c k = Inr (c', k') \<and> class_inv c' k' \<and>
    registry k' = (if n = 0 then remove1 (cls_dev c, cls_count c) (k_regions k) else k_regions k,
       if n = 0 then remove1 (cls_name c) (k_classes k) else k_classes k, remove1 d (k_devices k), remove1 d (k_cdevs k)) \<and>
    class_holds c' = (n, (map cd_dev (cls_devices c))[i := 0], cls_count c, cls_name c, if 0 < n then Some (cls_dev c) else None)"
proof -
  note u = class_used [OF inv i]
  obtain c' k' where r: "ccat_cdev_remove i c k = Inr (c', k')" "class_inv c' k'" using remove_inv [OF assms(1-3)] by blast
  have "registry k' = (if n = 0 then remove1 (cls_dev c, cls_count c) (k_regions k) else k_regions k,
       if n = 0 then remove1 (cls_name c) (k_classes k) else k_classes k, remove1 d (k_devices k), remove1 d (k_cdevs k)) \<and>
    class_holds c' = (n, (map cd_dev (cls_devices c))[i := 0], cls_count c, cls_name c, if 0 < n then Some (cls_dev c) else None)"
    using r(1) u(2-4)
    by (auto simp: ccat_cdev_remove_def free_ccat_cdev_def ccat_class_exit_def kernel_defs registry_def class_holds_def
        set_slot_def map_update d_def n_def Let_def split: if_splits)
  then show ?thesis using r by blast
qed

text \<open>Another class is not affected by what happens to this one.\<close>

lemma class_inv_other:
  assumes "class_inv c k" and "distinct (k_classes k')" and "cls_name c \<in> set (k_classes k') \<longleftrightarrow> cls_name c \<in> set (k_classes k)"
  shows "class_inv c k'"
  using assms by (auto simp: class_inv_def)

lemma class_inv_distinct: "class_inv c k \<Longrightarrow> distinct (k_classes k)"
  by (simp add: class_inv_def)

lemma probe_granted_cases:
  assumes inv: "class_inv c k" and env: "kenv_grants env" and run: "ccat_cdev_probe env func n c k = Inr (r, d, c', k')"
  shows "class_inv c' k'" and "cls_name c' = cls_name c"
    and "x \<noteq> cls_name c \<Longrightarrow> x \<in> set (k_classes k') \<longleftrightarrow> x \<in> set (k_classes k)"
    and "d = None \<Longrightarrow> c' = c \<and> k' = k"
    and "d = Some i \<Longrightarrow> i < cls_count c' \<and> cd_dev (cls_devices c' ! i) \<noteq> 0"
proof -
  have law: "region_law env" using env by (simp add: kenv_grants_def kenv_class_ok_def)
  show "class_inv c' k'" by (rule probe_inv [OF inv law run])
  obtain r1 c1 k1 where init: "ccat_class_init env c k = (r1, c1, k1)" by (cases "ccat_class_init env c k")
  note frame = ccat_class_init_frame [OF init] and g = grants_init [OF inv kenv_grants_class [OF env] init]
  have "cls_name c' = cls_name c \<and> (x \<noteq> cls_name c \<longrightarrow> (x \<in> set (k_classes k') \<longleftrightarrow> x \<in> set (k_classes k))) \<and>
    (d = None \<longrightarrow> c' = c \<and> k' = k) \<and> (d = Some i \<longrightarrow> i < cls_count c' \<and> cd_dev (cls_devices c' ! i) \<noteq> 0)"
  proof (cases "first_free 0 (cls_devices c)")
    case None
    then show ?thesis using probe_full [OF inv] run by auto
  next
    case (Some j)
    have j: "j < length (cls_devices c1)" "j < cls_count c" using first_free_Some [OF Some] frame inv by (simp_all add: class_inv_def)
    have "MKDEV (MAJOR (cls_dev c1)) (of_nat j) \<noteq> 0" using g(1) MKDEV_eq_0 by (auto simp: class_alive_def)
    then show ?thesis
      using probe_granted [OF inv env Some init, of func n] run g(5) frame j
      by (auto simp: claim_slot_def set_slot_nth split: if_splits)
  qed
  then show "cls_name c' = cls_name c" "x \<noteq> cls_name c \<Longrightarrow> x \<in> set (k_classes k') \<longleftrightarrow> x \<in> set (k_classes k)"
    "d = None \<Longrightarrow> c' = c \<and> k' = k" "d = Some i \<Longrightarrow> i < cls_count c' \<and> cd_dev (cls_devices c' ! i) \<noteq> 0"
    by blast+
qed

text \<open>Removing right after the probe gives everything back.\<close>

lemma probe_then_remove:
  assumes inv: "class_inv c k" and env: "kenv_grants env" and run: "ccat_cdev_probe env func n c k = Inr (r, Some i, c1, k1)"
    and rem: "ccat_cdev_remove i c1 k1 = Inr (c2, k2)"
  shows "registry k2 = registry k" and "class_holds c2 = class_holds c"
proof -
  obtain i' where free: "first_free 0 (cls_devices c) = Some i'"
    using probe_full [OF inv] run by (cases "first_free 0 (cls_devices c)") auto
  obtain r1 c0 k0 where init: "ccat_class_init env c k = (r1, c0, k0)" by (cases "ccat_class_init env c k")
  note frame = ccat_class_init_frame [OF init]
  have i': "i' = i" and c1: "c1 = set_slot i (\<lambda>d. d\<lparr>cd_class := True\<rparr>) (claim_slot i (func_base func) n c0)"
    using probe_granted [OF inv env free init, of func n] run by auto
  obtain c2' k2' where cyc: "ccat_cdev_remove i c1 k1 = Inr (c2', k2')" "cdev_resources (c2', k2') = cdev_resources (c, k)"
    using cdev_cycle [OF inv env free, of func n] run i' by auto
  then have same: "cdev_resources (c2, k2) = cdev_resources (c, k)" using rem by simp
  then show "registry k2 = registry k" by (simp add: cdev_resources_def registry_def)
  note pc = probe_granted_cases [OF inv env run]
  obtain c3 k3 where h: "ccat_cdev_remove i c1 k1 = Inr (c3, k3)"
    "class_holds c3 = (cls_instances c1 - 1, (map cd_dev (cls_devices c1))[i := 0], cls_count c1, cls_name c1,
       if 0 < cls_instances c1 - 1 then Some (cls_dev c1) else None)"
    using remove_holds [OF pc(1)] pc(5) [OF refl] by blast
  have "cls_instances c1 - 1 = cls_instances c" "cls_count c1 = cls_count c" "cls_name c1 = cls_name c"
    "0 < cls_instances c \<Longrightarrow> cls_dev c1 = cls_dev c"
    using frame by (simp_all add: c1 claim_slot_def)
  then show "class_holds c2 = class_holds c"
    using h rem same by (auto simp: class_holds_def cdev_resources_def)
qed

text \<open>The other class keeps its invariant.\<close>

lemma probe_other:
  assumes "class_inv c k" and "kenv_grants env" and "ccat_cdev_probe env func n c k = Inr (r, d, c', k')"
    and "class_inv c0 k" and "cls_name c0 \<noteq> cls_name c"
  shows "class_inv c0 k'"
  using class_inv_other [OF assms(4) class_inv_distinct [OF probe_granted_cases(1) [OF assms(1-3)]]]
    probe_granted_cases(3) [OF assms(1-3)] assms(5) by blast

lemma remove_other:
  assumes "class_inv c k" and "i < cls_count c" and "cd_dev (cls_devices c ! i) \<noteq> 0"
    and "ccat_cdev_remove i c k = Inr (c', k')" and "class_inv c0 k" and "cls_name c0 \<noteq> cls_name c"
  shows "class_inv c0 k'"
proof -
  have "class_inv c' k'" and "k_classes k' = (if cls_instances c - 1 = 0 then remove1 (cls_name c) (k_classes k) else k_classes k)"
    using remove_holds [OF assms(1-3)] assms(4) by (auto simp: registry_def)
  then show ?thesis
    using class_inv_other [OF assms(5) class_inv_distinct] assms(6) by (auto simp: in_set_remove1 split: if_splits)
qed

text \<open>So does removing it later.\<close>

lemma remove_later:
  assumes inv: "class_inv c k" and env: "kenv_grants env" and run: "ccat_cdev_probe env func n c k = Inr (r, Some i, c1, k1)"
    and inv2: "class_inv c2 k2" and same: "registry k2 = registry k1" "class_holds c2 = class_holds c1"
  shows "\<exists>c3 k3. ccat_cdev_remove i c2 k2 = Inr (c3, k3) \<and> class_inv c3 k3 \<and> registry k3 = registry k \<and> class_holds c3 = class_holds c \<and>
    (\<forall>c0. class_inv c0 k2 \<and> cls_name c0 \<noteq> cls_name c2 \<longrightarrow> class_inv c0 k3)"
proof -
  note pc = probe_granted_cases [OF inv env run]
  have i: "i < cls_count c1" "cd_dev (cls_devices c1 ! i) \<noteq> 0" using pc(5) by simp_all
  have len: "length (cls_devices c1) = cls_count c1" "length (cls_devices c2) = cls_count c2" using pc(1) inv2 by (simp_all add: class_inv_def)
  have cd: "cls_count c2 = cls_count c1" "map cd_dev (cls_devices c2) = map cd_dev (cls_devices c1)"
    using same(2) by (simp_all add: class_holds_def)
  then have d: "cd_dev (cls_devices c2 ! i) = cd_dev (cls_devices c1 ! i)" using i(1) len by (metis nth_map)
  have i2: "i < cls_count c2" "cd_dev (cls_devices c2 ! i) \<noteq> 0" using i cd(1) d by simp_all
  note u1 = class_used(1) [OF pc(1) i] and u2 = class_used(1) [OF inv2 i2]
  have cc: "cls_instances c2 = cls_instances c1" "cls_name c2 = cls_name c1" "cls_dev c2 = cls_dev c1"
    using same(2) u1 u2 by (simp_all add: class_holds_def)
  have kk: "k_regions k2 = k_regions k1" "k_classes k2 = k_classes k1" "k_devices k2 = k_devices k1" "k_cdevs k2 = k_cdevs k1"
    using same(1) by (simp_all add: registry_def)
  obtain c0 k0 where r1: "ccat_cdev_remove i c1 k1 = Inr (c0, k0)" using remove_holds [OF pc(1) i] by blast
  note undo = probe_then_remove [OF inv env run r1]
  obtain c3 k3 where r2: "ccat_cdev_remove i c2 k2 = Inr (c3, k3)" "class_inv c3 k3"
    and "registry k3 = registry k0" "class_holds c3 = class_holds c0"
    using remove_holds [OF pc(1) i] remove_holds [OF inv2 i2] r1 unfolding cc cd kk d by auto
  then show ?thesis using undo remove_other [OF inv2 i2 r2(1)] by auto
qed

section \<open>What the network driver holds\<close>

text \<open>What a remove leaves depends only on what was held.\<close>

lemma eth_remove_later:
  assumes "ccat_eth_remove hw (Some p) k1 m1 = Inr (k, m)" and "eth_resources (k2, m2) = eth_resources (k1, m1)"
  shows "\<exists>k3 m3. ccat_eth_remove hw (Some p) k2 m2 = Inr (k3, m3) \<and> eth_resources (k3, m3) = eth_resources (k, m)"
  using assms
  by (auto simp: ccat_eth_remove_def ccat_eth_priv_free_def ccat_dma_free_def dma_free_coherent_def unregister_netdev_def
      free_netdev_def eth_resources_def Let_def split: if_splits prod.splits)

lemma eim_probe_resources:
  assumes run: "ccat_eth_eim_probe env hw func k m = (r, po, k1, m1)" and mac: "mac_valid hw func"
  shows "po = None \<Longrightarrow> eth_resources (k1, m1) = eth_resources (k, m)"
    and "po = Some p \<Longrightarrow> \<exists>k2 m2. ccat_eth_remove hw (Some p) k1 m1 = Inr (k2, m2) \<and> eth_resources (k2, m2) = eth_resources (k, m)"
proof -
  have "(po = None \<longrightarrow> eth_resources (k1, m1) = eth_resources (k, m)) \<and>
    (po = Some p \<longrightarrow> (\<exists>k2 m2. ccat_eth_remove hw (Some p) k1 m1 = Inr (k2, m2) \<and> eth_resources (k2, m2) = eth_resources (k, m)))"
  proof (cases "ee_alloc env")
    case False
    then show ?thesis using run by (auto simp: ccat_eth_eim_probe_def ccat_eth_alloc_netdev_def)
  next
    case True
    let ?k = "k\<lparr>ek_netdevs := Suc (ek_netdevs k)\<rparr>"
    obtain p0 m0 where a: "ccat_eth_alloc_netdev env hw func k m = (Some p0, ?k, m0)"
      using alloc_netdev_succeeds [OF True] by blast
    obtain st p1 m2 where i: "ccat_eth_priv_init_eim hw p0 m0 = (st, p1, m2)" by (metis prod.collapse)
    note mem = init_eim_mem [OF i] and al = alloc_netdev_ok(4,5) [OF a]
    have n: "ccat_eth_init_netdev env hw p1 ?k m2 = (r, po, k1, m1)"
      using run a i mem(1) by (simp add: ccat_eth_eim_probe_def)
    obtain bs h where rd: "memcpy_fromio hw (reg_mii (p_reg p1) + 8) 6 (dev m2) = (bs, h)" "is_valid_ether_addr bs"
      using alloc_netdev_mac [OF a mac init_eim_reg [OF i]] by blast
    let ?p = "on_netdev netif_carrier_off (on_netdev (\<lambda>d. d\<lparr>nd_addr := bs\<rparr>) p1)"
    have free: "k' = k0" if "ccat_eth_priv_free hw ?p k0 m' = (p', k', m'')" for k0 m' p' k' m''
      by (rule priv_free_nothing [OF _ _ that]) (simp_all add: mem al)
    show ?thesis
    proof (cases "ee_register env = 0")
      case True
      then have "po = Some ?p" "k1 = ?k\<lparr>ek_registered := Suc (ek_registered k)\<rparr>"
        using n rd by (auto simp: ccat_eth_init_netdev_def register_netdev_def Let_def)
      moreover obtain p' k' m' where f: "ccat_eth_priv_free hw ?p (unregister_netdev k1) m1 = (p', k', m')" by (metis prod.collapse)
      moreover note free [OF f]
      ultimately show ?thesis by (auto simp: ccat_eth_remove_def unregister_netdev_def free_netdev_def eth_resources_def)
    next
      case False
      then obtain p' k' m' where "po = None" and f: "ccat_eth_priv_free hw ?p ?k (m2\<lparr>dev := h\<rparr>) = (p', k', m')"
        and "k1 = free_netdev k'"
        using n rd by (auto simp: ccat_eth_init_netdev_def register_netdev_def Let_def split: prod.splits)
      then show ?thesis using free [OF f] by (simp add: free_netdev_def eth_resources_def)
    qed
  qed
  then show "po = None \<Longrightarrow> eth_resources (k1, m1) = eth_resources (k, m)"
    "po = Some p \<Longrightarrow> \<exists>k2 m2. ccat_eth_remove hw (Some p) k1 m1 = Inr (k2, m2) \<and> eth_resources (k2, m2) = eth_resources (k, m)"
    by blast+
qed

lemma dma_probe_held:
  assumes run: "ccat_eth_dma_probe env hw pdev func k m = (r, po, k1, m1)" and mac: "mac_valid hw func" and env: "dma_pairs env"
  shows "po = None \<Longrightarrow> eth_resources (k1, m1) = eth_resources (k, m)"
    and "po = Some p \<Longrightarrow> \<exists>k2 m2. ccat_eth_remove hw (Some p) k1 m1 = Inr (k2, m2) \<and> eth_resources (k2, m2) = eth_resources (k, m)"
proof -
  show "eth_resources (k1, m1) = eth_resources (k, m)" if "po = None"
    using dma_probe_failed [OF _ env mac] run that by (simp add: eth_resources_def)
  show "\<exists>k2 m2. ccat_eth_remove hw (Some p) k1 m1 = Inr (k2, m2) \<and> eth_resources (k2, m2) = eth_resources (k, m)" if "po = Some p"
    using eth_driver.probe_removed [of "(env, pdev, func)" hw "(k, m)" p "(k1, m1)"] that run mac env
    by (auto simp: eth_plug_def eth_unplug_def ccat_eth_dma_remove_def)
qed

section \<open>All drivers together\<close>

text \<open>Both character-device classes live in one kernel, under their names.\<close>

definition sys_inv :: "'h system \<Rightarrow> bool" where
  "sys_inv s \<longleftrightarrow> class_inv (sys_sram s) (sys_kernel s) \<and> class_inv (sys_update s) (sys_kernel s) \<and>
     cls_name (sys_sram s) = ''ccat_sram'' \<and> cls_name (sys_update s) = ''ccat_update''"

definition sys_resources ::
  "'h system \<Rightarrow> ((u32 \<times> nat) list \<times> string list \<times> u32 list \<times> u32 list) \<times> (int \<times> u32 list \<times> nat \<times> string \<times> u32 option) \<times>
     (int \<times> u32 list \<times> nat \<times> string \<times> u32 option) \<times> ((addr \<times> u64 \<times> nat) list \<times> nat \<times> nat) \<times> ccat_gpio list \<times> clocksource list" where
  "sys_resources s = (registry (sys_kernel s), class_holds (sys_sram s), class_holds (sys_update s),
     eth_resources (sys_eth s, sys_mach s), sys_chips s, sys_clocks s)"

text \<open>What the kernel and the cell must offer: character devices are granted, coherent memory comes with a
  device address, the MAC address of a network function is valid, and the shift by an SRAM's size is
  defined.\<close>

definition cell_granted :: "'h mmio \<Rightarrow> sys_env \<times> string \<times> ccat_function \<Rightarrow> bool" where
  "cell_granted hw e \<longleftrightarrow> kenv_grants (se_kenv (fst e)) \<and> dma_pairs (se_eth (fst e)) \<and>
     (fst (snd e) \<in> {''ccat_eth_eim'', ''ccat_eth_dma''} \<longrightarrow> mac_valid hw (snd (snd e))) \<and>
     (fst (snd e) = ''ccat_sram'' \<longrightarrow> \<not> isl (sram_iosize (func_info (snd (snd e)))))"

lemma cdev_probe_returns:
  assumes "class_inv c k" and "kenv_grants env"
  shows "\<exists>r d c' k'. ccat_cdev_probe env func n c k = Inr (r, d, c', k')"
  using cdev_driver.probe_returns [of "(c, k)" "(env, func, n)"] assms
  by (auto simp: cdev_plug_def split: sum.splits prod.splits)

lemma sram_probe_cases:
  assumes "sram_iosize (func_info func) = Inr n"
  shows "ccat_sram_probe env func c k = Inr (- ENODEV, None, c, k) \<or> ccat_sram_probe env func c k = ccat_cdev_probe env func n c k"
  using assms by (simp add: ccat_sram_probe_def)

lemma update_probe_cases:
  "ccat_update_probe env func c k = Inr (- ENODEV, None, c, k) \<or>
   ccat_update_probe env func c k = ccat_cdev_probe env func CCAT_FLASH_SIZE c k"
  by (simp add: ccat_update_probe_def)

text \<open>What a probe of a class promises: the class and every other one keep their invariant, a failure
  changes nothing, and a removal later gives back what the probe took.\<close>

definition class_undo :: "ccat_class \<Rightarrow> kernel \<Rightarrow> nat option \<Rightarrow> ccat_class \<Rightarrow> kernel \<Rightarrow> bool" where
  "class_undo c k d c1 k1 \<longleftrightarrow> class_inv c1 k1 \<and> cls_name c1 = cls_name c \<and> (d = None \<longrightarrow> c1 = c \<and> k1 = k) \<and>
     (\<forall>c0. class_inv c0 k \<and> cls_name c0 \<noteq> cls_name c \<longrightarrow> class_inv c0 k1) \<and>
     (\<forall>i c2 k2. d = Some i \<and> class_inv c2 k2 \<and> registry k2 = registry k1 \<and> class_holds c2 = class_holds c1 \<longrightarrow>
        (\<exists>c3 k3. ccat_cdev_remove i c2 k2 = Inr (c3, k3) \<and> class_inv c3 k3 \<and> registry k3 = registry k \<and> class_holds c3 = class_holds c \<and>
           (\<forall>c0. class_inv c0 k2 \<and> cls_name c0 \<noteq> cls_name c2 \<longrightarrow> class_inv c0 k3)))"

lemma class_step:
  assumes run: "x = Inr (- ENODEV, None, c, k) \<or> x = ccat_cdev_probe env func n c k"
    and inv: "class_inv c k" and env: "kenv_grants env"
  shows "\<exists>r d c1 k1. x = Inr (r, d, c1, k1) \<and> class_undo c k d c1 k1"
  using run
proof
  assume "x = Inr (- ENODEV, None, c, k)"
  then show ?thesis using inv by (simp add: class_undo_def)
next
  assume x: "x = ccat_cdev_probe env func n c k"
  obtain r d c1 k1 where p: "ccat_cdev_probe env func n c k = Inr (r, d, c1, k1)" using cdev_probe_returns [OF inv env] by blast
  have "class_undo c k d c1 k1"
    using probe_granted_cases [OF inv env p] probe_other [OF inv env p] remove_later [OF inv env] p
    unfolding class_undo_def by blast
  then show ?thesis using x p by blast
qed

lemma class_undo_remove:
  assumes "class_undo c k (Some i) c1 k1" and "class_inv c2 k2" and "registry k2 = registry k1" and "class_holds c2 = class_holds c1"
  shows "\<exists>c3 k3. ccat_cdev_remove i c2 k2 = Inr (c3, k3) \<and> class_inv c3 k3 \<and> registry k3 = registry k \<and> class_holds c3 = class_holds c \<and>
    (\<forall>c0. class_inv c0 k2 \<and> cls_name c0 \<noteq> cls_name c2 \<longrightarrow> class_inv c0 k3)"
  using assms unfolding class_undo_def by blast

lemma class_holds_name: "class_holds c2 = class_holds c1 \<Longrightarrow> cls_name c2 = cls_name c1"
  by (simp add: class_holds_def)

text \<open>The same promise for the whole system: a failure holds nothing, and the removal, whenever it comes,
  gives everything back.\<close>

definition undoable :: "'h mmio \<Rightarrow> 'h system \<Rightarrow> bound option \<Rightarrow> 'h system \<Rightarrow> bool" where
  "undoable hw s b s1 \<longleftrightarrow> sys_inv s1 \<and> (b = None \<longrightarrow> sys_resources s1 = sys_resources s) \<and>
     (\<forall>x s2. b = Some x \<and> sys_inv s2 \<and> sys_resources s2 = sys_resources s1 \<longrightarrow>
        (\<exists>s3. driver_remove hw x s2 = Inr s3 \<and> sys_inv s3 \<and> sys_resources s3 = sys_resources s))"

lemma undoableI:
  assumes "sys_inv s1" and "b = None \<Longrightarrow> sys_resources s1 = sys_resources s"
    and "\<And>x s2. b = Some x \<Longrightarrow> sys_inv s2 \<Longrightarrow> sys_resources s2 = sys_resources s1 \<Longrightarrow>
      \<exists>s3. driver_remove hw x s2 = Inr s3 \<and> sys_inv s3 \<and> sys_resources s3 = sys_resources s"
  shows "undoable hw s b s1"
  using assms unfolding undoable_def by blast

lemma sram_undoable:
  fixes hw :: "'h mmio"
  assumes inv: "sys_inv s" and u: "class_undo (sys_sram s) (sys_kernel s) d c1 k1"
  shows "undoable hw s (map_option Bound_Sram d) (s\<lparr>sys_sram := c1, sys_kernel := k1\<rparr>)"
proof (rule undoableI)
  show "sys_inv (s\<lparr>sys_sram := c1, sys_kernel := k1\<rparr>)" using inv u by (simp add: sys_inv_def class_undo_def)
  show "sys_resources (s\<lparr>sys_sram := c1, sys_kernel := k1\<rparr>) = sys_resources s" if "map_option Bound_Sram d = None"
    using that u by (simp add: sys_resources_def class_undo_def)
next
  fix x and s2 :: "'h system"
  assume x: "map_option Bound_Sram d = Some x" and s2: "sys_inv s2"
    "sys_resources s2 = sys_resources (s\<lparr>sys_sram := c1, sys_kernel := k1\<rparr>)"
  obtain i where i: "d = Some i" "x = Bound_Sram i" using x by blast
  obtain c3 k3 where r: "ccat_cdev_remove i (sys_sram s2) (sys_kernel s2) = Inr (c3, k3)" "class_inv c3 k3"
    "registry k3 = registry (sys_kernel s)" "class_holds c3 = class_holds (sys_sram s)"
    and other: "\<forall>c0. class_inv c0 (sys_kernel s2) \<and> cls_name c0 \<noteq> cls_name (sys_sram s2) \<longrightarrow> class_inv c0 k3"
    using class_undo_remove [OF u [unfolded i(1)], of "sys_sram s2" "sys_kernel s2"] s2 by (auto simp: sys_inv_def sys_resources_def)
  show "\<exists>s3. driver_remove hw x s2 = Inr s3 \<and> sys_inv s3 \<and> sys_resources s3 = sys_resources s"
    using s2 r other class_holds_name [OF r(4)] inv by (simp add: i(2) sys_inv_def sys_resources_def eth_resources_def)
qed

lemma update_undoable:
  fixes hw :: "'h mmio"
  assumes inv: "sys_inv s" and u: "class_undo (sys_update s) (sys_kernel s) d c1 k1"
  shows "undoable hw s (map_option Bound_Update d) (s\<lparr>sys_update := c1, sys_kernel := k1\<rparr>)"
proof (rule undoableI)
  show "sys_inv (s\<lparr>sys_update := c1, sys_kernel := k1\<rparr>)" using inv u by (simp add: sys_inv_def class_undo_def)
  show "sys_resources (s\<lparr>sys_update := c1, sys_kernel := k1\<rparr>) = sys_resources s" if "map_option Bound_Update d = None"
    using that u by (simp add: sys_resources_def class_undo_def)
next
  fix x and s2 :: "'h system"
  assume x: "map_option Bound_Update d = Some x" and s2: "sys_inv s2"
    "sys_resources s2 = sys_resources (s\<lparr>sys_update := c1, sys_kernel := k1\<rparr>)"
  obtain i where i: "d = Some i" "x = Bound_Update i" using x by blast
  obtain c3 k3 where r: "ccat_cdev_remove i (sys_update s2) (sys_kernel s2) = Inr (c3, k3)" "class_inv c3 k3"
    "registry k3 = registry (sys_kernel s)" "class_holds c3 = class_holds (sys_update s)"
    and other: "\<forall>c0. class_inv c0 (sys_kernel s2) \<and> cls_name c0 \<noteq> cls_name (sys_update s2) \<longrightarrow> class_inv c0 k3"
    using class_undo_remove [OF u [unfolded i(1)], of "sys_update s2" "sys_kernel s2"] s2 by (auto simp: sys_inv_def sys_resources_def)
  show "\<exists>s3. driver_remove hw x s2 = Inr s3 \<and> sys_inv s3 \<and> sys_resources s3 = sys_resources s"
    using s2 r other class_holds_name [OF r(4)] inv by (simp add: i(2) sys_inv_def sys_resources_def eth_resources_def)
qed

text \<open>The network drivers touch only their own part.\<close>

lemma eth_undoable:
  fixes hw :: "'h mmio"
  assumes inv: "sys_inv s" and failed: "po = None \<Longrightarrow> eth_resources (k1, m1) = eth_resources (sys_eth s, sys_mach s)"
    and removed: "\<And>p. po = Some p \<Longrightarrow> \<exists>k2 m2. ccat_eth_remove hw (Some p) k1 m1 = Inr (k2, m2) \<and>
      eth_resources (k2, m2) = eth_resources (sys_eth s, sys_mach s)"
    and f: "\<And>p s. driver_remove hw (f p) s = (case ccat_eth_remove hw (Some p) (sys_eth s) (sys_mach s) of
      Inl e \<Rightarrow> Inl e | Inr (k, m) \<Rightarrow> Inr (s\<lparr>sys_eth := k, sys_mach := m\<rparr>))"
  shows "undoable hw s (map_option f po) (s\<lparr>sys_eth := k1, sys_mach := m1\<rparr>)"
proof (rule undoableI)
  show "sys_inv (s\<lparr>sys_eth := k1, sys_mach := m1\<rparr>)" using inv by (simp add: sys_inv_def)
  show "sys_resources (s\<lparr>sys_eth := k1, sys_mach := m1\<rparr>) = sys_resources s" if "map_option f po = None"
    using that failed by (simp add: sys_resources_def)
next
  fix x and s2 :: "'h system"
  assume x: "map_option f po = Some x" and s2: "sys_inv s2" "sys_resources s2 = sys_resources (s\<lparr>sys_eth := k1, sys_mach := m1\<rparr>)"
  obtain p where p: "po = Some p" "x = f p" using x by blast
  obtain k2 m2 where r: "ccat_eth_remove hw (Some p) k1 m1 = Inr (k2, m2)" "eth_resources (k2, m2) = eth_resources (sys_eth s, sys_mach s)"
    using removed [OF p(1)] by blast
  have "eth_resources (sys_eth s2, sys_mach s2) = eth_resources (k1, m1)" using s2(2) by (simp add: sys_resources_def)
  from eth_remove_later [OF r(1) this]
  show "\<exists>s3. driver_remove hw x s2 = Inr s3 \<and> sys_inv s3 \<and> sys_resources s3 = sys_resources s"
    using s2 r(2) by (auto simp: p(2) f sys_inv_def sys_resources_def)
qed

lemma remove1_head: "x # ys = zs \<Longrightarrow> remove1 x zs = ys"
  by auto

lemma gpio_undoable:
  assumes inv: "sys_inv s" and run: "ccat_gpio_probe kz add func (sys_chips s) = (r, chips, g)"
  shows "undoable hw s (map_option Bound_Gpio g) (s\<lparr>sys_chips := chips\<rparr>)"
proof (rule undoableI)
  show "sys_inv (s\<lparr>sys_chips := chips\<rparr>)" using inv by (simp add: sys_inv_def)
  show "sys_resources (s\<lparr>sys_chips := chips\<rparr>) = sys_resources s" if "map_option Bound_Gpio g = None"
    using that run by (auto simp: ccat_gpio_probe_def sys_resources_def Let_def split: if_splits)
next
  fix x and s2 :: "'a system"
  assume "map_option Bound_Gpio g = Some x" and s2: "sys_inv s2" "sys_resources s2 = sys_resources (s\<lparr>sys_chips := chips\<rparr>)"
  then show "\<exists>s3. driver_remove hw x s2 = Inr s3 \<and> sys_inv s3 \<and> sys_resources s3 = sys_resources s"
    using run
    by (auto simp: ccat_gpio_probe_def ccat_gpio_remove_def sys_inv_def sys_resources_def eth_resources_def Let_def
        intro!: remove1_head split: if_splits)
qed

lemma clock_undoable:
  assumes inv: "sys_inv s" and run: "ccat_systemtime_probe kz kn reg func (sys_cnt s) (sys_clocks s) = (r, cnt, clocks, st)"
  shows "undoable hw s (if r = 0 then map_option Bound_Clock st else None) (s\<lparr>sys_cnt := cnt, sys_clocks := clocks\<rparr>)"
proof (rule undoableI)
  show "sys_inv (s\<lparr>sys_cnt := cnt, sys_clocks := clocks\<rparr>)" using inv by (simp add: sys_inv_def)
  show "sys_resources (s\<lparr>sys_cnt := cnt, sys_clocks := clocks\<rparr>) = sys_resources s"
    if "(if r = 0 then map_option Bound_Clock st else None) = None"
    using that run by (auto simp: ccat_systemtime_probe_def sys_resources_def Let_def split: if_splits)
next
  fix x and s2 :: "'a system"
  assume "(if r = 0 then map_option Bound_Clock st else None) = Some x" and
    s2: "sys_inv s2" "sys_resources s2 = sys_resources (s\<lparr>sys_cnt := cnt, sys_clocks := clocks\<rparr>)"
  then show "\<exists>s3. driver_remove hw x s2 = Inr s3 \<and> sys_inv s3 \<and> sys_resources s3 = sys_resources s"
    using run
    by (auto simp: ccat_systemtime_probe_def ccat_systemtime_remove_def sys_inv_def sys_resources_def eth_resources_def Let_def
        intro!: remove1_head split: if_splits)
qed

lemma driver_probe_undoable:
  assumes inv: "sys_inv s" and grants: "kenv_grants (se_kenv env)" and pairs: "dma_pairs (se_eth env)"
    and mac: "drv = Drv_Eth_Eim \<or> drv = Drv_Eth_Dma \<Longrightarrow> mac_valid hw func"
    and size: "drv = Drv_Sram \<Longrightarrow> \<not> isl (sram_iosize (func_info func))"
  shows "\<exists>b s1. driver_probe hw env drv func s = Inr (b, s1) \<and> undoable hw s b s1"
proof (cases drv)
  case Drv_Eth_Eim
  obtain r po k m where run: "ccat_eth_eim_probe (se_eth env) hw func (sys_eth s) (sys_mach s) = (r, po, k, m)" by (metis prod.collapse)
  show ?thesis
    using eth_undoable [OF inv eim_probe_resources [OF run mac [OF disjI1 [OF Drv_Eth_Eim]]], where f = Bound_Eim] run
    by (simp add: Drv_Eth_Eim ccat_eth_eim_remove_def)
next
  case Drv_Eth_Dma
  obtain r po k m where run: "ccat_eth_dma_probe (se_eth env) hw (se_pdev env) func (sys_eth s) (sys_mach s) = (r, po, k, m)"
    by (metis prod.collapse)
  show ?thesis
    using eth_undoable [OF inv dma_probe_held [OF run mac [OF disjI2 [OF Drv_Eth_Dma]] pairs], where f = Bound_Dma] run
    by (simp add: Drv_Eth_Dma ccat_eth_dma_remove_def)
next
  case Drv_Gpio
  obtain r chips g where run: "ccat_gpio_probe (se_kz env) (se_gpio env) func (sys_chips s) = (r, chips, g)" by (metis prod.collapse)
  show ?thesis using gpio_undoable [OF inv run] run by (simp add: Drv_Gpio)
next
  case Drv_Update
  have "class_inv (sys_update s) (sys_kernel s)" using inv by (simp add: sys_inv_def)
  from class_step [OF update_probe_cases this grants]
  obtain r d c k where run: "ccat_update_probe (se_kenv env) func (sys_update s) (sys_kernel s) = Inr (r, d, c, k)"
    and u: "class_undo (sys_update s) (sys_kernel s) d c k" by blast
  show ?thesis using update_undoable [OF inv u] run by (simp add: Drv_Update)
next
  case Drv_Sram
  obtain n where n: "sram_iosize (func_info func) = Inr n" using size [OF Drv_Sram] by (cases "sram_iosize (func_info func)") simp_all
  have "class_inv (sys_sram s) (sys_kernel s)" using inv by (simp add: sys_inv_def)
  from class_step [OF sram_probe_cases [OF n] this grants]
  obtain r d c k where run: "ccat_sram_probe (se_kenv env) func (sys_sram s) (sys_kernel s) = Inr (r, d, c, k)"
    and u: "class_undo (sys_sram s) (sys_kernel s) d c k" by blast
  show ?thesis using sram_undoable [OF inv u] run by (simp add: Drv_Sram)
next
  case Drv_Systemtime
  obtain r cnt clocks st where run: "ccat_systemtime_probe (se_kz env) (se_name env) (se_clock env) func (sys_cnt s) (sys_clocks s) = (r, cnt, clocks, st)"
    by (metis prod.collapse)
  show ?thesis using clock_undoable [OF inv run] run by (simp add: Drv_Systemtime)
qed

lemma platform_match_names:
  "platform_match nm platform_drivers = Some Drv_Sram \<Longrightarrow> nm = ''ccat_sram''"
  "platform_match nm platform_drivers = Some Drv_Eth_Eim \<Longrightarrow> nm = ''ccat_eth_eim''"
  "platform_match nm platform_drivers = Some Drv_Eth_Dma \<Longrightarrow> nm = ''ccat_eth_dma''"
  by (simp_all add: platform_match_def platform_drivers_def ccat_eth_eim_driver_def ccat_eth_dma_driver_def gpio_driver_def
      update_driver_def sram_driver_def systemtime_driver_def split: if_splits)

lemma bus_probe_undoable:
  assumes "sys_inv s" and "cell_granted hw e"
  shows "\<exists>b s1. bus_probe hw e s = Inr (b, s1) \<and> undoable hw s b s1"
proof (cases "platform_match (fst (snd e)) platform_drivers")
  case None
  then show ?thesis using assms(1) by (simp add: bus_probe_def undoable_def)
next
  case (Some drv)
  then have "drv = Drv_Sram \<Longrightarrow> \<not> isl (sram_iosize (func_info (snd (snd e))))"
    and "drv = Drv_Eth_Eim \<or> drv = Drv_Eth_Dma \<Longrightarrow> mac_valid hw (snd (snd e))"
    using platform_match_names assms(2) by (auto simp: cell_granted_def)
  from driver_probe_undoable [OF assms(1) _ _ this(2,1)] show ?thesis
    using assms(2) Some by (simp add: bus_probe_def cell_granted_def)
qed

interpretation fpga: stackable "bus_probe hw" "driver_remove hw" sys_inv "cell_granted hw" sys_resources for hw
proof
  fix s :: "'a system" and e
  assume "sys_inv s" and g: "cell_granted hw e"
  then obtain b s1 where p: "bus_probe hw e s = Inr (b, s1)" "undoable hw s b s1"
    using bus_probe_undoable by blast
  show "\<exists>d s'. bus_probe hw e s = Inr (d, s') \<and> sys_inv s'" using p by (auto simp: undoable_def)
  show "sys_resources s' = sys_resources s" if "bus_probe hw e s = Inr (None, s')" for s'
    using that p by (simp add: undoable_def)
  show "\<exists>s3. driver_remove hw d s2 = Inr s3 \<and> sys_inv s3 \<and> sys_resources s3 = sys_resources s"
    if "bus_probe hw e s = Inr (Some d, s')" "sys_inv s2" "sys_resources s2 = sys_resources s'" for d s' s2
    using that p by (auto simp: undoable_def)
qed

section \<open>Properties\<close>


text \<open>The information block's type that a driver serves.\<close>

fun driver_type :: "driver \<Rightarrow> ccat_info_t" where
  "driver_type Drv_Eth_Eim = CCATINFO_ETHERCAT_NODMA"
| "driver_type Drv_Eth_Dma = CCATINFO_ETHERCAT_MASTER_DMA"
| "driver_type Drv_Gpio = CCATINFO_GPIO"
| "driver_type Drv_Update = CCATINFO_EPCS_PROM"
| "driver_type Drv_Sram = CCATINFO_SRAM"
| "driver_type Drv_Systemtime = CCATINFO_SYSTEMTIME"

lemmas driver_tables = platform_match_def platform_drivers_def ccat_eth_eim_driver_def ccat_eth_dma_driver_def
  gpio_driver_def update_driver_def sram_driver_def systemtime_driver_def

lemma cell_of_driver:
  assumes "(nm, f) \<in> set (cell_of d info)"
  shows "\<exists>drv. platform_match nm platform_drivers = Some drv \<and> info_type (func_info f) = ccat_info_code (driver_type drv)"
  using assms by (auto simp: cell_of_def ccat_cells_def driver_tables split: if_splits)

lemma driver_type_covered:
  assumes "info_type info = ccat_info_code (driver_type drv)"
  shows "\<exists>nm. cell_of d info = [(nm, \<lparr>func_ccat = d, func_info = info\<rparr>)] \<and> platform_match nm platform_drivers = Some drv"
  using assms by (cases drv) (simp_all add: cell_of_def ccat_cells_def driver_tables)

text \<open>C21: the table of cells and the tables of drivers agree: every cell that the function table of an
  FPGA gives rise to is matched by the driver that serves its block's type, and every block whose type
  some driver serves becomes a cell for exactly that driver.\<close>

theorem cells_find_drivers:
  assumes "\<forall>n. me_kz env n" and "\<forall>n. me_add env n = 0"
    and "num = unat (fst (ioread8 hw (bar_0 d + 4) h))"
    and "table_law hw cells (bar_0 d) (num * info_block_size)" and "mk_cells k = []"
    and "ccat_functions_init env hw d k h = (r, k', h')"
  shows "(\<forall>(nm, f) \<in> set (mk_cells k'). \<exists>drv. platform_match nm platform_drivers = Some drv \<and>
      info_type (func_info f) = ccat_info_code (driver_type drv)) \<and>
    (\<forall>info \<in> set (table_blocks (cells h) (bar_0 d) num). \<forall>drv. info_type info = ccat_info_code (driver_type drv) \<longrightarrow>
      (\<exists>nm. (nm, \<lparr>func_ccat = d, func_info = info\<rparr>) \<in> set (mk_cells k') \<and> platform_match nm platform_drivers = Some drv))"
proof -
  have cells: "mk_cells k' = concat (map (cell_of d) (table_blocks (cells h) (bar_0 d) num))"
    using functions_init_cells [OF assms(1-4,6)] assms(5) by simp
  have "\<exists>nm. (nm, \<lparr>func_ccat = d, func_info = info\<rparr>) \<in> set (mk_cells k') \<and> platform_match nm platform_drivers = Some drv"
    if "info \<in> set (table_blocks (cells h) (bar_0 d) num)" "info_type info = ccat_info_code (driver_type drv)" for info drv
    using driver_type_covered [OF that(2), of d] that(1) by (force simp: cells)
  then show ?thesis using cell_of_driver by (fastforce simp: cells)
qed

text \<open>the PCI core offers the driver exactly the Beckhoff CCAT FPGA, and the device tree exactly its node.\<close>

theorem bus_ids_match:
  "(pci_match_id (bd_ids ccat_pci_driver) (v, d) \<longleftrightarrow> v = 0x15EC \<and> d = 0x5000) \<and>
   (of_match (bd_ids ccat_eim_driver) c \<longleftrightarrow> c = ''bhf,emi-ccat'')"
  by (auto simp: ccat_pci_driver_def ccat_eim_driver_def bhf_eim_ccat_ids_def pci_ids_def PCI_VENDOR_ID_BECKHOFF_def
      PCI_DEVICE_ID_BECKHOFF_CCAT_def)

section \<open>Witnesses\<close>

text \<open>A system with no device yet, and an environment that grants everything.\<close>

definition system0 :: "unit system" where
  "system0 = \<lparr>sys_kernel = kernel0, sys_sram = sram_class, sys_update = update_class, sys_eth = probe_kernel0,
     sys_mach = machine1, sys_chips = [], sys_clocks = [], sys_cnt = 0\<rparr>"

definition sys_env0 :: sys_env where
  "sys_env0 = \<lparr>se_kenv = kenv0, se_eth = probe_env0, se_pdev = 1, se_kz = True, se_name = True, se_gpio = (\<lambda>_. 0), se_clock = (\<lambda>_. 0)\<rparr>"

text \<open>One cell for each driver, and one without.\<close>

definition cells0 :: "(sys_env \<times> string \<times> ccat_function) list" where
  "cells0 = map (\<lambda>nm. (sys_env0, nm, eth_func0))
     [''ccat_eth_eim'', ''ccat_eth_dma'', ''ccat_gpio'', ''ccat_update'', ''ccat_sram'', ''ccat_systemtime'', ''ccat_none'']"

lemma system0_inv: "sys_inv system0"
  using static_class_inv [of CCAT_SRAM_DEVICES_MAX kernel0 "''ccat_sram''"]
    static_class_inv [of CCAT_UPDATE_DEVICES_MAX kernel0 "''ccat_update''"]
  by (simp add: sys_inv_def system0_def sram_class_def update_class_def static_class_def kernel0_def
      CCAT_SRAM_DEVICES_MAX_def CCAT_UPDATE_DEVICES_MAX_def)

lemma cells0_granted: "\<forall>e \<in> set cells0. cell_granted rom_bus e"
proof -
  have "dma_pairs probe_env0" by (simp add: dma_pairs_def probe_env0_def)
  moreover have "\<not> isl (sram_iosize (func_info eth_func0))" by (simp add: sram_iosize_def eth_func0_def sram_size_def)
  ultimately show ?thesis using kenv0_grants by (simp add: cells0_def cell_granted_def sys_env0_def rom_bus_mac)
qed


theorem cells_find_drivers_witness:
  "\<exists>r k' h'. ccat_functions_init mfd_env0 ram_bus \<lparr>bar_0 = 0x100, bar_2 = 0\<rparr> mfd_kernel0 table_mem0 = (r, k', h') \<and>
     (\<exists>nm. (nm, \<lparr>func_ccat = \<lparr>bar_0 = 0x100, bar_2 = 0\<rparr>, func_info = block2\<rparr>) \<in> set (mk_cells k') \<and>
        platform_match nm platform_drivers = Some Drv_Sram)"
proof -
  obtain r k' h' where run: "ccat_functions_init mfd_env0 ram_bus \<lparr>bar_0 = 0x100, bar_2 = 0\<rparr> mfd_kernel0 table_mem0 = (r, k', h')"
    by (metis prod.collapse)
  have num: "3 = unat (fst (ioread8 ram_bus (bar_0 \<lparr>bar_0 = 0x100, bar_2 = 0\<rparr> + 4) table_mem0))"
    by (simp add: ram_bus_def table_mem0_count)
  have env: "\<forall>n. me_kz mfd_env0 n" "\<forall>n. me_add mfd_env0 n = 0" by (simp_all add: mfd_env0_def)
  have k: "mk_cells mfd_kernel0 = []" by (simp add: mfd_kernel0_def)
  have b: "info_type block2 = ccat_info_code (driver_type Drv_Sram)" by (simp add: block2_def)
  from cells_find_drivers [OF env num ram_bus_table k run] b run show ?thesis by (auto simp: table_mem0_blocks)
qed

end
