(* ===== verification/Ccat_Fpga.thy ===== *)
theory Ccat_Fpga
  imports Ccat_System
begin

text \<open>
  The whole FPGA: the probe of the PCI or of the EIM bus driver in \<^verbatim>\<open>src/module.c\<close>, the cells it adds, the drivers
  of all source files that bind to them, and the removal. The kernel offers every cell to its driver after
  the table was read; \<open>mfd_remove_devices\<close> removes the bound devices before the windows are unmapped.
  What a bus driver contributes is the interface \<open>fpga_bus\<close>, which both provide.

  Of the hardware it is assumed that the table of functions is read-only memory (\<open>table_rom\<close>).
\<close>

type_synonym ('e, 'b, 'h) bus_probe_op =
  "'e \<Rightarrow> mfd_env \<Rightarrow> 'h mmio \<Rightarrow> 'b \<Rightarrow> mfd_kernel \<Rightarrow> 'h \<Rightarrow> int \<times> 'b \<times> mfd_kernel \<times> 'h"
type_synonym 'b bus_remove_op = "'b \<Rightarrow> mfd_kernel \<Rightarrow> 'b \<times> mfd_kernel"
type_synonym ('b, 'h) fpga_state = "'b \<times> mfd_kernel \<times> 'h system"

definition fpga_probe ::
  "('e, 'b, 'h) bus_probe_op \<Rightarrow> 'h mmio \<Rightarrow> ('e \<times> mfd_env \<times> sys_env, ('b, 'h) fpga_state, bound option list) probe_op" where
  "fpga_probe bprobe hw e s =
     (case e of (be, me, env) \<Rightarrow>
      case s of (b, k, sys) \<Rightarrow>
      case bprobe be me hw b k (dev (sys_mach sys)) of (st, b, k', h) \<Rightarrow>
        let sys = sys\<lparr>sys_mach := (sys_mach sys)\<lparr>dev := h\<rparr>\<rparr>
        in if st \<noteq> 0 then Inr (None, b, k', sys)
           else case plug_all (bus_probe hw) (map (Pair env) (drop (length (mk_cells k)) (mk_cells k'))) sys of
                  Inl f \<Rightarrow> Inl f
                | Inr (ds, sys) \<Rightarrow> Inr (Some ds, b, k', sys))"

definition fpga_remove :: "'b bus_remove_op \<Rightarrow> 'h mmio \<Rightarrow> (('b, 'h) fpga_state, bound option list) remove_op" where
  "fpga_remove bremove hw ds s =
     (case s of (b, k, sys) \<Rightarrow>
      case unplug_all (driver_remove hw) ds sys of
        Inl f \<Rightarrow> Inl f
      | Inr sys \<Rightarrow> (case bremove b k of (b, k) \<Rightarrow> Inr (b, k, sys)))"

section \<open>The cells of a table\<close>

lemma connect_cells:
  assumes "ccat_function_connect env \<lparr>func_ccat = d, func_info = info\<rparr> k = (ret, k')"
  shows "mk_cells k' = mk_cells k \<or> mk_cells k' = mk_cells k @ cell_of d info"
  using assms by (auto simp: ccat_function_connect_def mfd_add_devices_def cell_of_def Let_def split: option.splits if_splits)

text \<open>Whatever the kernel refuses, the cells added are cells of the table.\<close>

lemma functions_loop_cells:
  assumes law: "table_law hw cells base len" and "base \<le> a" and "a + n * info_block_size \<le> base + len"
    and "functions_loop env hw d nx a n k h = (r, k', h')"
  shows "\<exists>xs. mk_cells k' = mk_cells k @ xs \<and> set xs \<subseteq> set (concat (map (cell_of d) (table_blocks (cells h) a n)))"
  using assms(2-4)
proof (induction n arbitrary: nx a k h)
  case 0
  then show ?case by (auto simp: kfree_function_def split: if_splits)
next
  case (Suc n)
  let ?info = "info_block_of_bytes (mem_read (cells h) a info_block_size)"
  obtain bs h1 where rd: "memcpy_fromio hw a info_block_size h = (bs, h1)" by fastforce
  have fit: "a + info_block_size \<le> base + len" using Suc.prems(2) by simp
  have rd': "bs = mem_read (cells h) a info_block_size" "cells h1 = cells h"
    using law Suc.prems(1) fit rd unfolding table_law_def by (metis fst_conv, metis snd_conv)
  obtain ret k1 where c: "ccat_function_connect env \<lparr>func_ccat = d, func_info = ?info\<rparr> k = (ret, k1)" by fastforce
  note blocks = table_blocks_Suc [of "cells h" a n]
  have ih: "\<exists>xs. mk_cells k' = mk_cells k2 @ xs \<and> set xs \<subseteq> set (concat (map (cell_of d) (table_blocks (cells h) (a + info_block_size) n)))"
    if "functions_loop env hw d nx2 (a + info_block_size) n k2 h1 = (r, k', h')" for nx2 k2
    using Suc.IH [OF _ _ that] Suc.prems(1,2) rd'(2) by simp
  have grow: "\<exists>xs. mk_cells k' = mk_cells k @ xs \<and> set xs \<subseteq> set (concat (map (cell_of d) (table_blocks (cells h) a (Suc n))))"
    if "mk_cells k2 = mk_cells k \<or> mk_cells k2 = mk_cells k @ cell_of d ?info"
      and "\<exists>xs. mk_cells k' = mk_cells k2 @ xs \<and> set xs \<subseteq> set (concat (map (cell_of d) (table_blocks (cells h) (a + info_block_size) n)))"
    for k2
    using that unfolding blocks by fastforce
  consider "\<not> nx" | "nx" "\<not> block_used ?info" | "nx" "block_used ?info" "ret < 0" | "nx" "block_used ?info" "\<not> ret < 0" by blast
  then show ?case
  proof cases
    case 1
    then show ?thesis using Suc.prems(3) by (auto simp: kfree_function_def)
  next
    case 2
    then have "functions_loop env hw d nx (a + info_block_size) n k h1 = (r, k', h')"
      using Suc.prems(3) rd rd' by (simp add: block_used_def Let_def)
    from grow [OF _ ih [OF this]] show ?thesis by blast
  next
    case 3
    then have "k' = k1" using Suc.prems(3) rd rd' c by (simp add: block_used_def Let_def)
    with grow [of k1] connect_cells [OF c] show ?thesis by auto
  next
    case 4
    obtain nx2 k2 where kz: "kzalloc_function env k1 = (nx2, k2)" by fastforce
    then have "functions_loop env hw d nx2 (a + info_block_size) n k2 h1 = (r, k', h')"
      using 4 Suc.prems(3) rd rd' c by (simp add: block_used_def Let_def)
    moreover have "mk_cells k2 = mk_cells k1" using kz by (auto simp: kzalloc_function_def)
    ultimately show ?thesis using grow [OF _ ih] connect_cells [OF c] by metis
  qed
qed

text \<open>The records of functions that stay allocated: at most one for every used block.\<close>

lemma connect_live: "ccat_function_connect env f k = (ret, k') \<Longrightarrow> mk_live k' = mk_live k"
  by (auto simp: ccat_function_connect_def mfd_add_devices_def Let_def split: option.splits if_splits)

lemma functions_loop_live:
  assumes law: "table_law hw cells base len" and "base \<le> a" and "a + n * info_block_size \<le> base + len"
    and "functions_loop env hw d nx a n k h = (r, k', h')" and "mk_live k = l + (if nx then 1 else 0)"
  shows "l \<le> mk_live k' \<and> mk_live k' \<le> l + length (filter block_used (table_blocks (cells h) a n))"
  using assms(2-5)
proof (induction n arbitrary: nx a k h l)
  case 0
  then show ?case by (auto simp: kfree_function_def split: if_splits)
next
  case (Suc n)
  let ?info = "info_block_of_bytes (mem_read (cells h) a info_block_size)"
  obtain bs h1 where rd: "memcpy_fromio hw a info_block_size h = (bs, h1)" by fastforce
  have fit: "a + info_block_size \<le> base + len" using Suc.prems(2) by simp
  have rd': "bs = mem_read (cells h) a info_block_size" "cells h1 = cells h"
    using law Suc.prems(1) fit rd unfolding table_law_def by (metis fst_conv, metis snd_conv)
  obtain ret k1 where c: "ccat_function_connect env \<lparr>func_ccat = d, func_info = ?info\<rparr> k = (ret, k1)" by fastforce
  note blocks = table_blocks_Suc [of "cells h" a n]
  have ih: "l2 \<le> mk_live k' \<and> mk_live k' \<le> l2 + length (filter block_used (table_blocks (cells h) (a + info_block_size) n))"
    if "functions_loop env hw d nx2 (a + info_block_size) n k2 h1 = (r, k', h')" "mk_live k2 = l2 + (if nx2 then 1 else 0)" for nx2 k2 l2
    using Suc.IH [OF _ _ that] Suc.prems(1,2) rd'(2) by simp
  consider "\<not> nx" | "nx" "\<not> block_used ?info" | "nx" "block_used ?info" "ret < 0" | "nx" "block_used ?info" "\<not> ret < 0" by blast
  then show ?case
  proof cases
    case 1
    then show ?thesis using Suc.prems(3,4) by (auto simp: kfree_function_def)
  next
    case 2
    then have "functions_loop env hw d nx (a + info_block_size) n k h1 = (r, k', h')"
      using Suc.prems(3) rd rd' by (simp add: block_used_def Let_def)
    from ih [OF this Suc.prems(4)] show ?thesis by (simp add: blocks 2)
  next
    case 3
    then have "k' = k1" using Suc.prems(3) rd rd' c by (simp add: block_used_def Let_def)
    then show ?thesis using connect_live [OF c] Suc.prems(4) by (simp add: blocks 3)
  next
    case 4
    obtain nx2 k2 where kz: "kzalloc_function env k1 = (nx2, k2)" by fastforce
    then have "functions_loop env hw d nx2 (a + info_block_size) n k2 h1 = (r, k', h')"
      using 4 Suc.prems(3) rd rd' c by (simp add: block_used_def Let_def)
    moreover have "mk_live k2 = Suc l + (if nx2 then 1 else 0)"
      using kz connect_live [OF c] Suc.prems(4) 4(1) by (auto simp: kzalloc_function_def)
    ultimately show ?thesis using ih by (fastforce simp: blocks 4)
  qed
qed

section \<open>Plugging and unplugging\<close>

text \<open>The table is read-only memory with the given contents and number of blocks.\<close>

definition table_rom :: "'h mmio \<Rightarrow> memory \<Rightarrow> addr \<Rightarrow> nat \<Rightarrow> bool" where
  "table_rom hw rom base num \<longleftrightarrow> table_law hw (\<lambda>_. rom) base (num * info_block_size) \<and>
     (\<forall>h. unat (fst (ioread8 hw (base + 4) h)) = num)"

text \<open>What is needed of the environment of a device \<open>d\<close> with the table \<open>rom\<close>: the requests of the drivers that
  would otherwise fault or leak are granted.\<close>

definition cells_granted :: "'h mmio \<Rightarrow> memory \<Rightarrow> nat \<Rightarrow> ccat_device \<Rightarrow> sys_env \<Rightarrow> bool" where
  "cells_granted hw rom num d env \<longleftrightarrow> table_rom hw rom (bar_0 d) num \<and>
     (\<forall>info \<in> set (table_blocks rom (bar_0 d) num). \<forall>c \<in> set (cell_of d info). cell_granted hw (env, c))"

definition fpga_inv :: "ccat_device \<Rightarrow> ('b, 'h) fpga_state \<Rightarrow> bool" where
  "fpga_inv d s \<longleftrightarrow> sys_inv (snd (snd s)) \<and> (\<forall>c \<in> set (mk_cells (fst (snd s))). func_ccat (snd c) \<noteq> d)"

text \<open>The resources that the drivers give back: those of the bus driver, the cells and those of the function drivers. The
  records of functions (\<open>mk_live\<close>) are not among them.\<close>

definition fpga_resources where
  "fpga_resources res s = (case s of (b, k, sys) \<Rightarrow> (res b, mk_cells k, sys_resources sys))"

lemma functions_init_added:
  assumes rom: "table_rom hw rom (bar_0 d) num" and run: "ccat_functions_init env hw d k h = (r, k', h')"
  shows "\<exists>xs. mk_cells k' = mk_cells k @ xs \<and> set xs \<subseteq> set (concat (map (cell_of d) (table_blocks rom (bar_0 d) num)))"
proof -
  obtain nx k1 where kz: "kzalloc_function env k = (nx, k1)" by fastforce
  have law: "table_law hw (\<lambda>_. rom) (bar_0 d) (num * info_block_size)" and num: "unat (fst (ioread8 hw (bar_0 d + 4) h)) = num"
    using rom by (simp_all add: table_rom_def)
  obtain h1 where "functions_loop env hw d nx (bar_0 d) num k1 h1 = (r, k', h')"
    using run num by (auto simp: ccat_functions_init_def kz Let_def case_prod_beta)
  from functions_loop_cells [OF law _ _ this] obtain xs where
    "mk_cells k' = mk_cells k1 @ xs" "set xs \<subseteq> set (concat (map (cell_of d) (table_blocks rom (bar_0 d) num)))" by auto
  moreover have "mk_cells k1 = mk_cells k" using kz by (auto simp: kzalloc_function_def)
  ultimately show ?thesis by auto
qed

text \<open>The number of used blocks of a table.\<close>

definition used_blocks :: "memory \<Rightarrow> addr \<Rightarrow> nat \<Rightarrow> nat" where
  "used_blocks rom base num = length (filter block_used (table_blocks rom base num))"

lemma functions_init_live:
  assumes rom: "table_rom hw rom (bar_0 d) num" and run: "ccat_functions_init env hw d k h = (r, k', h')"
  shows "mk_live k \<le> mk_live k' \<and> mk_live k' \<le> mk_live k + used_blocks rom (bar_0 d) num"
proof -
  obtain nx k1 where kz: "kzalloc_function env k = (nx, k1)" by fastforce
  have law: "table_law hw (\<lambda>_. rom) (bar_0 d) (num * info_block_size)" and num: "unat (fst (ioread8 hw (bar_0 d + 4) h)) = num"
    using rom by (simp_all add: table_rom_def)
  obtain h1 where loop: "functions_loop env hw d nx (bar_0 d) num k1 h1 = (r, k', h')"
    using run num by (auto simp: ccat_functions_init_def kz Let_def case_prod_beta)
  have "mk_live k1 = mk_live k + (if nx then 1 else 0)" using kz by (auto simp: kzalloc_function_def)
  from functions_loop_live [OF law order_refl order_refl loop this] show ?thesis by (simp add: used_blocks_def)
qed

lemma cell_of_device: "c \<in> set (cell_of d info) \<Longrightarrow> func_ccat (snd c) = d"
  by (auto simp: cell_of_def split: option.splits)

lemma sys_dev [simp]:
  "sys_inv (s\<lparr>sys_mach := m\<rparr>) = sys_inv s" "sys_resources (s\<lparr>sys_mach := m\<rparr>) = sys_resources s"
  by (simp_all add: sys_inv_def sys_resources_def eth_resources_def)

lemma remove_cells:
  assumes "mk_cells k' = mk_cells k @ xs" and "\<forall>c \<in> set xs. func_ccat (snd c) = d"
    and "\<forall>c \<in> set (mk_cells k). func_ccat (snd c) \<noteq> d" and "k'' = mfd_remove_devices d k'"
  shows "mk_cells k'' = mk_cells k"
proof -
  have "filter (\<lambda>(nm, f). func_ccat f \<noteq> d) xs = []" "filter (\<lambda>(nm, f). func_ccat f \<noteq> d) (mk_cells k) = mk_cells k"
    using assms(2,3) by (auto simp: filter_empty_conv filter_id_conv)
  then show ?thesis using assms(1,4) by (simp add: mfd_remove_devices_def)
qed

section \<open>What a bus driver promises\<close>

text \<open>For a device with the windows \<open>d\<close>: a probe that fails leaves everything; one that succeeds reads the table, and the
  removal takes back the device's cells and what the probe took of the bus. \<open>fit\<close> restricts the environment of a
  probe.\<close>

locale fpga_bus =
  fixes bprobe :: "('e, 'b, 'h) bus_probe_op" and bremove :: "'b bus_remove_op" and res :: "'b \<Rightarrow> 'r"
    and d :: ccat_device and fit :: "'e \<Rightarrow> bool"
  assumes refused: "fit e \<Longrightarrow> bprobe e me hw b k h = (st, b', k', h') \<Longrightarrow> st \<noteq> 0 \<Longrightarrow> res b' = res b \<and> k' = k"
    and table: "fit e \<Longrightarrow> bprobe e me hw b k h = (0, b', k', h') \<Longrightarrow> \<exists>r. ccat_functions_init me hw d k h = (r, k', h')"
    and undone: "fit e \<Longrightarrow> bprobe e me hw b k h = (0, b', k', h') \<Longrightarrow> bremove b' k' = (b'', k'') \<Longrightarrow>
      res b'' = res b \<and> k'' = mfd_remove_devices d k'"
begin

lemma fpga_bound:
  assumes inv: "fpga_inv d (b, k, sys)" and g: "fit be" "cells_granted hw rom num d env"
    and run: "bprobe be me hw b k (dev (sys_mach sys)) = (0, b', k', h)"
  shows "\<exists>ds sys1 s'. fpga_probe bprobe hw (be, me, env) (b, k, sys) = Inr (Some ds, b', k', sys1) \<and>
    fpga_remove bremove hw ds (b', k', sys1) = Inr s' \<and> fpga_inv d s' \<and> fpga_resources res s' = fpga_resources res (b, k, sys)"
proof -
  let ?sys = "sys\<lparr>sys_mach := (sys_mach sys)\<lparr>dev := h\<rparr>\<rparr>"
  have rom: "table_rom hw rom (bar_0 d) num" using g(2) by (simp add: cells_granted_def)
  obtain xs where xs: "mk_cells k' = mk_cells k @ xs" "set xs \<subseteq> set (concat (map (cell_of d) (table_blocks rom (bar_0 d) num)))"
    using table [OF g(1) run] functions_init_added [OF rom] by blast
  have "\<forall>c \<in> set xs. cell_granted hw (env, c)" using xs(2) g(2) by (fastforce simp: cells_granted_def)
  then obtain ds sys1 where p: "plug_all (bus_probe hw) (map (Pair env) xs) ?sys = Inr (ds, sys1)" "sys_inv sys1"
    and undo: "\<forall>s2. sys_inv s2 \<and> sys_resources s2 = sys_resources sys1 \<longrightarrow>
      (\<exists>s3. unplug_all (driver_remove hw) ds s2 = Inr s3 \<and> sys_inv s3 \<and> sys_resources s3 = sys_resources ?sys)"
    using fpga.plug_unplug_all [of ?sys "map (Pair env) xs" hw] inv by (auto simp: fpga_inv_def)
  obtain sys3 where u: "unplug_all (driver_remove hw) ds sys1 = Inr sys3" "sys_inv sys3" "sys_resources sys3 = sys_resources sys"
    using undo p(2) by auto
  obtain b2 k2 where r: "bremove b' k' = (b2, k2)" by fastforce
  note undo2 = undone [OF g(1) run r]
  have "\<forall>c \<in> set xs. func_ccat (snd c) = d" using xs(2) cell_of_device by fastforce
  moreover have "\<forall>c \<in> set (mk_cells k). func_ccat (snd c) \<noteq> d" using inv by (simp add: fpga_inv_def)
  ultimately have cells: "mk_cells k2 = mk_cells k" using remove_cells [OF xs(1)] undo2 by blast
  have "fpga_remove bremove hw ds (b', k', sys1) = Inr (b2, k2, sys3)" using u r by (simp add: fpga_remove_def)
  moreover have "fpga_resources res (b2, k2, sys3) = fpga_resources res (b, k, sys)" using undo2 cells u(3) by (simp add: fpga_resources_def)
  moreover have "fpga_inv d (b2, k2, sys3)" using cells u(2) inv by (simp add: fpga_inv_def)
  moreover have "fpga_probe bprobe hw (be, me, env) (b, k, sys) = Inr (Some ds, b', k', sys1)"
    using p(1) by (simp add: fpga_probe_def run xs(1) Let_def)
  ultimately show ?thesis by blast
qed

lemma fpga_refused:
  assumes inv: "fpga_inv d (b, k, sys)" and fit: "fit be"
    and run: "bprobe be me hw b k (dev (sys_mach sys)) = (st, b', k', h)" and st: "st \<noteq> 0"
  shows "\<exists>s'. fpga_probe bprobe hw (be, me, env) (b, k, sys) = Inr (None, s') \<and> fpga_inv d s' \<and>
    fpga_resources res s' = fpga_resources res (b, k, sys)"
  using refused [OF fit run st] st inv by (simp add: fpga_probe_def run Let_def fpga_inv_def fpga_resources_def)

text \<open>The records of functions are not among these resources: nobody frees them.\<close>

lemma fpga_live:
  assumes g: "fit be" "cells_granted hw rom num d env" and run: "fpga_probe bprobe hw (be, me, env) s = Inr (x, s1)"
  shows "x = None \<Longrightarrow> mk_live (fst (snd s1)) = mk_live (fst (snd s))"
    and "x = Some ds \<Longrightarrow> fpga_remove bremove hw ds s1 = Inr s2 \<Longrightarrow>
      mk_live (fst (snd s)) \<le> mk_live (fst (snd s2)) \<and> mk_live (fst (snd s2)) \<le> mk_live (fst (snd s)) + used_blocks rom (bar_0 d) num"
proof -
  obtain b k sys where s: "s = (b, k, sys)" by (cases s)
  obtain st b' k' h where bp: "bprobe be me hw b k (dev (sys_mach sys)) = (st, b', k', h)" by (metis prod.collapse)
  have k': "fst (snd s1) = k'" using run bp by (auto simp: fpga_probe_def s Let_def split: if_splits sum.splits)
  show "mk_live (fst (snd s1)) = mk_live (fst (snd s))" if "x = None"
  proof -
    have "st \<noteq> 0" using run bp that by (auto simp: fpga_probe_def s Let_def split: if_splits sum.splits)
    then show ?thesis using refused [OF g(1) bp] k' by (simp add: s)
  qed
  assume x: "x = Some ds" and rm: "fpga_remove bremove hw ds s1 = Inr s2"
  then have st: "st = 0" and b': "fst s1 = b'" using run bp by (auto simp: fpga_probe_def s Let_def split: if_splits sum.splits)
  have rom: "table_rom hw rom (bar_0 d) num" using g(2) by (simp add: cells_granted_def)
  obtain r where "ccat_functions_init me hw d k (dev (sys_mach sys)) = (r, k', h)" using table [OF g(1) bp [unfolded st]] by blast
  note live = functions_init_live [OF rom this]
  obtain b'' k'' where r: "bremove b' k' = (b'', k'')" by fastforce
  then have "fst (snd s2) = k''" using rm b' k' by (auto simp: fpga_remove_def split: sum.splits prod.splits)
  moreover have "mk_live k'' = mk_live k'" using undone [OF g(1) bp [unfolded st] r] by (simp add: mfd_remove_devices_def)
  ultimately show "mk_live (fst (snd s)) \<le> mk_live (fst (snd s2)) \<and> mk_live (fst (snd s2)) \<le> mk_live (fst (snd s)) + used_blocks rom (bar_0 d) num"
    using live by (simp add: s)
qed

lemma replug_live:
  assumes "replug (fpga_probe bprobe hw) (fpga_remove bremove hw) es s = Inr s'"
    and "\<forall>(be, me, env) \<in> set es. fit be \<and> cells_granted hw rom num d env"
  shows "mk_live (fst (snd s)) \<le> mk_live (fst (snd s')) \<and>
    mk_live (fst (snd s')) \<le> mk_live (fst (snd s)) + length es * used_blocks rom (bar_0 d) num"
proof (rule replug_growth [OF assms(1)])
  fix e s s1
  assume e: "e \<in> set es" and run: "fpga_probe bprobe hw e s = Inr (None, s1)"
  obtain be me env where "e = (be, me, env)" by (cases e)
  then show "mk_live (fst (snd s1)) = mk_live (fst (snd s))" using fpga_live(1) e run assms(2) by blast
next
  fix e s ds s1 s2
  assume e: "e \<in> set es" and run: "fpga_probe bprobe hw e s = Inr (Some ds, s1)" and rm: "fpga_remove bremove hw ds s1 = Inr s2"
  obtain be me env where e': "e = (be, me, env)" by (cases e)
  then have "fit be" "cells_granted hw rom num d env" using e assms(2) by auto
  from fpga_live(2) [OF this run [unfolded e'] refl rm]
  show "mk_live (fst (snd s)) \<le> mk_live (fst (snd s2)) \<and> mk_live (fst (snd s2)) \<le> mk_live (fst (snd s)) + used_blocks rom (bar_0 d) num" .
qed

end

text \<open>With such a bus driver the whole FPGA can be plugged and unplugged.\<close>

sublocale fpga_bus \<subseteq> device: hotplug "fpga_probe bprobe hw" "fpga_remove bremove hw" "fpga_inv d"
    "\<lambda>(be, me, env). fit be \<and> cells_granted hw rom num d env" "fpga_resources res" for hw rom num
proof
  fix s :: "('b, 'h) fpga_state" and e :: "'e \<times> mfd_env \<times> sys_env"
  obtain b k sys where s: "s = (b, k, sys)" by (cases s)
  obtain be me env where e: "e = (be, me, env)" by (cases e)
  assume inv: "fpga_inv d s" and "case e of (be, me, env) \<Rightarrow> fit be \<and> cells_granted hw rom num d env"
  then have g: "fit be" "cells_granted hw rom num d env" by (simp_all add: e)
  obtain st b' k' h where run: "bprobe be me hw b k (dev (sys_mach sys)) = (st, b', k', h)" by (metis prod.collapse)
  have bound: "\<exists>ds s1 s2. fpga_probe bprobe hw e s = Inr (Some ds, s1) \<and> fpga_remove bremove hw ds s1 = Inr s2 \<and>
      fpga_inv d s2 \<and> fpga_resources res s2 = fpga_resources res s"
    if "st = 0" using fpga_bound [OF inv [unfolded s] g run [unfolded that]] unfolding s e by blast
  have none: "\<exists>s'. fpga_probe bprobe hw e s = Inr (None, s') \<and> fpga_inv d s' \<and> fpga_resources res s' = fpga_resources res s" if "st \<noteq> 0"
    using fpga_refused [OF inv [unfolded s] g(1) run that] unfolding s e by blast
  show "\<exists>d s'. fpga_probe bprobe hw e s = Inr (d, s')" using bound none by blast
  show "fpga_inv d s' \<and> fpga_resources res s' = fpga_resources res s" if "fpga_probe bprobe hw e s = Inr (None, s')" for s'
    using bound none that by fastforce
  show "\<exists>s''. fpga_remove bremove hw ds s' = Inr s'' \<and> fpga_inv d s'' \<and> fpga_resources res s'' = fpga_resources res s"
    if "fpga_probe bprobe hw e s = Inr (Some ds, s')" for ds s'
    using bound none that by fastforce
qed

section \<open>The two buses\<close>

definition pci_holds :: "pci_state \<Rightarrow> nat \<times> nat \<times> addr list" where
  "pci_holds ps = (ps_enabled ps, ps_regions ps, ps_maps ps)"

definition pci_windows :: "ccat_device \<Rightarrow> pci_env \<Rightarrow> bool" where
  "pci_windows d pe \<longleftrightarrow> (pe_bar0 pe \<noteq> 0 \<longrightarrow> \<lparr>bar_0 = pe_bar0 pe, bar_2 = pe_bar2 pe\<rparr> = d)"

interpretation pci_fpga: fpga_bus ccat_pci_probe ccat_pci_remove pci_holds d "pci_windows d" for d
proof
  fix e me b k st b' k' b'' k'' and hw :: "'h mmio" and h h'
  assume w: "pci_windows d e"
  show "pci_holds b' = pci_holds b \<and> k' = k" if "ccat_pci_probe e me hw b k h = (st, b', k', h')" "st \<noteq> 0"
    using pci_probe_balanced [OF that(1)] that(2) by (simp add: pci_holds_def)
  assume run: "ccat_pci_probe e me hw b k h = (0, b', k', h')"
  have "pe_bar0 e \<noteq> 0" using run by (auto simp: ccat_pci_probe_def pci_iomap_def Let_def split: if_splits prod.splits)
  then have d: "\<lparr>bar_0 = pe_bar0 e, bar_2 = pe_bar2 e\<rparr> = d" using w by (simp add: pci_windows_def)
  show "\<exists>r. ccat_functions_init me hw d k h = (r, k', h')"
    using run unfolding d [symmetric] by (auto simp: ccat_pci_probe_def pci_iomap_def Let_def split: if_splits prod.splits)
  have "ps_drvdata b' = Some d"
    using run unfolding d [symmetric] by (auto simp: ccat_pci_probe_def pci_iomap_def Let_def split: if_splits prod.splits)
  then show "pci_holds b'' = pci_holds b \<and> k'' = mfd_remove_devices d k'" if "ccat_pci_remove b' k' = (b'', k'')"
    using pci_probe_balanced [OF run] that by (auto simp: pci_holds_def ccat_pci_remove_def Let_def)
qed

definition eim_holds :: "eim_state \<Rightarrow> (nat \<times> nat) list \<times> addr list" where
  "eim_holds es = (es_regions es, es_maps es)"

text \<open>On EIM the window must be mapped once the region was granted: the probe does not give it back otherwise.\<close>

definition eim_window :: "ccat_device \<Rightarrow> eim_env \<Rightarrow> bool" where
  "eim_window d ie \<longleftrightarrow> (ie_region ie \<longrightarrow> ie_map ie \<noteq> 0 \<and> \<lparr>bar_0 = ie_map ie, bar_2 = 0\<rparr> = d)"

interpretation eim_fpga: fpga_bus ccat_eim_probe "\<lambda>s k. snd (ccat_eim_remove s k)" eim_holds d "eim_window d" for d
proof
  fix e me b k st b' k' b'' k'' and hw :: "'h mmio" and h h'
  assume w: "eim_window d e"
  then have m: "ie_region e \<longrightarrow> ie_map e \<noteq> 0" by (simp add: eim_window_def)
  show "eim_holds b' = eim_holds b \<and> k' = k" if "ccat_eim_probe e me hw b k h = (st, b', k', h')" "st \<noteq> 0"
    using that m by (auto simp: eim_holds_def ccat_eim_probe_def Let_def split: if_splits prod.splits)
  assume run: "ccat_eim_probe e me hw b k h = (0, b', k', h')"
  have "ie_region e" using run by (auto simp: ccat_eim_probe_def Let_def split: if_splits)
  then have d: "\<lparr>bar_0 = ie_map e, bar_2 = 0\<rparr> = d" using w by (simp add: eim_window_def)
  show "\<exists>r. ccat_functions_init me hw d k h = (r, k', h')"
    using run unfolding d [symmetric] by (auto simp: ccat_eim_probe_def Let_def split: if_splits prod.splits)
  show "eim_holds b'' = eim_holds b \<and> k'' = mfd_remove_devices d k'" if "snd (ccat_eim_remove b' k') = (b'', k'')"
    using run that unfolding d [symmetric]
    by (auto simp: eim_holds_def ccat_eim_probe_def ccat_eim_remove_def Let_def split: if_splits prod.splits)
qed

section \<open>Properties\<close>

text \<open>C5: the FPGA comes and goes, across all drivers. Each time the PCI driver is probed and, if no request was
  refused, reads the table of functions; a driver binds to each cell; and in the end the drivers
  are removed in the reverse order and then the FPGA. Any number of times, whichever requests
  the kernel refuses to the bus driver and whichever cells it could add: provided the kernel grants the
  drivers of the cells their character-device requests, network functions have a valid MAC address and
  SRAM functions a size that can be shifted (\<open>cells_granted\<close>), no call faults, and afterwards the
  PCI device, its windows, the cells, and every device number, class, device node, coherent buffer, network
  device, GPIO chip and clock source are as before. What is not given back are the bus driver's records of
  functions: each time at most one stays for every used block of the table.\<close>

theorem fpga_replug:
  assumes "sys_inv sys" and "\<forall>c \<in> set (mk_cells k). func_ccat (snd c) \<noteq> d"
    and "\<forall>(pe, me, env) \<in> set es. pci_windows d pe \<and> cells_granted hw rom num d env"
  shows "\<exists>ps' k' sys'. replug (fpga_probe ccat_pci_probe hw) (fpga_remove ccat_pci_remove hw) es (ps, k, sys) = Inr (ps', k', sys') \<and>
    sys_inv sys' \<and> ps_enabled ps' = ps_enabled ps \<and> ps_regions ps' = ps_regions ps \<and> ps_maps ps' = ps_maps ps \<and>
    mk_cells k' = mk_cells k \<and> sys_resources sys' = sys_resources sys \<and>
    mk_live k \<le> mk_live k' \<and> mk_live k' \<le> mk_live k + length es * used_blocks rom (bar_0 d) num"
proof -
  obtain ps' k' sys' where run: "replug (fpga_probe ccat_pci_probe hw) (fpga_remove ccat_pci_remove hw) es (ps, k, sys) = Inr (ps', k', sys')"
    and keep: "fpga_inv d (ps', k', sys')" "fpga_resources pci_holds (ps', k', sys') = fpga_resources pci_holds (ps, k, sys)"
    using pci_fpga.device.replug_keeps [of d "(ps, k, sys)" es hw rom num] assms by (auto simp: fpga_inv_def)
  then show ?thesis
    using pci_fpga.replug_live [OF run assms(3)] by (auto simp: fpga_inv_def fpga_resources_def pci_holds_def)
qed

text \<open>C36: the same holds on EIM as long as a region that was granted can be mapped: any number of times the FPGA is
  probed and removed on the EIM bus, whichever requests the kernel refuses to the bus driver, and under the same
  conditions on the requests of the cells' drivers, no call faults and region, window, cells and all the
  drivers' resources are as before, apart from at most one record of a function for every used block.\<close>

theorem eim_fpga_replug:
  assumes "sys_inv sys" and "\<forall>c \<in> set (mk_cells k). func_ccat (snd c) \<noteq> d"
    and "\<forall>(ie, me, env) \<in> set es. eim_window d ie \<and> cells_granted hw rom num d env"
  shows "\<exists>b' k' sys'. replug (fpga_probe ccat_eim_probe hw) (fpga_remove (\<lambda>s k. snd (ccat_eim_remove s k)) hw) es (b, k, sys) = Inr (b', k', sys') \<and>
    sys_inv sys' \<and> es_regions b' = es_regions b \<and> es_maps b' = es_maps b \<and>
    mk_cells k' = mk_cells k \<and> sys_resources sys' = sys_resources sys \<and>
    mk_live k \<le> mk_live k' \<and> mk_live k' \<le> mk_live k + length es * used_blocks rom (bar_0 d) num"
proof -
  obtain b' k' sys' where run: "replug (fpga_probe ccat_eim_probe hw) (fpga_remove (\<lambda>s k. snd (ccat_eim_remove s k)) hw) es (b, k, sys) = Inr (b', k', sys')"
    and keep: "fpga_inv d (b', k', sys')" "fpga_resources eim_holds (b', k', sys') = fpga_resources eim_holds (b, k, sys)"
    using eim_fpga.device.replug_keeps [of d "(b, k, sys)" es hw rom num] assms by (auto simp: fpga_inv_def)
  then show ?thesis
    using eim_fpga.replug_live [OF run assms(3)] by (auto simp: fpga_inv_def fpga_resources_def eim_holds_def)
qed

section \<open>Example\<close>

text \<open>A device whose table at 0x100 has two blocks, an SRAM of four bytes and a network function; every other
  byte is 2. The second of four probes is refused the windows, the third the registration of the cells.\<close>

definition fpga_rom :: memory where
  "fpga_rom a = (if a = 0x100 then 0x16 else if a = 0x110 then 0x14 else if a = 0x101 \<or> a = 0x111 then 0 else 2)"

definition table_bus :: "unit mmio" where
  "table_bus = rom_bus\<lparr>memcpy_fromio := (\<lambda>a n h. (mem_read fpga_rom a n, h))\<rparr>"

definition fpga_dev :: ccat_device where
  "fpga_dev = \<lparr>bar_0 = 0x100, bar_2 = 0x8000\<rparr>"

definition fpga_envs :: "(pci_env \<times> mfd_env \<times> sys_env) list" where
  "fpga_envs = [(pci_env0, mfd_env0, sys_env0), (pci_env0\<lparr>pe_bar0 := 0\<rparr>, mfd_env0, sys_env0),
     (pci_env0, mfd_env0\<lparr>me_add := \<lambda>_. -12\<rparr>, sys_env0), (pci_env0, mfd_env0, sys_env0)]"

definition sram_block :: ccat_info_block where
  "sram_block = \<lparr>info_type = 0x16, info_rev = 0x202, info_config = 0x2020202, info_addr = 0x2020202, info_size = 0x2020202\<rparr>"

lemma fpga_rom_blocks:
  "table_blocks fpga_rom 0x100 2 = [sram_block, sram_block\<lparr>info_type := 0x14\<rparr>]"
  by (simp add: table_blocks_def info_block_size_def info_block_of_bytes_def mem_read_def fpga_rom_def sram_block_def
      upt_rec le_word_def field_def)

lemma fpga_rom_table: "table_rom table_bus fpga_rom base 2"
  by (simp add: table_rom_def table_law_def table_bus_def rom_bus_def)

lemma fpga_rom_mac:
  assumes "0x112 \<le> func_base func"
  shows "mac_valid table_bus func"
proof -
  have "mem_read fpga_rom a 6 = [2, 2, 2, 2, 2, 2]" if "0x112 \<le> a" for a
    using that by (simp add: mem_read_def fpga_rom_def upt_rec)
  moreover have "[2, 2, 2, 2, 2, 2 :: u8] \<noteq> replicate 6 0" by (simp add: list_eq_iff_nth_eq) (rule exI [of _ 0], simp)
  ultimately show ?thesis using assms by (simp add: mac_valid_def table_bus_def Let_def is_valid_ether_addr_def)
qed

lemma table_bus_granted:
  assumes "bar_0 d = 0x100"
  shows "cells_granted table_bus fpga_rom 2 d sys_env0"
proof -
  have pairs: "dma_pairs probe_env0" by (simp add: dma_pairs_def probe_env0_def)
  have size: "\<not> isl (sram_iosize sram_block)" by (simp add: sram_iosize_def sram_block_def sram_size_def)
  have "mac_valid table_bus \<lparr>func_ccat = d, func_info = sram_block\<lparr>info_type := 0x14\<rparr>\<rparr>"
    by (rule fpga_rom_mac) (simp add: sram_block_def func_base_def assms)
  then have "cell_granted table_bus (sys_env0, c)"
    if "c \<in> set (cell_of d info)" "info \<in> set (table_blocks fpga_rom (bar_0 d) 2)" for c info
    using that pairs size kenv0_grants unfolding assms fpga_rom_blocks
    by (auto simp: cell_granted_def sys_env0_def cell_of_def ccat_cells_def sram_block_def)
  then show ?thesis by (simp add: cells_granted_def fpga_rom_table)
qed

lemma fpga_dev_bar [simp]: "bar_0 fpga_dev = 0x100"
  by (simp add: fpga_dev_def)

theorem fpga_replug_witness:
  "\<exists>ps' k' sys'. replug (fpga_probe ccat_pci_probe table_bus) (fpga_remove ccat_pci_remove table_bus) fpga_envs
      (pci_state0, mfd_kernel0, system0) = Inr (ps', k', sys') \<and>
    ps_maps ps' = [] \<and> mk_cells k' = [] \<and> sys_resources sys' = sys_resources system0 \<and> mk_live k' \<le> 8"
proof -
  have "\<forall>c \<in> set (mk_cells mfd_kernel0). func_ccat (snd c) \<noteq> fpga_dev" by (simp add: mfd_kernel0_def)
  moreover have "\<forall>(pe, me, env) \<in> set fpga_envs. pci_windows fpga_dev pe \<and> cells_granted table_bus fpga_rom 2 fpga_dev env"
    by (simp add: fpga_envs_def table_bus_granted) (simp add: pci_windows_def pci_env0_def fpga_dev_def)
  moreover have "length fpga_envs * used_blocks fpga_rom (bar_0 fpga_dev) 2 = 8"
    by (simp add: used_blocks_def fpga_rom_blocks fpga_envs_def block_used_def sram_block_def)
  ultimately show ?thesis using fpga_replug [OF system0_inv, of mfd_kernel0 fpga_dev fpga_envs table_bus fpga_rom 2 pci_state0]
    by (auto simp: pci_state0_def mfd_kernel0_def)
qed

text \<open>The same table on the EIM bus; the second of three probes is refused its region.\<close>

definition fpga_eim_envs :: "(eim_env \<times> mfd_env \<times> sys_env) list" where
  "fpga_eim_envs = map (\<lambda>b. (\<lparr>ie_kz = True, ie_region = b, ie_map = 0x100\<rparr>, mfd_env0, sys_env0)) [True, False, True]"

theorem eim_fpga_replug_witness:
  "\<exists>b' k' sys'. replug (fpga_probe ccat_eim_probe table_bus) (fpga_remove (\<lambda>s k. snd (ccat_eim_remove s k)) table_bus) fpga_eim_envs
      (\<lparr>es_drvdata = None, es_regions = [], es_maps = []\<rparr>, mfd_kernel0, system0) = Inr (b', k', sys') \<and>
    es_regions b' = [] \<and> es_maps b' = [] \<and> mk_cells k' = [] \<and> sys_resources sys' = sys_resources system0 \<and> mk_live k' \<le> 6"
proof -
  let ?d = "\<lparr>bar_0 = 0x100, bar_2 = 0\<rparr> :: ccat_device"
  have "\<forall>c \<in> set (mk_cells mfd_kernel0). func_ccat (snd c) \<noteq> ?d" by (simp add: mfd_kernel0_def)
  moreover have "\<forall>(ie, me, env) \<in> set fpga_eim_envs. eim_window ?d ie \<and> cells_granted table_bus fpga_rom 2 ?d env"
    by (simp add: fpga_eim_envs_def table_bus_granted eim_window_def)
  moreover have "length fpga_eim_envs * used_blocks fpga_rom (bar_0 ?d) 2 = 6"
    by (simp add: used_blocks_def fpga_rom_blocks fpga_eim_envs_def block_used_def sram_block_def)
  ultimately show ?thesis
    using eim_fpga_replug [OF system0_inv, of mfd_kernel0 ?d fpga_eim_envs table_bus fpga_rom 2 "\<lparr>es_drvdata = None, es_regions = [], es_maps = []\<rparr>"]
    by (auto simp: mfd_kernel0_def)
qed

end
