(* ===== verification/Ccat_Iface.thy ===== *)
theory Ccat_Iface
  imports Ccat_Eth_Probe
begin

text \<open>
  The life of a network interface between probe and remove (\<^verbatim>\<open>src/netdev.c\<close>, lines 445 to 455, 702 to 712
  and 768 to 784, 862 to 870). The kernel opens, stops and removes the interface one call at a time,
  while the timer's callback runs on another processor, the stack transmits and the device changes
  its memory and registers. \<open>hrtimer_cancel\<close> waits until the callback is not running. The question
  is whether anything still touches the private data and the DMA memory when they are freed.
\<close>

section \<open>The timer's callback\<close>

text \<open>Where the callback is: not running, before the link poll, before the receive poll, before the
  transmit poll, before it returns.\<close>

datatype timer_pc = T_Idle | T_Link | T_Rx | T_Tx | T_Forward

fun timer_move :: "'h mmio \<Rightarrow> skb_env \<Rightarrow> timer_pc \<times> ccat_eth_priv \<times> 'h machine \<Rightarrow> (timer_pc \<times> ccat_eth_priv \<times> 'h machine) exec" where
  "timer_move hw skb_ok (T_Idle, p, m) = Inr (T_Link, p, m)"
| "timer_move hw skb_ok (T_Link, p, m) =
     (case poll_link hw skb_ok p m of Inl e \<Rightarrow> Inl e | Inr (p, m) \<Rightarrow> Inr (T_Rx, p, m))"
| "timer_move hw skb_ok (T_Rx, p, m) = Inr (T_Tx, poll_rx hw skb_ok p m)"
| "timer_move hw skb_ok (T_Tx, p, m) = Inr (T_Forward, poll_tx hw p m)"
| "timer_move hw skb_ok (T_Forward, p, m) = Inr (T_Idle, p, m)"

fun timer_moves :: "'h mmio \<Rightarrow> skb_env \<Rightarrow> nat \<Rightarrow> timer_pc \<times> ccat_eth_priv \<times> 'h machine \<Rightarrow> (timer_pc \<times> ccat_eth_priv \<times> 'h machine) exec" where
  "timer_moves hw skb_ok 0 s = Inr s"
| "timer_moves hw skb_ok (Suc n) s = (case timer_move hw skb_ok s of Inl e \<Rightarrow> Inl e | Inr s \<Rightarrow> timer_moves hw skb_ok n s)"

section \<open>The interface\<close>

text \<open>Where the kernel's calls are: between calls; in \<open>ccat_eth_stop\<close> with the queue stopped and the timer
  still to be cancelled, on the way to a removal or not; in \<open>unregister_netdev\<close> with the interface
  stopped; before the private data are freed; after.\<close>

datatype ctl_pc = C_Idle | C_Cancel bool | C_Unregister | C_Free | C_Gone

record 'h iface =
  i_timer :: timer_pc
  i_ctl :: ctl_pc
  i_up :: bool
  i_priv :: ccat_eth_priv
  i_kernel :: eth_kernel
  i_mach :: "'h machine"

text \<open>The stack transmits only while the interface is up and no call stops it: the kernel waits for
  transmissions to finish before it calls \<open>ccat_eth_stop\<close>.\<close>

inductive iface_step :: "'h mmio \<Rightarrow> skb_env \<Rightarrow> 'h iface \<Rightarrow> 'h iface \<Rightarrow> bool" for hw skb_ok where
  Open: "i_ctl s = C_Idle \<Longrightarrow> \<not> i_up s \<Longrightarrow> ccat_eth_open (i_priv s) = (r, p) \<Longrightarrow>
    iface_step hw skb_ok s (s\<lparr>i_up := True, i_priv := p\<rparr>)"
| Stop: "i_ctl s = C_Idle \<Longrightarrow> i_up s \<Longrightarrow>
    iface_step hw skb_ok s (s\<lparr>i_ctl := C_Cancel removing, i_priv := on_netdev netif_stop_queue (i_priv s)\<rparr>)"
| Cancel: "i_ctl s = C_Cancel removing \<Longrightarrow> i_timer s = T_Idle \<Longrightarrow>
    iface_step hw skb_ok s (s\<lparr>i_ctl := if removing then C_Unregister else C_Idle, i_up := False, i_priv := (i_priv s)\<lparr>p_timer := False\<rparr>\<rparr>)"
| Remove: "i_ctl s = C_Idle \<Longrightarrow> \<not> i_up s \<Longrightarrow> iface_step hw skb_ok s (s\<lparr>i_ctl := C_Unregister\<rparr>)"
| Unregister: "i_ctl s = C_Unregister \<Longrightarrow>
    iface_step hw skb_ok s (s\<lparr>i_ctl := C_Free, i_kernel := unregister_netdev (i_kernel s)\<rparr>)"
| Free: "i_ctl s = C_Free \<Longrightarrow> ccat_eth_priv_free hw (i_priv s) (i_kernel s) (i_mach s) = (p, k, m) \<Longrightarrow>
    iface_step hw skb_ok s (s\<lparr>i_ctl := C_Gone, i_priv := p, i_kernel := free_netdev k, i_mach := m\<rparr>)"
| Timer: "i_timer s \<noteq> T_Idle \<or> p_timer (i_priv s) \<Longrightarrow> timer_move hw skb_ok (i_timer s, i_priv s, i_mach s) = Inr (t, p, m) \<Longrightarrow>
    iface_step hw skb_ok s (s\<lparr>i_timer := t, i_priv := p, i_mach := m\<rparr>)"
| Xmit: "i_ctl s = C_Idle \<Longrightarrow> i_up s \<Longrightarrow> \<not> nd_stopped (p_netdev (i_priv s)) \<Longrightarrow>
    ccat_eth_start_xmit hw skb (i_priv s) (i_mach s) = (r, p, m) \<Longrightarrow>
    iface_step hw skb_ok s (s\<lparr>i_priv := p, i_mach := m\<rparr>)"
| Device: "iface_step hw skb_ok s (s\<lparr>i_mach := m\<rparr>)"

definition iface0 :: "ccat_eth_priv \<Rightarrow> eth_kernel \<Rightarrow> 'h machine \<Rightarrow> 'h iface" where
  "iface0 p k m = \<lparr>i_timer = T_Idle, i_ctl = C_Idle, i_up = False, i_priv = p, i_kernel = k, i_mach = m\<rparr>"

section \<open>What the operations leave alone\<close>

text \<open>The DMA memory of both rings and whether the timer is started.\<close>

definition held :: "ccat_eth_priv \<Rightarrow> ccat_dma_mem \<times> ccat_dma_mem \<times> bool" where
  "held p = (f_dma_mem (p_rx_fifo p), f_dma_mem (p_tx_fifo p), p_timer p)"

lemma xmit_held: "ccat_eth_start_xmit hw skb p m = (r, p', m') \<Longrightarrow> held p' = held p"
  by (auto simp: ccat_eth_start_xmit_def start_xmit_def held_def ccat_eth_fifo_inc_def Let_def split: if_splits prod.splits)

lemma receive_held: "held (fst (ccat_eth_receive copy skb_ok len p m)) = held p"
  by (simp add: ccat_eth_receive_def held_def Let_def split: prod.split)

lemma poll_rx_loop_held: "held (fst (poll_rx_loop ready copy add skb_ok len n p m)) = held p"
proof (induction n arbitrary: len p m)
  case (Suc n)
  have "held (on_rx ccat_eth_fifo_inc p') = held p'" for p' by (simp add: held_def ccat_eth_fifo_inc_def Let_def)
  then show ?case using Suc receive_held [of copy skb_ok len p m] by (simp add: Let_def case_prod_beta)
qed simp

lemma poll_rx_held: "held (fst (poll_rx hw skb_ok p m)) = held p"
  by (simp add: poll_rx_def poll_rx_with_def poll_rx_loop_held Let_def split: prod.split)

lemma poll_tx_held: "held (fst (poll_tx hw p m)) = held p"
  by (simp add: poll_tx_def held_def Let_def split: prod.split)

lemma link_up_held:
  assumes "ccat_eth_link_up hw skb_ok p m = Inr (p', m')"
  shows "held p' = held p"
proof -
  obtain rx m1 where rx: "ccat_eth_fifo_reset (rx_add hw) hw (p_rx_fifo p) m = (rx, m1)" by fastforce
  obtain tx m2 where tx: "ccat_eth_fifo_reset tx_add hw (p_tx_fifo p) m1 = (tx, m2)" by fastforce
  note mem = reset_mem [of "rx_add hw" hw "p_rx_fifo p" m] reset_mem [of tx_add hw "p_tx_fifo p" m1]
  let ?p = "p\<lparr>p_rx_fifo := rx, p_tx_fifo := tx, p_netdev := snd (dev_alloc_skb skb_ok (length frameForwardEthernetFrames) (p_netdev p))\<rparr>"
  let ?skb = "\<lparr>skb_data = frameForwardEthernetFrames, skb_paged = []\<rparr>"
  obtain r p1 m3 where x: "ccat_eth_start_xmit hw ?skb ?p m2 = (r, p1, m3)" by (metis prod.collapse)
  have "p' = on_netdev netif_start_queue (on_netdev netif_carrier_on p1)"
    using assms rx tx x by (auto simp: ccat_eth_link_up_def ccat_eth_xmit_raw_def Let_def split: sum.splits prod.splits if_splits)
  then have "held p' = held p1" by (simp add: held_def)
  also have "\<dots> = held ?p" by (rule xmit_held [OF x])
  finally show ?thesis using mem rx tx by (simp add: held_def)
qed

lemma poll_link_held:
  assumes "poll_link hw skb_ok p m = Inr (p', m')"
  shows "held p' = held p"
proof -
  obtain link m1 where "ccat_eth_priv_read_link_state hw p m = (link, m1)" by fastforce
  from assms this show ?thesis
    using link_up_held [of hw skb_ok p m1 p' m'] by (cases rule: poll_link_cases) (simp_all add: ccat_eth_link_down_def held_def)
qed

lemma timer_move_held: "timer_move hw skb_ok (t, p, m) = Inr (t', p', m') \<Longrightarrow> held p' = held p"
  using poll_rx_held [of hw skb_ok p m] poll_tx_held [of hw p m]
  by (cases t) (auto dest: poll_link_held split: sum.splits)

section \<open>The invariant of an interface\<close>

text \<open>What is left of the kernel's resources when the rings' memory \<open>mem\<close> was given back.\<close>

definition removed :: "ccat_dma_mem \<times> ccat_dma_mem \<Rightarrow> eth_kernel \<Rightarrow> eth_kernel" where
  "removed mem k = free_netdev (snd (ccat_dma_free (snd mem) (snd (ccat_dma_free (fst mem) (unregister_netdev k)))))"

fun kernel_at :: "ctl_pc \<Rightarrow> ccat_dma_mem \<times> ccat_dma_mem \<Rightarrow> eth_kernel \<Rightarrow> eth_kernel" where
  "kernel_at C_Free mem k = unregister_netdev k"
| "kernel_at C_Gone mem k = removed mem k"
| "kernel_at _ mem k = k"

text \<open>A running callback belongs to a started timer, a started timer to an interface that is up, and an
  interface that is up is not being freed.\<close>

definition iface_inv :: "ccat_dma_mem \<times> ccat_dma_mem \<Rightarrow> eth_kernel \<Rightarrow> 'h iface \<Rightarrow> bool" where
  "iface_inv mem k s \<longleftrightarrow>
     (i_timer s \<noteq> T_Idle \<longrightarrow> p_timer (i_priv s)) \<and> (p_timer (i_priv s) \<longrightarrow> i_up s) \<and>
     (i_up s \<longrightarrow> i_ctl s \<noteq> C_Unregister \<and> i_ctl s \<noteq> C_Free \<and> i_ctl s \<noteq> C_Gone) \<and>
     (i_ctl s \<noteq> C_Gone \<longrightarrow> (f_dma_mem (p_rx_fifo (i_priv s)), f_dma_mem (p_tx_fifo (i_priv s))) = mem) \<and>
     i_kernel s = kernel_at (i_ctl s) mem k"

lemma iface_inv_held:
  assumes "iface_inv mem k s" and "held p = held (i_priv s)" and "t \<noteq> T_Idle \<longrightarrow> p_timer (i_priv s)"
  shows "iface_inv mem k (s\<lparr>i_timer := t, i_priv := p, i_mach := m\<rparr>)"
  using assms by (simp add: iface_inv_def held_def)

lemma iface_step_keeps:
  assumes "iface_step hw skb_ok s s'" and "iface_inv mem k s"
  shows "iface_inv mem k s'"
  using assms
proof (induction rule: iface_step.induct)
  case (Open s r p)
  then show ?case by (auto simp: iface_inv_def ccat_eth_open_def)
next
  case (Free s p k' m)
  then have "k' = snd (ccat_dma_free (snd mem) (snd (ccat_dma_free (fst mem) (unregister_netdev k))))"
    using priv_free_kernel [OF Free.hyps(2)] by (auto simp: iface_inv_def)
  moreover have "p_timer p = p_timer (i_priv s)"
    using Free.hyps(2) by (auto simp: ccat_eth_priv_free_def Let_def split: prod.splits)
  ultimately show ?case using Free by (auto simp: iface_inv_def removed_def)
next
  case (Timer s t p m)
  then show ?case using iface_inv_held [OF Timer.prems timer_move_held [OF Timer.hyps(2)]] by (auto simp: iface_inv_def)
next
  case (Xmit s skb r p m)
  then show ?case using iface_inv_held [OF Xmit.prems xmit_held [OF Xmit.hyps(4)], of "i_timer s" m] by (auto simp: iface_inv_def)
qed (auto simp: iface_inv_def)

lemma iface_reach_inv:
  assumes "(iface_step hw skb_ok)\<^sup>*\<^sup>* s s'" and "iface_inv mem k s"
  shows "iface_inv mem k s'"
  using assms by (induction rule: rtranclp_induct) (blast intro: iface_step_keeps)+

lemma gone_moves:
  assumes inv: "iface_inv mem k s" and "i_ctl s = C_Gone" and "iface_step hw skb_ok s s'"
  shows "s' = s\<lparr>i_mach := i_mach s'\<rparr>"
  using assms(3,2) inv by (cases rule: iface_step.cases) (auto simp: iface_inv_def)

lemma probe_timer_off:
  assumes "ccat_eth_dma_probe env hw pdev func k m = (0, Some p, k', m')"
  shows "\<not> p_timer p"
proof -
  obtain p0 k0 m0 p1 k1 m1 where a: "ccat_eth_alloc_netdev env hw func k m = (Some p0, k0, m0)"
    and i: "ccat_eth_priv_init_dma env hw pdev p0 k0 m0 = (0, p1, k1, m1)"
    and n: "ccat_eth_init_netdev env hw p1 k1 m1 = (0, Some p, k', m')"
    using dma_probe_steps [OF assms] .
  have "\<not> p_timer p0"
    using a by (auto simp: ccat_eth_alloc_netdev_def ccat_eth_priv_init_reg_def Let_def split: if_splits prod.splits)
  moreover have "p_timer p1 = p_timer p0" using i by (rule init_dma_steps) simp
  moreover have "p_timer p = p_timer p1"
    using n by (auto simp: ccat_eth_init_netdev_def register_netdev_def Let_def split: if_splits prod.splits)
  ultimately show ?thesis by simp
qed

lemma removed_resources:
  assumes "ccat_eth_dma_probe env hw pdev func k m = (0, Some p, k', m')"
  shows "eth_resources (removed (f_dma_mem (p_rx_fifo p), f_dma_mem (p_tx_fifo p)) k', m1) = eth_resources (k, m)"
proof -
  obtain base0 phys0 base1 phys1 where e: "ee_dma env (ek_dma_calls k) = (base0, phys0)"
    "ee_dma env (Suc (ek_dma_calls k)) = (base1, phys1)" by fastforce
  note r = dma_probe_resources [OF assms e]
  show ?thesis
    using r(3-7) by (simp add: removed_def r(1,2) ccat_dma_free_def dma_free_coherent_def unregister_netdev_def free_netdev_def eth_resources_def)
qed

lemma probe_holds_dma:
  assumes "ccat_eth_dma_probe env hw pdev func k m = (0, Some p, k', m')" and "d \<in> {f_dma_mem (p_rx_fifo p), f_dma_mem (p_tx_fifo p)}"
  shows "(dm_base d, dm_phys d, dm_size d) \<in> set (ek_dma k')"
proof -
  obtain base0 phys0 base1 phys1 where e: "ee_dma env (ek_dma_calls k) = (base0, phys0)"
    "ee_dma env (Suc (ek_dma_calls k)) = (base1, phys1)" by fastforce
  show ?thesis using dma_probe_resources [OF assms(1) e] assms(2) by auto
qed

section \<open>Properties\<close>

text \<open>The callback as a sequence of its three polls: run on its own, from being started to its return,
  it is \<open>poll_timer_callback\<close>, faults included.\<close>

theorem timer_callback_moves:
  "timer_moves hw skb_ok 5 (T_Idle, p, m) =
     (case poll_timer_callback hw skb_ok p m of Inl e \<Rightarrow> Inl e | Inr (p, m) \<Rightarrow> Inr (T_Idle, p, m))"
  by (auto simp: poll_timer_callback_def numeral_eq_Suc split: sum.split prod.split)

text \<open>C3: whatever happens to an interface between its probe and the end of its removal, in whatever order
  it is opened and stopped while the timer, the stack and the device go on: as long as the timer's
  callback runs or is due, or the stack may transmit, both DMA buffers of the rings are allocated and
  neither the unregistration nor the release has begun. After the removal only the device moves, and
  coherent memory, network devices and registrations are those from before the probe.\<close>

theorem iface_life:
  assumes probe: "ccat_eth_dma_probe env hw pdev func k m = (0, Some p, k', m')"
    and reach: "(iface_step hw skb_ok)\<^sup>*\<^sup>* (iface0 p k' m') s"
  shows "(i_timer s \<noteq> T_Idle \<or> p_timer (i_priv s) \<or> i_up s \<longrightarrow>
       i_ctl s \<notin> {C_Unregister, C_Free, C_Gone} \<and>
       (\<forall>d \<in> {f_dma_mem (p_rx_fifo (i_priv s)), f_dma_mem (p_tx_fifo (i_priv s))}.
          (dm_base d, dm_phys d, dm_size d) \<in> set (ek_dma (i_kernel s)))) \<and>
    (i_ctl s = C_Gone \<longrightarrow> (\<forall>s'. iface_step hw skb_ok s s' \<longrightarrow> s' = s\<lparr>i_mach := i_mach s'\<rparr>) \<and>
       ek_dma (i_kernel s) = ek_dma k \<and> ek_netdevs (i_kernel s) = ek_netdevs k \<and> ek_registered (i_kernel s) = ek_registered k)"
proof -
  let ?mem = "(f_dma_mem (p_rx_fifo p), f_dma_mem (p_tx_fifo p))"
  have "iface_inv ?mem k' (iface0 p k' m')" using probe_timer_off [OF probe] by (simp add: iface_inv_def iface0_def)
  then have inv: "iface_inv ?mem k' s" by (rule iface_reach_inv [OF reach])
  have "i_kernel s = k' \<and> (f_dma_mem (p_rx_fifo (i_priv s)), f_dma_mem (p_tx_fifo (i_priv s))) = ?mem"
    if "i_ctl s \<notin> {C_Unregister, C_Free, C_Gone}"
    using that inv by (cases "i_ctl s") (simp_all add: iface_inv_def)
  then show ?thesis
    using inv gone_moves [OF inv] removed_resources [OF probe, of m'] probe_holds_dma [OF probe]
    by (auto simp: iface_inv_def eth_resources_def)
qed

lemma eim_probe_fields:
  assumes "ccat_eth_eim_probe env hw func k m = (0, Some p, k', m')"
  shows "\<not> p_timer p" and "f_dma_mem (p_rx_fifo p) = zero_dma_mem" and "f_dma_mem (p_tx_fifo p) = zero_dma_mem"
    and "k' = k\<lparr>ek_netdevs := Suc (ek_netdevs k), ek_registered := Suc (ek_registered k)\<rparr>"
proof -
  obtain p0 k0 m0 where a: "ccat_eth_alloc_netdev env hw func k m = (Some p0, k0, m0)"
    using assms by (auto simp: ccat_eth_eim_probe_def split: prod.splits option.splits)
  obtain st p1 m1 where i: "ccat_eth_priv_init_eim hw p0 m0 = (st, p1, m1)" by (metis prod.collapse)
  note mem = init_eim_mem [OF i] and al = alloc_netdev_ok [OF a]
  have n: "ccat_eth_init_netdev env hw p1 k0 m1 = (0, Some p, k', m')" using assms a i mem(1) by (simp add: ccat_eth_eim_probe_def)
  have "\<not> p_timer p0"
    using a by (auto simp: ccat_eth_alloc_netdev_def ccat_eth_priv_init_reg_def Let_def split: if_splits prod.splits)
  moreover have "p_timer p1 = p_timer p0"
    using i by (auto simp: ccat_eth_priv_init_eim_def ccat_hw_disable_mac_filter_def Let_def split: prod.splits)
  moreover have "p_timer p = p_timer p1 \<and> p_rx_fifo p = p_rx_fifo p1 \<and> p_tx_fifo p = p_tx_fifo p1 \<and>
      k' = k0\<lparr>ek_registered := Suc (ek_registered k0)\<rparr>"
    using n by (auto simp: ccat_eth_init_netdev_def register_netdev_def Let_def split: if_splits prod.splits)
  ultimately show "\<not> p_timer p" "f_dma_mem (p_rx_fifo p) = zero_dma_mem" "f_dma_mem (p_tx_fifo p) = zero_dma_mem"
    "k' = k\<lparr>ek_netdevs := Suc (ek_netdevs k), ek_registered := Suc (ek_registered k)\<rparr>"
    using mem al by simp_all
qed

text \<open>C35: the life of an interface on EIM, where there is no coherent memory: while the timer's callback runs or is due, or the stack may
  transmit, the interface is registered and not being freed, and after the removal everything is as
  before the probe.\<close>

theorem eim_iface_life:
  assumes probe: "ccat_eth_eim_probe env hw func k m = (0, Some p, k', m')"
    and reach: "(iface_step hw skb_ok)\<^sup>*\<^sup>* (iface0 p k' m') s"
  shows "(i_timer s \<noteq> T_Idle \<or> p_timer (i_priv s) \<or> i_up s \<longrightarrow>
       i_ctl s \<notin> {C_Unregister, C_Free, C_Gone} \<and> ek_registered (i_kernel s) = Suc (ek_registered k)) \<and>
    (i_ctl s = C_Gone \<longrightarrow> (\<forall>s'. iface_step hw skb_ok s s' \<longrightarrow> s' = s\<lparr>i_mach := i_mach s'\<rparr>) \<and> i_kernel s = k)"
proof -
  note f = eim_probe_fields [OF probe]
  have "iface_inv (zero_dma_mem, zero_dma_mem) k' (iface0 p k' m')" using f(1-3) by (simp add: iface_inv_def iface0_def)
  then have inv: "iface_inv (zero_dma_mem, zero_dma_mem) k' s" by (rule iface_reach_inv [OF reach])
  have "removed (zero_dma_mem, zero_dma_mem) k' = k"
    by (simp add: removed_def f(4) ccat_dma_free_def zero_dma_mem_def unregister_netdev_def free_netdev_def)
  moreover have "i_kernel s = k'" if "i_ctl s \<notin> {C_Unregister, C_Free, C_Gone}"
    using that inv by (cases "i_ctl s") (simp_all add: iface_inv_def)
  ultimately show ?thesis using inv gone_moves [OF inv] f(4) by (auto simp: iface_inv_def)
qed

lemma removal_reach:
  assumes "i_ctl s = C_Unregister"
  shows "\<exists>s'. (iface_step hw skb_ok)\<^sup>*\<^sup>* s s' \<and> i_ctl s' = C_Gone \<and>
    ccat_eth_remove hw (Some (i_priv s)) (i_kernel s) (i_mach s) = Inr (i_kernel s', i_mach s')"
proof -
  let ?s1 = "s\<lparr>i_ctl := C_Free, i_kernel := unregister_netdev (i_kernel s)\<rparr>"
  obtain p k m where f: "ccat_eth_priv_free hw (i_priv ?s1) (i_kernel ?s1) (i_mach ?s1) = (p, k, m)" by (metis prod.collapse)
  have "iface_step hw skb_ok s ?s1" using assms by (rule iface_step.Unregister)
  moreover have "iface_step hw skb_ok ?s1 (?s1\<lparr>i_ctl := C_Gone, i_priv := p, i_kernel := free_netdev k, i_mach := m\<rparr>)"
    by (rule iface_step.Free [OF _ f]) simp
  ultimately have "(iface_step hw skb_ok)\<^sup>*\<^sup>* s (?s1\<lparr>i_ctl := C_Gone, i_priv := p, i_kernel := free_netdev k, i_mach := m\<rparr>)"
    by (meson r_into_rtranclp rtranclp_trans)
  then show ?thesis using f by (intro exI [of _ "?s1\<lparr>i_ctl := C_Gone, i_priv := p, i_kernel := free_netdev k, i_mach := m\<rparr>"])
      (simp add: ccat_eth_remove_def)
qed

lemma stop_reach:
  assumes "i_ctl s = C_Idle" and "i_up s" and "i_timer s = T_Idle"
  shows "(iface_step hw skb_ok)\<^sup>*\<^sup>* s (s\<lparr>i_ctl := if removing then C_Unregister else C_Idle, i_up := False, i_priv := snd (ccat_eth_stop (i_priv s))\<rparr>)"
proof -
  let ?s1 = "s\<lparr>i_ctl := C_Cancel removing, i_priv := on_netdev netif_stop_queue (i_priv s)\<rparr>"
  have "iface_step hw skb_ok s ?s1" using assms(1,2) by (rule iface_step.Stop)
  moreover have "iface_step hw skb_ok ?s1 (s\<lparr>i_ctl := if removing then C_Unregister else C_Idle, i_up := False, i_priv := snd (ccat_eth_stop (i_priv s))\<rparr>)"
    using iface_step.Cancel [of ?s1 removing hw skb_ok] assms(3) by (simp add: ccat_eth_stop_def)
  ultimately show ?thesis by (meson r_into_rtranclp rtranclp_trans)
qed

text \<open>With no callback under way the kernel's calls, taken apart into their accesses, are the functions
  of the driver: a stop leaves the private data \<open>ccat_eth_stop\<close> computes, and a removal the kernel and
  the machine of \<open>ccat_eth_remove\<close>.\<close>

theorem iface_calls_alone:
  assumes "i_ctl s = C_Idle" and "i_up s" and "i_timer s = T_Idle"
  shows "(\<exists>s'. (iface_step hw skb_ok)\<^sup>*\<^sup>* s s' \<and> i_ctl s' = C_Idle \<and> \<not> i_up s' \<and> i_priv s' = snd (ccat_eth_stop (i_priv s))) \<and>
    (\<exists>s'. (iface_step hw skb_ok)\<^sup>*\<^sup>* s s' \<and> i_ctl s' = C_Gone \<and>
       ccat_eth_remove hw (Some (snd (ccat_eth_stop (i_priv s)))) (i_kernel s) (i_mach s) = Inr (i_kernel s', i_mach s'))"
proof -
  let ?stop = "\<lambda>ctl. s\<lparr>i_ctl := ctl, i_up := False, i_priv := snd (ccat_eth_stop (i_priv s))\<rparr>"
  have r: "(iface_step hw skb_ok)\<^sup>*\<^sup>* s (?stop C_Idle)" "(iface_step hw skb_ok)\<^sup>*\<^sup>* s (?stop C_Unregister)"
    using stop_reach [OF assms, of hw skb_ok False] stop_reach [OF assms, of hw skb_ok True] by simp_all
  obtain s' where "(iface_step hw skb_ok)\<^sup>*\<^sup>* (?stop C_Unregister) s'" "i_ctl s' = C_Gone"
    "ccat_eth_remove hw (Some (snd (ccat_eth_stop (i_priv s)))) (i_kernel s) (i_mach s) = Inr (i_kernel s', i_mach s')"
    using removal_reach [of "?stop C_Unregister" hw skb_ok] by auto
  then have "\<exists>s'. (iface_step hw skb_ok)\<^sup>*\<^sup>* s s' \<and> i_ctl s' = C_Gone \<and>
       ccat_eth_remove hw (Some (snd (ccat_eth_stop (i_priv s)))) (i_kernel s) (i_mach s) = Inr (i_kernel s', i_mach s')"
    using rtranclp_trans [OF r(2)] by blast
  moreover have "i_ctl (?stop C_Idle) = C_Idle \<and> \<not> i_up (?stop C_Idle) \<and> i_priv (?stop C_Idle) = snd (ccat_eth_stop (i_priv s))" by simp
  ultimately show ?thesis using r(1) by blast
qed

text \<open>\<open>ccat_eth_stop\<close> stops the queue before it cancels the timer: a callback that is about to poll the
  transmit ring, with a slot free, wakes it again, and the interface is down with its queue awake.\<close>

theorem stop_race_wakes_queue:
  assumes "i_ctl s = C_Idle" and "i_up s" and "i_timer s = T_Tx"
    and "fst (tx_ready hw (reg_mac (p_reg (i_priv s))) (p_tx_fifo (i_priv s)) (i_mach s)) \<noteq> 0"
  shows "\<exists>s'. (iface_step hw skb_ok)\<^sup>*\<^sup>* s s' \<and> i_ctl s' = C_Idle \<and> \<not> i_up s' \<and> \<not> p_timer (i_priv s') \<and>
    i_timer s' = T_Idle \<and> \<not> nd_stopped (p_netdev (i_priv s'))"
proof -
  let ?p = "on_netdev netif_stop_queue (i_priv s)"
  let ?s1 = "s\<lparr>i_ctl := C_Cancel False, i_priv := ?p\<rparr>"
  obtain p m where poll: "poll_tx hw ?p (i_mach s) = (p, m)" by fastforce
  have awake: "\<not> nd_stopped (p_netdev p)"
    using poll assms(4) by (auto simp: poll_tx_def netdev_defs Let_def split: prod.splits)
  let ?s2 = "?s1\<lparr>i_timer := T_Forward, i_priv := p, i_mach := m\<rparr>"
  let ?s3 = "?s2\<lparr>i_timer := T_Idle, i_priv := p, i_mach := m\<rparr>"
  have "iface_step hw skb_ok s ?s1" using assms(1,2) by (rule iface_step.Stop)
  moreover have "iface_step hw skb_ok ?s1 ?s2" using assms(3) poll by (intro iface_step.Timer) simp_all
  moreover have "iface_step hw skb_ok ?s2 ?s3" by (intro iface_step.Timer) simp_all
  moreover have "iface_step hw skb_ok ?s3 (?s3\<lparr>i_ctl := C_Idle, i_up := False, i_priv := p\<lparr>p_timer := False\<rparr>\<rparr>)"
    using iface_step.Cancel [of ?s3 False hw skb_ok] by simp
  ultimately have "(iface_step hw skb_ok)\<^sup>*\<^sup>* s (?s3\<lparr>i_ctl := C_Idle, i_up := False, i_priv := p\<lparr>p_timer := False\<rparr>\<rparr>)"
    by (meson converse_rtranclp_into_rtranclp rtranclp.rtrancl_refl)
  then show ?thesis using awake by (intro exI [of _ "?s3\<lparr>i_ctl := C_Idle, i_up := False, i_priv := p\<lparr>p_timer := False\<rparr>\<rparr>"]) simp
qed

section \<open>Closed instances\<close>

text \<open>Opened, stopped and removed with no callback under way, an interface is gone.\<close>

lemma open_remove_reach:
  assumes "\<not> p_timer p"
  shows "\<exists>s. (iface_step hw skb_ok)\<^sup>*\<^sup>* (iface0 p k m) s \<and> i_ctl s = C_Gone"
proof -
  let ?s1 = "(iface0 p k m)\<lparr>i_up := True, i_priv := p\<lparr>p_timer := True\<rparr>\<rparr>"
  have up: "iface_step hw skb_ok (iface0 p k m) ?s1" by (rule iface_step.Open) (simp_all add: iface0_def ccat_eth_open_def)
  obtain s where s: "(iface_step hw skb_ok)\<^sup>*\<^sup>* ?s1 s" "i_ctl s = C_Gone"
    using iface_calls_alone [of ?s1 hw skb_ok] by (auto simp: iface0_def)
  then show ?thesis using converse_rtranclp_into_rtranclp [OF up s(1)] by blast
qed

theorem iface_life_witness:
  "\<exists>p k' m' s. ccat_eth_dma_probe probe_env0 rom_bus 1 eth_func0 probe_kernel0 machine1 = (0, Some p, k', m') \<and>
     (iface_step rom_bus (\<lambda>n k. True))\<^sup>*\<^sup>* (iface0 p k' m') s \<and> i_ctl s = C_Gone \<and> ek_dma (i_kernel s) = [] \<and> ek_netdevs (i_kernel s) = 0"
proof -
  obtain p k' m' where run: "ccat_eth_dma_probe probe_env0 rom_bus 1 eth_func0 probe_kernel0 machine1 = (0, Some p, k', m')"
    using probe0_succeeds by blast
  obtain s where s: "(iface_step rom_bus (\<lambda>n k. True))\<^sup>*\<^sup>* (iface0 p k' m') s" "i_ctl s = C_Gone"
    using open_remove_reach [OF probe_timer_off [OF run]] by blast
  from iface_life [OF run s(1)] s run show ?thesis by (intro exI [of _ p]) (auto simp: probe_kernel0_def)
qed

theorem eim_iface_life_witness:
  "\<exists>p k' m' s. ccat_eth_eim_probe probe_env0 rom_bus eth_func0 probe_kernel0 machine1 = (0, Some p, k', m') \<and>
     (iface_step rom_bus (\<lambda>n k. True))\<^sup>*\<^sup>* (iface0 p k' m') s \<and> i_ctl s = C_Gone \<and> i_kernel s = probe_kernel0"
proof -
  obtain p k' m' where run: "ccat_eth_eim_probe probe_env0 rom_bus eth_func0 probe_kernel0 machine1 = (0, Some p, k', m')"
    using eim_probe0_succeeds by blast
  obtain s where s: "(iface_step rom_bus (\<lambda>n k. True))\<^sup>*\<^sup>* (iface0 p k' m') s" "i_ctl s = C_Gone"
    using open_remove_reach [OF eim_probe_fields(1) [OF run]] by blast
  from eim_iface_life [OF run s(1)] s run show ?thesis by blast
qed

end
