(* ===== verification/Ccat_Reopen.thy ===== *)
theory Ccat_Reopen
  imports Ccat_Sram
begin

text \<open>
  Device files across unplugging: \<open>ccat_cdev_open\<close>, \<open>ccat_cdev_release\<close>, \<open>ccat_cdev_probe\<close> and
  \<open>ccat_cdev_remove\<close> of \<^verbatim>\<open>src/module.c\<close> on one slot of a class.

  The kernel's \<open>cdev_del\<close> only prevents further opens: a file that is open stays usable and its \<open>release\<close>
  runs later, on the slot that the class may meanwhile have given to another device. The steps below
  interleave the atomic accesses to the slot's counter with removing and probing devices.
\<close>

text \<open>\<open>fs_left\<close> is no variable of the program: it records how many processes were between their decrement
  and their increment when the slot was last given to a device.\<close>

record file_sys =
  fs_cls :: ccat_class
  fs_kernel :: kernel
  fs_pc :: "nat \<Rightarrow> open_pc"
  fs_left :: nat

definition fs_slot :: "nat \<Rightarrow> file_sys \<Rightarrow> ccat_cdev" where
  "fs_slot i s = cls_devices (fs_cls s) ! i"

definition fs_active :: "file_sys \<Rightarrow> nat set" where
  "fs_active s = {p. fs_pc s p \<noteq> Outside}"

definition fs_holder :: "file_sys \<Rightarrow> nat \<Rightarrow> bool" where
  "fs_holder s p \<longleftrightarrow> fs_pc s p = Allocating \<or> fs_pc s p = Inside"

text \<open>\<open>atomic_inc\<close>, which ends a refused open, an open without memory and the use of the file.\<close>

definition fs_leave :: "nat \<Rightarrow> nat \<Rightarrow> file_sys \<Rightarrow> file_sys" where
  "fs_leave i p s = s\<lparr>fs_cls := set_slot i (\<lambda>d. d\<lparr>cd_in_use := cd_in_use d + 1\<rparr>) (fs_cls s),
     fs_pc := (fs_pc s)(p := Outside)\<rparr>"

text \<open>\<open>atomic_dec_and_test\<close>.\<close>

definition fs_enter :: "nat \<Rightarrow> nat \<Rightarrow> file_sys \<Rightarrow> file_sys" where
  "fs_enter i p s = s\<lparr>fs_cls := set_slot i (\<lambda>d. d\<lparr>cd_in_use := cd_in_use d - 1\<rparr>) (fs_cls s),
     fs_pc := (fs_pc s)(p := if cd_in_use (fs_slot i s) - 1 = 0 then Allocating else Refused)\<rparr>"

inductive slot_step :: "nat \<Rightarrow> file_sys \<Rightarrow> file_sys \<Rightarrow> bool" for i :: nat where
  enter: "cd_dev (fs_slot i s) \<noteq> 0 \<Longrightarrow> fs_pc s p = Outside \<Longrightarrow> slot_step i s (fs_enter i p s)"
| opened: "fs_pc s p = Allocating \<Longrightarrow> slot_step i s (s\<lparr>fs_pc := (fs_pc s)(p := Inside)\<rparr>)"
| leave: "fs_pc s p \<noteq> Outside \<Longrightarrow> slot_step i s (fs_leave i p s)"
| unplug: "ccat_cdev_remove j (fs_cls s) (fs_kernel s) = Inr (c, k) \<Longrightarrow>
     slot_step i s (s\<lparr>fs_cls := c, fs_kernel := k\<rparr>)"
| plug: "ccat_cdev_probe env func n (fs_cls s) (fs_kernel s) = Inr (r, x, c, k) \<Longrightarrow>
     slot_step i s (s\<lparr>fs_cls := c, fs_kernel := k, fs_left := if x = Some i then card (fs_active s) else fs_left s\<rparr>)"

definition slot_init :: "nat \<Rightarrow> file_sys \<Rightarrow> bool" where
  "slot_init i s \<longleftrightarrow> i < length (cls_devices (fs_cls s)) \<and> cd_dev (fs_slot i s) = 0 \<and> fs_pc s = (\<lambda>_. Outside)"

definition fs_exclusive :: "file_sys \<Rightarrow> bool" where
  "fs_exclusive s \<longleftrightarrow> (\<forall>p q. fs_holder s p \<longrightarrow> fs_holder s q \<longrightarrow> p = q)"

text \<open>
  The counter of a slot that has a device is one, less the processes under way, plus those that were
  under way when the device came. If there were none, the file has at most one holder.
\<close>

definition slot_inv :: "nat \<Rightarrow> file_sys \<Rightarrow> bool" where
  "slot_inv i s \<longleftrightarrow> i < length (cls_devices (fs_cls s)) \<and> finite (fs_active s) \<and>
     (cd_dev (fs_slot i s) \<noteq> 0 \<longrightarrow>
        cd_in_use (fs_slot i s) = 1 - int (card (fs_active s)) + int (fs_left s) \<and>
        (fs_left s = 0 \<longrightarrow> fs_exclusive s))"

section \<open>The invariant\<close>

lemma set_slot_at:
  "i < length (cls_devices c) \<Longrightarrow>
   cls_devices (set_slot j f c) ! i = (if j = i then f (cls_devices c ! i) else cls_devices c ! i)"
  "length (cls_devices (set_slot j f c)) = length (cls_devices c)"
  by (simp_all add: set_slot_def)

lemma free_slot:
  assumes "free_ccat_cdev j c k = Inr (c', k')" and "i < length (cls_devices c)"
  shows "length (cls_devices c') = length (cls_devices c) \<and>
    (if j = i then cd_dev (cls_devices c' ! i) = 0 else cls_devices c' ! i = cls_devices c ! i)"
  using assms by (auto simp: free_ccat_cdev_def ccat_class_exit_def set_slot_at Let_def split: if_splits prod.splits)

lemma remove_slot:
  assumes "ccat_cdev_remove j c k = Inr (c', k')" and "i < length (cls_devices c)"
  shows "length (cls_devices c') = length (cls_devices c) \<and>
    (if j = i then cd_dev (cls_devices c' ! i) = 0 else cls_devices c' ! i = cls_devices c ! i)"
  using assms by (auto simp: ccat_cdev_remove_def Let_def dest: free_slot split: if_splits)

lemma probe_slot:
  assumes run: "ccat_cdev_probe env func n c k = Inr (r, x, c', k')" and i: "i < length (cls_devices c)"
  shows "length (cls_devices c') = length (cls_devices c) \<and>
    (if x = Some i then cd_in_use (cls_devices c' ! i) = 1
     else cls_devices c' ! i = cls_devices c ! i \<or> cd_dev (cls_devices c' ! i) = 0)"
proof -
  obtain r1 c1 k1 where init: "ccat_class_init env c k = (r1, c1, k1)" by (cases "ccat_class_init env c k")
  note f = ccat_class_init_frame(2) [OF init]
  show ?thesis
  proof (cases "first_free 0 (take (cls_count c1) (cls_devices c))")
    case None
    then show ?thesis using run by (auto simp: ccat_cdev_probe_def alloc_ccat_cdev_def init f split: sum.splits)
  next
    case (Some j)
    define c2 where "c2 = claim_slot j (func_base func) n c1"
    have c2: "length (cls_devices c2) = length (cls_devices c)"
      "cls_devices c2 ! i = (if j = i then (cls_devices c ! i)\<lparr>cd_dev := MKDEV (MAJOR (cls_dev c1)) (of_nat i),
         cd_ioaddr := func_base func, cd_iosize := n, cd_in_use := 1\<rparr> else cls_devices c ! i)"
      using i by (simp_all add: c2_def claim_slot_def set_slot_at f)
    have "j < length (cls_devices c)" using first_free_Some [OF Some] by simp
    then have slot: "set_slot j (\<lambda>d. d\<lparr>cd_ioaddr := func_base func, cd_iosize := n, cd_in_use := 1\<rparr>)
        (set_slot j (\<lambda>d. d\<lparr>cd_dev := MKDEV (MAJOR (cls_dev c1)) (of_nat j)\<rparr>) c1) = c2"
      by (simp add: c2_def claim_slot_def set_slot_def f)
    have run2: "(\<exists>b. free_ccat_cdev j c2 b = Inr (c', k') \<and> x = None) \<or>
        c' = set_slot j (\<lambda>d. d\<lparr>cd_class := True\<rparr>) c2 \<and> x = Some j"
      using run by (auto simp: ccat_cdev_probe_def alloc_ccat_cdev_def init f Some slot Let_def split: sum.splits if_splits)
    have i2: "i < length (cls_devices c2)" using i c2(1) by simp
    from run2 show ?thesis
    proof (elim disjE exE conjE)
      fix b assume "free_ccat_cdev j c2 b = Inr (c', k')" and "x = None"
      then show ?thesis using free_slot [OF _ i2] c2 by (fastforce split: if_splits)
    qed (simp add: set_slot_at(1) [OF i2] set_slot_at(2) c2)
  qed
qed

lemmas fs_defs = fs_slot_def fs_active_def fs_holder_def fs_leave_def fs_enter_def set_slot_at

lemma fs_enter_simps:
  assumes "i < length (cls_devices (fs_cls s))" and "fs_pc s p = Outside"
  shows "length (cls_devices (fs_cls (fs_enter i p s))) = length (cls_devices (fs_cls s))"
    and "fs_slot i (fs_enter i p s) = (fs_slot i s)\<lparr>cd_in_use := cd_in_use (fs_slot i s) - 1\<rparr>"
    and "fs_active (fs_enter i p s) = insert p (fs_active s)" and "fs_left (fs_enter i p s) = fs_left s"
    and "fs_holder (fs_enter i p s) q \<longleftrightarrow> fs_holder s q \<or> q = p \<and> cd_in_use (fs_slot i s) = 1"
  using assms by (auto simp: fs_defs set_slot_def)

lemma fs_leave_simps:
  assumes "i < length (cls_devices (fs_cls s))"
  shows "length (cls_devices (fs_cls (fs_leave i p s))) = length (cls_devices (fs_cls s))"
    and "fs_slot i (fs_leave i p s) = (fs_slot i s)\<lparr>cd_in_use := cd_in_use (fs_slot i s) + 1\<rparr>"
    and "fs_active (fs_leave i p s) = fs_active s - {p}" and "fs_left (fs_leave i p s) = fs_left s"
    and "fs_holder (fs_leave i p s) q \<longleftrightarrow> fs_holder s q \<and> q \<noteq> p"
  using assms by (auto simp: fs_defs set_slot_def)

lemma fs_exclusive_frame [simp]:
  "fs_exclusive (s\<lparr>fs_cls := c\<rparr>) = fs_exclusive s" "fs_exclusive (s\<lparr>fs_kernel := k\<rparr>) = fs_exclusive s"
  "fs_exclusive (s\<lparr>fs_left := n\<rparr>) = fs_exclusive s"
  by (simp_all add: fs_exclusive_def fs_holder_def)

lemma fs_exclusive_mono: "fs_exclusive s \<Longrightarrow> (\<And>p. fs_holder t p \<Longrightarrow> fs_holder s p) \<Longrightarrow> fs_exclusive t"
  by (auto simp: fs_exclusive_def)

lemma slot_inv_enter:
  assumes inv: "slot_inv i s" and dev: "cd_dev (fs_slot i s) \<noteq> 0" and p: "fs_pc s p = Outside"
  shows "slot_inv i (fs_enter i p s)"
proof -
  have i: "i < length (cls_devices (fs_cls s))" and fin: "finite (fs_active s)" using inv by (simp_all add: slot_inv_def)
  note e = fs_enter_simps [OF i p]
  have c: "card (insert p (fs_active s)) = Suc (card (fs_active s))" using fin p by (simp add: fs_active_def)
  have none: "\<not> fs_holder s q" if "fs_left s = 0" "cd_in_use (fs_slot i s) = 1" for q
    using inv dev that by (auto simp: slot_inv_def fs_active_def fs_holder_def)
  have "fs_exclusive (fs_enter i p s)" if "fs_left s = 0"
    using inv dev that none [OF that] by (auto simp: slot_inv_def fs_exclusive_def e)
  then show ?thesis using inv dev c by (simp add: slot_inv_def e)
qed

lemma slot_inv_leave:
  assumes inv: "slot_inv i s" and p: "fs_pc s p \<noteq> Outside"
  shows "slot_inv i (fs_leave i p s)"
proof -
  have i: "i < length (cls_devices (fs_cls s))" using inv by (simp add: slot_inv_def)
  note l = fs_leave_simps [OF i]
  have mem: "p \<in> fs_active s" using p by (simp add: fs_active_def)
  then have "0 < card (fs_active s)" using inv by (auto simp: slot_inv_def card_gt_0_iff)
  then have c: "int (card (fs_active s - {p})) = int (card (fs_active s)) - 1" using mem by simp
  have "fs_exclusive s \<Longrightarrow> fs_exclusive (fs_leave i p s)" by (erule fs_exclusive_mono) (simp add: l)
  then show ?thesis using inv c by (simp add: slot_inv_def l)
qed

lemma slot_step_inv: "slot_step i s t \<Longrightarrow> slot_inv i s \<Longrightarrow> slot_inv i t"
proof (induction rule: slot_step.induct)
  case (opened s p)
  let ?t = "s\<lparr>fs_pc := (fs_pc s)(p := Inside)\<rparr>"
  have "fs_active ?t = fs_active s" using opened.hyps by (auto simp: fs_active_def)
  moreover have "fs_exclusive ?t" if "fs_exclusive s"
    using that by (rule fs_exclusive_mono) (use opened.hyps in \<open>auto simp: fs_holder_def split: if_splits\<close>)
  ultimately show ?case using opened.prems by (simp add: slot_inv_def fs_slot_def)
next
  case (unplug j s c k)
  then show ?case using remove_slot [OF unplug.hyps, of i]
    by (auto simp: slot_inv_def fs_slot_def fs_active_def split: if_splits)
next
  case (plug env func n s r x c k)
  have "fs_exclusive s" if "fs_active s = {}"
    using that by (auto simp: fs_exclusive_def fs_active_def fs_holder_def)
  then show ?case using plug.prems probe_slot [OF plug.hyps, of i]
    by (auto simp: slot_inv_def fs_slot_def fs_active_def split: if_splits)
qed (auto intro: slot_inv_enter slot_inv_leave)

lemma slot_reach_inv: "(slot_step i)\<^sup>*\<^sup>* s t \<Longrightarrow> slot_init i s \<Longrightarrow> slot_inv i t"
proof (induction rule: rtranclp_induct)
  case base
  then show ?case by (simp add: slot_init_def slot_inv_def fs_active_def)
next
  case (step t u)
  then show ?case by (blast intro: slot_step_inv)
qed

section \<open>Unplugging under an open file\<close>

lemma first_free_cong: "map cd_dev ds = map cd_dev es \<Longrightarrow> first_free i ds = first_free i es"
proof (induction ds arbitrary: i es)
  case (Cons d ds)
  then show ?case by (cases es) auto
qed simp

lemma class_inv_counter:
  assumes "i < length (cls_devices c)" and "class_inv c k"
  shows "class_inv (set_slot i (\<lambda>d. d\<lparr>cd_in_use := f d\<rparr>) c) k"
proof -
  have "slots_used (set_slot i (\<lambda>d. d\<lparr>cd_in_use := f d\<rparr>) c) = slots_used c"
    using slots_used_set_slot [OF assms(1), of "\<lambda>d. d\<lparr>cd_in_use := f d\<rparr>"] by simp
  then show ?thesis using assms(2) by (auto simp: class_inv_def set_slot_at)
qed

lemmas slot_steps = converse_rtranclp_into_rtranclp [of "slot_step i" for i]

text \<open>A new device in a slot whose file one process still has open: two others get the file.\<close>

lemma orphan_two_holders:
  assumes i: "i < length (cls_devices (fs_cls s))" and dev: "cd_dev (fs_slot i s) \<noteq> 0" and n: "cd_in_use (fs_slot i s) = 1"
    and pc: "fs_pc s a = Inside" "fs_pc s p = Outside" "fs_pc s q = Outside" "a \<noteq> p" "a \<noteq> q" "p \<noteq> q"
  shows "\<exists>t. (slot_step i)\<^sup>*\<^sup>* s t \<and> fs_pc t = (fs_pc s)(a := Outside, p := Inside, q := Inside)"
proof -
  let ?s1 = "fs_enter i p s"
  let ?s2 = "?s1\<lparr>fs_pc := (fs_pc ?s1)(p := Inside)\<rparr>"
  let ?s3 = "fs_leave i a ?s2"
  let ?s4 = "fs_enter i q ?s3"
  let ?s5 = "?s4\<lparr>fs_pc := (fs_pc ?s4)(q := Inside)\<rparr>"
  note d = fs_defs set_slot_at
  have 1: "slot_step i s ?s1" using dev pc(2) by (rule slot_step.enter)
  have 2: "slot_step i ?s1 ?s2" by (rule slot_step.opened) (use n in \<open>simp add: d\<close>)
  have 3: "slot_step i ?s2 ?s3" by (rule slot_step.leave) (use pc in \<open>simp add: d\<close>)
  have 4: "slot_step i ?s3 ?s4" by (rule slot_step.enter) (use i dev pc in \<open>simp_all add: d\<close>)
  have 5: "slot_step i ?s4 ?s5" by (rule slot_step.opened) (use i n in \<open>simp add: d\<close>)
  have "(slot_step i)\<^sup>*\<^sup>* s ?s5" by (rule slot_steps [OF 1 slot_steps [OF 2 slot_steps [OF 3 slot_steps [OF 4 slot_steps [OF 5 rtranclp.rtrancl_refl]]]]])
  moreover have "fs_pc ?s5 = (fs_pc s)(a := Outside, p := Inside, q := Inside)" using pc by (auto simp: d)
  ultimately show ?thesis by blast
qed

lemma removed_first_free:
  assumes free: "first_free 0 (cls_devices c0) = Some i" and len: "length (cls_devices c) = length (cls_devices c0)"
    and others: "\<And>j. j \<noteq> i \<Longrightarrow> j < length (cls_devices c) \<Longrightarrow> cd_dev (cls_devices c ! j) = cd_dev (cls_devices c0 ! j)"
    and r: "ccat_cdev_remove i c k = Inr (c', k')"
  shows "first_free 0 (cls_devices c') = Some i"
proof -
  have i: "i < length (cls_devices c)" "cd_dev (cls_devices c0 ! i) = 0" using first_free_Some [OF free] len by simp_all
  have "map cd_dev (cls_devices c') = map cd_dev (cls_devices c0)"
  proof (intro nth_equalityI)
    show l: "length (map cd_dev (cls_devices c')) = length (map cd_dev (cls_devices c0))" using remove_slot [OF r i(1)] len by simp
    fix j assume "j < length (map cd_dev (cls_devices c'))"
    then have "j < length (cls_devices c)" "j < length (cls_devices c')" using l len by simp_all
    then show "map cd_dev (cls_devices c') ! j = map cd_dev (cls_devices c0) ! j"
      using remove_slot [OF r, of j] i(2) others [of j] len by (cases "j = i") simp_all
  qed
  then show ?thesis using free first_free_cong by metis
qed

text \<open>Opening the file of a device, removing the device and probing another one: the file is still open, on the
  slot that now describes the new device.\<close>

lemma replug_open_file:
  assumes inv: "class_inv (fs_cls s) (fs_kernel s)" and env: "kenv_grants env"
    and free: "first_free 0 (cls_devices (fs_cls s)) = Some i" and pc: "fs_pc s a = Outside"
  shows "\<exists>u t. (slot_step i)\<^sup>*\<^sup>* s u \<and> (slot_step i)\<^sup>*\<^sup>* u t \<and> fs_pc u = (fs_pc s)(a := Allocating) \<and>
    cd_ioaddr (fs_slot i u) = func_base func \<and> cd_iosize (fs_slot i u) = n \<and>
    fs_pc t = (fs_pc s)(a := Inside) \<and> i < length (cls_devices (fs_cls t)) \<and> cd_dev (fs_slot i t) \<noteq> 0 \<and>
    cd_in_use (fs_slot i t) = 1 \<and> cd_ioaddr (fs_slot i t) = func_base func' \<and> cd_iosize (fs_slot i t) = n'"
proof -
  note d = fs_defs set_slot_at
  have lt: "i < length (cls_devices (fs_cls s))" using first_free_Some [OF free] by simp
  obtain c k where p: "ccat_cdev_probe env func n (fs_cls s) (fs_kernel s) = Inr (0, Some i, c, k)"
    and one: "cd_in_use (cls_devices c ! i) = 1" and dev1: "cd_ioaddr (cls_devices c ! i) = func_base func" "cd_iosize (cls_devices c ! i) = n"
    and others: "\<forall>j. j \<noteq> i \<longrightarrow> cls_devices c ! j = cls_devices (fs_cls s) ! j"
    using probe_claims_slot [OF inv env free, of func n] by auto
  note c = probe_granted_inv [OF inv env free p]
  have ltc: "i < length (cls_devices c)" using c(1,2) by (simp add: class_inv_def)
  let ?s1 = "s\<lparr>fs_cls := c, fs_kernel := k, fs_left := if Some i = Some i then card (fs_active s) else fs_left s\<rparr>"
  let ?s2 = "fs_enter i a ?s1"
  let ?s3 = "?s2\<lparr>fs_pc := (fs_pc ?s2)(a := Inside)\<rparr>"
  have 1: "slot_step i s ?s1" using p by (rule slot_step.plug)
  have 2: "slot_step i ?s1 ?s2" by (rule slot_step.enter) (use c(3) pc in \<open>simp_all add: d\<close>)
  have 3: "slot_step i ?s2 ?s3" by (rule slot_step.opened) (use one in \<open>simp add: d\<close>)
  have inv3: "class_inv (fs_cls ?s3) (fs_kernel ?s3)" using class_inv_counter [OF ltc c(1)] by (simp add: fs_enter_def)
  have "i < cls_count (fs_cls ?s3)" "cd_dev (cls_devices (fs_cls ?s3) ! i) \<noteq> 0" using c(2,3) ltc by (simp_all add: d)
  from remove_inv [OF inv3 this] obtain c' k' where r: "ccat_cdev_remove i (fs_cls ?s3) (fs_kernel ?s3) = Inr (c', k')"
    and inv4: "class_inv c' k'" by blast
  let ?s4 = "?s3\<lparr>fs_cls := c', fs_kernel := k'\<rparr>"
  have 4: "slot_step i ?s3 ?s4" using r by (rule slot_step.unplug)
  have free': "first_free 0 (cls_devices c') = Some i"
    by (rule removed_first_free [OF free _ _ r]) (use ltc others probe_slot [OF p lt] in \<open>simp_all add: fs_enter_def set_slot_at\<close>)
  obtain c5 k5 where p': "ccat_cdev_probe env func' n' c' k' = Inr (0, Some i, c5, k5)" and dev5: "cd_in_use (cls_devices c5 ! i) = 1"
    "cd_ioaddr (cls_devices c5 ! i) = func_base func'" "cd_iosize (cls_devices c5 ! i) = n'"
    using probe_claims_slot [OF inv4 env free', of func' n'] by auto
  note c5 = probe_granted_inv [OF inv4 env free' p']
  let ?s5 = "?s4\<lparr>fs_cls := c5, fs_kernel := k5, fs_left := if Some i = Some i then card (fs_active ?s4) else fs_left ?s4\<rparr>"
  have 5: "slot_step i ?s4 ?s5" by (rule slot_step.plug) (use p' in simp)
  have "(slot_step i)\<^sup>*\<^sup>* s ?s2" by (rule slot_steps [OF 1 slot_steps [OF 2 rtranclp.rtrancl_refl]])
  moreover have "(slot_step i)\<^sup>*\<^sup>* ?s2 ?s5" by (rule slot_steps [OF 3 slot_steps [OF 4 slot_steps [OF 5 rtranclp.rtrancl_refl]]])
  moreover have "fs_pc ?s2 = (fs_pc s)(a := Allocating)" "cd_ioaddr (fs_slot i ?s2) = func_base func" "cd_iosize (fs_slot i ?s2) = n"
    using one dev1 ltc by (auto simp: d)
  moreover have "fs_pc ?s5 = (fs_pc s)(a := Inside)" by (auto simp: d)
  ultimately show ?thesis using c5 dev5 by (intro exI [of _ ?s2] exI [of _ ?s5]) (simp add: fs_slot_def class_inv_def)
qed

section \<open>Properties\<close>

text \<open>C18: device files across unplugging. However opens, uses and releases of a device file interleave with
  removing and probing devices of the class: if no process was under way when the slot was given to
  its present device, at most one process has the file; and once every process is out, the next
  open succeeds, or is refused as busy, according to whether none or some were under way then.\<close>

theorem cdev_open_across_replug:
  assumes "slot_init i s" and "(slot_step i)\<^sup>*\<^sup>* s t" and "cd_dev (fs_slot i t) \<noteq> 0"
  shows "(fs_left t = 0 \<longrightarrow> (\<forall>p q. fs_holder t p \<and> fs_holder t q \<longrightarrow> p = q)) \<and>
    ((\<forall>p. fs_pc t p = Outside) \<and> kz (16 + cd_iosize (fs_slot i t)) \<longrightarrow>
      fst (ccat_cdev_open kz (fs_slot i t)) = (if fs_left t = 0 then 0 else - EBUSY))"
proof -
  have inv: "slot_inv i t" using slot_reach_inv [OF assms(2,1)] .
  have "fst (ccat_cdev_open kz (fs_slot i t)) = (if fs_left t = 0 then 0 else - EBUSY)"
    if "\<forall>p. fs_pc t p = Outside" "kz (16 + cd_iosize (fs_slot i t))"
  proof -
    have "fs_active t = {}" using that(1) by (simp add: fs_active_def)
    then have "cd_in_use (fs_slot i t) = 1 + int (fs_left t)" using inv assms(3) by (simp add: slot_inv_def)
    then show ?thesis using that(2) by (simp add: ccat_cdev_open_def)
  qed
  moreover have "fs_exclusive t" if "fs_left t = 0" using inv assms(3) that by (simp add: slot_inv_def)
  ultimately show ?thesis unfolding fs_exclusive_def by blast
qed

text \<open>Removing a device whose file is open and probing one again gives the slot to the new device with
  its counter reset: from every state of a class with a free slot, two processes come to have the
  file of the new device at once.\<close>

theorem replug_breaks_exclusive:
  assumes "class_inv (fs_cls s) (fs_kernel s)" and "kenv_grants env"
    and "first_free 0 (cls_devices (fs_cls s)) = Some i" and "fs_pc s = (\<lambda>_. Outside)" and "p \<noteq> q"
  shows "\<exists>t. (slot_step i)\<^sup>*\<^sup>* s t \<and> fs_pc t p = Inside \<and> fs_pc t q = Inside \<and> (\<forall>a. a \<noteq> p \<and> a \<noteq> q \<longrightarrow> fs_pc t a = Outside)"
proof -
  obtain a where a: "a \<noteq> p" "a \<noteq> q" using infinite_UNIV_nat ex_new_if_finite [of "{p, q}"] by auto
  obtain u t where u: "(slot_step i)\<^sup>*\<^sup>* s u" and t: "(slot_step i)\<^sup>*\<^sup>* u t" "fs_pc t = (fs_pc s)(a := Inside)" "i < length (cls_devices (fs_cls t))"
    "cd_dev (fs_slot i t) \<noteq> 0" "cd_in_use (fs_slot i t) = 1"
    using replug_open_file [OF assms(1-3), of a func0 0 func0 0] assms(4) by auto
  obtain v where v: "(slot_step i)\<^sup>*\<^sup>* t v" "fs_pc v = (fs_pc t)(a := Outside, p := Inside, q := Inside)"
    using orphan_two_holders [OF t(3-5), of a p q] a assms(4,5) by (auto simp: t(2))
  have "(slot_step i)\<^sup>*\<^sup>* s v" using u t(1) v(1) by (meson rtranclp_trans)
  then show ?thesis using v(2) t(2) assms(4,5) a by (intro exI [of _ v]) (auto simp: fun_eq_iff)
qed

text \<open>A file that was opened on one device of the SRAM class reaches, after the device was replaced by a larger one, the new
  device, and its buffer is still that of the old one: reading all of the new device stores more bytes than the
  buffer that the open allocated has.\<close>

theorem replug_overruns_buffer:
  assumes "class_inv (fs_cls s) (fs_kernel s)" and "kenv_grants env" and "first_free 0 (cls_devices (fs_cls s)) = Some i"
    and "fs_pc s p = Outside" and "n < n'" and "kz (16 + n)"
  shows "\<exists>u t b d. (slot_step i)\<^sup>*\<^sup>* s u \<and> (slot_step i)\<^sup>*\<^sup>* u t \<and> fs_pc u p = Allocating \<and> fs_pc t p = Inside \<and>
    cd_ioaddr (fs_slot i t) = func_base func' \<and>
    ccat_cdev_open kz ((fs_slot i u)\<lparr>cd_in_use := 1\<rparr>) = (0, d, Some b) \<and>
    ccat_sram_read hw (\<lambda>_. 0) (fs_slot i t) n' 0 (b, h) = sram_read hw (\<lambda>_. 0) (fs_slot i t) n' 0 (b, h) \<and>
    length (buf_data b) < unat n'"
proof -
  obtain u t where ut: "(slot_step i)\<^sup>*\<^sup>* s u" "(slot_step i)\<^sup>*\<^sup>* u t" "fs_pc u = (fs_pc s)(p := Allocating)"
    "cd_iosize (fs_slot i u) = n" "fs_pc t = (fs_pc s)(p := Inside)" "cd_ioaddr (fs_slot i t) = func_base func'" "cd_iosize (fs_slot i t) = n'"
    using replug_open_file [OF assms(1-4), of func0 n func' n'] by blast
  let ?b = "\<lparr>buf_size = 0, buf_data = replicate (unat n) 0\<rparr>"
  have "ccat_cdev_open kz ((fs_slot i u)\<lparr>cd_in_use := 1\<rparr>) = (0, (fs_slot i u)\<lparr>cd_in_use := 0\<rparr>, Some ?b)"
    using assms(6) ut(4) by (simp add: ccat_cdev_open_def)
  moreover have "\<not> n' \<le> 0" using assms(5) by (simp add: not_le word_gt_0) (use word_not_simps(1) in fastforce)
  moreover have "unat n < unat n'" using assms(5) by (simp add: word_less_nat_alt)
  ultimately show ?thesis using ut by (intro exI [of _ u] exI [of _ t] exI [of _ ?b]) (simp add: ccat_sram_read_def)
qed

section \<open>Examples\<close>

definition files0 :: file_sys where
  "files0 = \<lparr>fs_cls = static_class ''ccat_sram'' 4, fs_kernel = kernel0, fs_pc = (\<lambda>_. Outside), fs_left = 0\<rparr>"

lemma files0_free: "first_free 0 (cls_devices (fs_cls files0)) = Some 0"
  by (simp add: files0_def static_class_def eval_nat_numeral)

theorem replug_breaks_exclusive_witness: "\<exists>t. (slot_step 0)\<^sup>*\<^sup>* files0 t \<and> fs_pc t 1 = Inside \<and> fs_pc t 2 = Inside"
proof -
  have "class_inv (fs_cls files0) (fs_kernel files0)" "fs_pc files0 = (\<lambda>_. Outside)" by (simp_all add: files0_def static_class0_inv)
  from replug_breaks_exclusive [OF this(1) kenv0_grants files0_free this(2), of 1 2] show ?thesis by auto
qed

theorem cdev_open_across_replug_witness:
  "\<exists>t. (slot_step 0)\<^sup>*\<^sup>* files0 t \<and> cd_dev (fs_slot 0 t) \<noteq> 0 \<and> fst (ccat_cdev_open (\<lambda>_. True) (fs_slot 0 t)) = 0"
proof -
  have inv: "class_inv (fs_cls files0) (fs_kernel files0)" by (simp add: files0_def static_class0_inv)
  obtain c k where p: "ccat_cdev_probe kenv0 func0 0 (fs_cls files0) (fs_kernel files0) = Inr (0, Some 0, c, k)"
    using probe_claims_slot [OF inv kenv0_grants files0_free, of func0 0] by auto
  let ?t = "files0\<lparr>fs_cls := c, fs_kernel := k, fs_left := if Some 0 = Some (0 :: nat) then card (fs_active files0) else fs_left files0\<rparr>"
  have init: "slot_init 0 files0" by (simp add: slot_init_def files0_def fs_slot_def static_class_def)
  have reach: "(slot_step 0)\<^sup>*\<^sup>* files0 ?t" using slot_step.plug [OF p] by blast
  have dev: "cd_dev (fs_slot 0 ?t) \<noteq> 0" using probe_granted_inv(3) [OF inv kenv0_grants files0_free p] by (simp add: fs_slot_def)
  have "fst (ccat_cdev_open (\<lambda>_. True) (fs_slot 0 ?t)) = 0"
    using cdev_open_across_replug [OF init reach dev, of "\<lambda>_. True"] by (simp add: files0_def fs_active_def)
  then show ?thesis using reach dev by blast
qed

end
