(* ===== verification/Ccat_Sram_File.thy ===== *)
theory Ccat_Sram_File
  imports Ccat_Sram
begin

text \<open>
  What a process sees of the SRAM: the system calls on its file (\<open>read\<close>, \<open>write\<close> and \<open>llseek\<close> of the file operations
  in \<^verbatim>\<open>src/sram.c\<close>) against an abstract file of fixed size, which has contents and a position and knows
  neither bus nor buffer nor machine integers.
\<close>

text \<open>A system call; the last argument of \<open>F_Read\<close> and \<open>F_Write\<close> is the number of bytes that the copy to or
  from the user's memory leaves out.\<close>

datatype syscall = F_Read u64 nat | F_Write "u8 list" nat | F_Seek u64 int

text \<open>\<open>fsl\<close> is the kernel's \<open>fixed_size_llseek\<close>: from position, offset, origin and size to the result and the new
  position, which stays inside the file.\<close>

type_synonym seek = "u64 \<Rightarrow> u64 \<Rightarrow> int \<Rightarrow> u64 \<Rightarrow> int \<times> u64"

definition seek_law :: "seek \<Rightarrow> bool" where
  "seek_law fsl \<longleftrightarrow> (\<forall>pos offset whence size. pos \<le> size \<longrightarrow> snd (fsl pos offset whence size) \<le> size)"

fun sram_call ::
  "'h mmio \<Rightarrow> seek \<Rightarrow> ccat_cdev \<Rightarrow> syscall \<Rightarrow> u64 \<times> cdev_buffer \<times> 'h \<Rightarrow> (int \<times> u8 list) \<times> u64 \<times> cdev_buffer \<times> 'h" where
  "sram_call hw fsl d (F_Read len n) (off, s) =
     (let (r, us, off, s) = ccat_sram_read hw (\<lambda>_. n) d len off s in ((r, us), off, s))"
| "sram_call hw fsl d (F_Write bs n) (off, s) =
     (let (r, off, s) = ccat_sram_write hw (\<lambda>_. n) d bs (of_nat (length bs)) off s in ((r, []), off, s))"
| "sram_call hw fsl d (F_Seek offset whence) (off, s) =
     (let (r, off) = ccat_cdev_llseek fsl off offset whence d in ((r, []), off, s))"

text \<open>The abstract file.\<close>

fun file_call :: "seek \<Rightarrow> syscall \<Rightarrow> u8 list \<times> nat \<Rightarrow> (int \<times> u8 list) \<times> u8 list \<times> nat" where
  "file_call fsl (F_Read len n) (c, pos) =
     (let bs = take (unat len) (drop pos c)
      in if min n (length bs) = 0 then ((int (length bs), bs), c, pos + length bs)
         else ((- EFAULT, take (length bs - n) bs), c, pos))"
| "file_call fsl (F_Write bs n) (c, pos) =
     (if length c < pos + length bs then ((0, []), c, pos)
      else if min n (length bs) = 0 then ((int (length bs), []), take pos c @ bs @ drop (pos + length bs) c, pos + length bs)
      else ((- EFAULT, []), c, pos))"
| "file_call fsl (F_Seek offset whence) (c, pos) =
     (let (r, p) = fsl (of_nat pos) offset whence (of_nat (length c)) in ((r, []), c, unat p))"

section \<open>Refinement\<close>

definition sram_file_inv :: "'h mmio \<Rightarrow> ('h \<Rightarrow> memory) \<Rightarrow> ccat_cdev \<Rightarrow> u64 \<times> cdev_buffer \<times> 'h \<Rightarrow> bool" where
  "sram_file_inv hw cells d x \<longleftrightarrow> sram_inv hw cells d (snd x) \<and> fst x \<le> cd_iosize d"

definition sram_abs :: "('h \<Rightarrow> memory) \<Rightarrow> ccat_cdev \<Rightarrow> u64 \<times> cdev_buffer \<times> 'h \<Rightarrow> u8 list \<times> nat" where
  "sram_abs cells d x = (sram_contents cells d (snd x), unat (fst x))"

lemma sram_contents_length [simp]: "length (sram_contents cells d s) = unat (cd_iosize d)"
  by (simp add: sram_contents_def)

lemma copy_to_user_const: "copy_to_user (\<lambda>_. n) bs = (min n (length bs), take (length bs - n) bs)"
  by (simp add: copy_to_user_def min_def)

lemma sram_write_file:
  assumes inv: "sram_inv hw cells d s" and pos: "off \<le> cd_iosize d" and len: "length bs < 2 ^ 63"
    and run: "ccat_sram_write hw (\<lambda>_. n) d bs (of_nat (length bs)) off s = (r, off', s')"
  shows "sram_inv hw cells d s' \<and> off' \<le> cd_iosize d \<and>
    file_call fsl (F_Write bs n) (sram_contents cells d s, unat off) = ((r, []), sram_contents cells d s', unat off')"
proof -
  have sz: "unat (cd_iosize d) < 2 ^ 31" using inv by (simp add: sram_inv_def)
  have l: "unat (of_nat (length bs) :: u64) = length bs" using len by (simp add: unat_of_nat)
  have p: "unat off \<le> unat (cd_iosize d)" using pos by (simp add: word_le_nat_alt)
  have sum: "unat (off + of_nat (length bs)) = unat off + length bs" using p sz len by (simp add: unat_word_ariths l)
  consider (big) "unat (cd_iosize d) < unat off + length bs" | (fault) "unat off + length bs \<le> unat (cd_iosize d)" "min n (length bs) \<noteq> 0"
    | (ok) "unat off + length bs \<le> unat (cd_iosize d)" "min n (length bs) = 0" by linarith
  then show ?thesis
  proof cases
    case big
    then show ?thesis using run inv pos sum by (auto simp: ccat_sram_write_def word_less_nat_alt Let_def split: prod.splits)
  next
    case fault
    then have "r = - EFAULT" "off' = off" "snd s' = snd s" "length (buf_data (fst s')) = length (buf_data (fst s))"
      using run sum l inv by (auto simp: ccat_sram_write_def copy_from_user_def word_less_nat_alt sram_inv_def buf_fill_def Let_def
        split: prod.splits if_splits)
    then show ?thesis using fault inv pos by (auto simp: sram_inv_def sram_contents_def)
  next
    case ok
    then have "n = 0 \<or> bs = []" by (auto simp: min_def split: if_splits)
    then have run0: "ccat_sram_write hw (\<lambda>_. 0) d bs (of_nat (length bs)) off s = (r, off', s')"
      using run by (auto simp: ccat_sram_write_def copy_from_user_def Let_def split: prod.splits)
    note w = sram_write_contents [OF inv l [symmetric] _ run0, unfolded l, OF ok(1)]
    show ?thesis using w ok by (simp add: word_le_nat_alt)
  qed
qed

text \<open>Buffers are smaller than half of the address space.\<close>

definition call_ok :: "syscall \<Rightarrow> bool" where
  "call_ok x \<longleftrightarrow> (case x of F_Write bs n \<Rightarrow> length bs < 2 ^ 63 | _ \<Rightarrow> True)"

lemma sram_call_refines:
  assumes law: "seek_law fsl" and inv: "sram_file_inv hw cells d x" and ok: "call_ok c" and run: "sram_call hw fsl d c x = (r, x')"
  shows "sram_file_inv hw cells d x' \<and> file_call fsl c (sram_abs cells d x) = (r, sram_abs cells d x')"
proof -
  obtain off s where x: "x = (off, s)" by (cases x)
  have si: "sram_inv hw cells d s" and pos: "off \<le> cd_iosize d" using inv by (simp_all add: sram_file_inv_def x)
  have p: "unat off \<le> unat (cd_iosize d)" using pos by (simp add: word_le_nat_alt)
  show ?thesis
  proof (cases c)
    case (F_Read len n)
    define bs where "bs = take (unat len) (drop (unat off) (sram_contents cells d s))"
    obtain off' s' where rd: "ccat_sram_read hw (\<lambda>_. n) d len off s =
        (if min n (length bs) = 0 then int (length bs) else - EFAULT, take (length bs - n) bs, off', s')"
      "unat off' = unat off + (if min n (length bs) = 0 then length bs else 0)"
      "sram_inv hw cells d s'" "sram_contents cells d s' = sram_contents cells d s"
      using sram_read_copy [OF si p, of "\<lambda>_. n" len, folded bs_def] unfolding copy_to_user_const fst_conv snd_conv by blast
    have "length bs \<le> unat (cd_iosize d) - unat off" by (simp add: bs_def)
    then have "off' \<le> cd_iosize d" using rd(2) p by (auto simp: word_le_nat_alt split: if_splits)
    moreover have "take (length bs - n) bs = bs" if "min n (length bs) = 0" using that by (auto simp: min_def split: if_splits)
    ultimately show ?thesis using run rd by (auto simp: F_Read x sram_file_inv_def sram_abs_def bs_def [symmetric] Let_def)
  next
    case (F_Write bs n)
    obtain r0 off' s' where w: "ccat_sram_write hw (\<lambda>_. n) d bs (of_nat (length bs)) off s = (r0, off', s')" by (metis prod.collapse)
    have "length bs < 2 ^ 63" using ok by (simp add: call_ok_def F_Write)
    from sram_write_file [OF si pos this w] run show ?thesis by (auto simp: F_Write x w sram_file_inv_def sram_abs_def)
  next
    case (F_Seek offset whence)
    then show ?thesis using run law pos si
      by (auto simp: x sram_file_inv_def sram_abs_def ccat_cdev_llseek_def seek_law_def split: prod.splits)
        (metis snd_conv)
  qed
qed

interpretation sram_calls: simulation "\<lambda>c x. Some (sram_call hw fsl d c x)" "file_call fsl" "sram_abs cells d"
    "\<lambda>x. sram_file_inv hw cells d x \<and> seek_law fsl" call_ok for hw fsl d cells
proof
  fix x c
  assume "sram_file_inv hw cells d x \<and> seek_law fsl" and "call_ok c"
  then show "\<exists>r x'. Some (sram_call hw fsl d c x) = Some (r, x') \<and> (sram_file_inv hw cells d x' \<and> seek_law fsl) \<and>
      file_call fsl c (sram_abs cells d x) = (r, sram_abs cells d x')"
    using sram_call_refines [of fsl hw cells d x c] by (metis prod.collapse)
qed

section \<open>Properties\<close>

text \<open>C6: the SRAM's file is a file. Whatever sequence of \<open>read\<close>, \<open>write\<close> and \<open>llseek\<close> calls a process makes, with
  any lengths and positions and whenever its memory cannot be accessed, the results and the bytes it receives are
  those of an abstract file of the device's size, and at the end the device's memory is that file's contents and the
  file position its position.\<close>

theorem sram_file_refines:
  assumes "sram_inv hw cells d s" and "off \<le> cd_iosize d" and "seek_law fsl" and "\<forall>c \<in> set cs. call_ok c"
  shows "\<exists>rs off' s'. run_calls (\<lambda>c x. Some (sram_call hw fsl d c x)) cs (off, s) = Some (rs, off', s') \<and>
    spec_calls (file_call fsl) cs (sram_contents cells d s, unat off) = (rs, sram_contents cells d s', unat off') \<and>
    sram_inv hw cells d s'"
  using sram_calls.run_refines [of hw cells d "(off, s)" fsl cs] assms
  by (auto simp: sram_file_inv_def sram_abs_def)

text \<open>Example: on the device of 16 bytes, write two bytes, fail to write a third from memory that cannot be read,
  go back to position 1 and read five bytes.\<close>

definition seek0 :: seek where
  "seek0 pos offset whence sz = (if whence = 0 \<and> offset \<le> sz then (uint offset, offset) else (-22, pos))"

definition calls0 :: "syscall list" where
  "calls0 = [F_Write [7, 8] 0, F_Write [9] 1, F_Seek 1 0, F_Seek 99 0, F_Read 5 0]"

theorem sram_file_refines_witness:
  "\<exists>rs off' s'. run_calls (\<lambda>c x. Some (sram_call ram_bus seek0 sram0 c x)) calls0 (3, sram_state0) = Some (rs, off', s') \<and>
     rs = [(2, []), (-14, []), (1, []), (-22, []), (5, [0x41, 0x42, 7, 8, 0x45])] \<and> unat off' = 6"
proof -
  have law: "seek_law seek0" by (simp add: seek_law_def seek0_def)
  have ok: "\<forall>c \<in> set calls0. call_ok c" by (simp add: calls0_def call_ok_def)
  have "(3 :: u64) \<le> cd_iosize sram0" by (simp add: sram0_def)
  from sram_file_refines [OF sram_state0_inv this law ok] show ?thesis
    by (auto simp: calls0_def seek0_def sram_contents_def sram0_def sram_state0_def mem_read_def upt_rec Let_def)
qed

end
