(* ===== verification/Ccat_Update_File.thy ===== *)
theory Ccat_Update_File
  imports Ccat_Flash
begin

text \<open>
  What a process sees of the configuration flash: a session on the Update file (\<open>read\<close>, \<open>write\<close> and \<open>release\<close> of the
  file operations in \<^verbatim>\<open>src/update.c\<close>) against an abstract flash. What is written is staged; closing the file replaces
  the whole flash by what was staged, if anything was. Reads and writes share one file position.
\<close>

text \<open>A system call; \<open>U_Read\<close> says which bytes of the user's buffer can be written, \<open>U_Write\<close> how many bytes cannot be
  copied from it.\<close>

datatype update_op = U_Read u64 "nat \<Rightarrow> bool" | U_Write "u8 list" nat

type_synonym 'h update_state = "u64 \<times> cdev_buffer \<times> 'h"

fun update_call ::
  "'h mmio \<Rightarrow> ccat_cdev \<Rightarrow> update_op \<Rightarrow> 'h update_state \<Rightarrow> ((int \<times> u8 option list) \<times> 'h update_state) option" where
  "update_call hw d (U_Read len uok) (off, buf, h) =
     (case ccat_update_read hw uok d len off h of None \<Rightarrow> None | Some (r, us, off, h) \<Rightarrow> Some ((r, us), off, buf, h))"
| "update_call hw d (U_Write bs n) (off, buf, h) =
     (case ccat_update_write (\<lambda>_. n) d bs (of_nat (length bs)) off buf of (r, off, buf) \<Rightarrow> Some ((r, []), off, buf, h))"

text \<open>The abstract flash: its contents, the staged bytes, how many of them count, and the position.\<close>

record flash_file =
  ff_flash :: "u8 list"
  ff_stage :: "u8 list"
  ff_size :: nat
  ff_pos :: nat

fun flash_call :: "update_op \<Rightarrow> flash_file \<Rightarrow> (int \<times> u8 option list) \<times> flash_file" where
  "flash_call (U_Read len uok) f =
     (let bs = take (unat len) (drop (ff_pos f) (ff_flash f))
      in ((int (length bs), map (\<lambda>k. if uok k then Some (bs ! k) else None) [0..<length bs]),
          f\<lparr>ff_pos := ff_pos f + length bs\<rparr>))"
| "flash_call (U_Write bs n) f =
     (let pos = ff_pos f; n = min n (length bs)
      in if length (ff_stage f) < pos + length bs then ((0, []), f)
         else
           let f = f\<lparr>ff_stage := take pos (ff_stage f) @ take (length bs - n) bs @ replicate n 0 @ drop (pos + length bs) (ff_stage f)\<rparr>
           in if n \<noteq> 0 then ((- EFAULT, []), f)
              else ((int (length bs), []), f\<lparr>ff_size := pos + length bs, ff_pos := pos + length bs\<rparr>))"

definition flash_close :: "flash_file \<Rightarrow> u8 list" where
  "flash_close f = (if 0 < ff_size f then take (ff_size f) (ff_stage f) @ replicate (length (ff_flash f) - ff_size f) 0xff
     else ff_flash f)"

section \<open>Refinement\<close>

definition update_file_inv :: "'h mmio \<Rightarrow> 'h epcs_view \<Rightarrow> ccat_cdev \<Rightarrow> 'h update_state \<Rightarrow> bool" where
  "update_file_inv hw V d x \<longleftrightarrow>
     (case x of (off, buf, h) \<Rightarrow> update_inv hw V d h \<and> unat off \<le> 0xE0000 \<and> length (buf_data buf) = 0xE0000 \<and> unat (buf_size buf) \<le> 0xE0000)"

definition update_abs :: "'h epcs_view \<Rightarrow> 'h update_state \<Rightarrow> flash_file" where
  "update_abs V x = (case x of (off, buf, h) \<Rightarrow>
     \<lparr>ff_flash = flash_bytes V h, ff_stage = buf_data buf, ff_size = unat (buf_size buf), ff_pos = unat off\<rparr>)"

definition update_call_ok :: "update_op \<Rightarrow> bool" where
  "update_call_ok c \<longleftrightarrow> (case c of U_Write bs n \<Rightarrow> length bs < 2 ^ 63 | _ \<Rightarrow> True)"

lemma flash_bytes_nth: "k < 0xE0000 \<Longrightarrow> flash_bytes V h ! k = ev_flash V h k"
  by (simp add: flash_bytes_def mem_read_def unat_flash_size)

lemma read_refines:
  assumes inv: "update_file_inv hw V d (off, buf, h)"
  shows "\<exists>r x. update_call hw d (U_Read len uok) (off, buf, h) = Some (r, x) \<and> update_file_inv hw V d x \<and>
    flash_call (U_Read len uok) (update_abs V (off, buf, h)) = (r, update_abs V x)"
proof -
  define n where "n = min (unat len) (0xE0000 - unat off)"
  have ui: "update_inv hw V d h" and off: "unat off \<le> 0xE0000" using inv by (simp_all add: update_file_inv_def)
  obtain h' off' where rd: "ccat_update_read hw uok d len off h =
      Some (int n, map (\<lambda>k. if uok k then Some (ev_flash V h (unat off + k)) else None) [0..<n], off', h')"
    "unat off' = unat off + n" "update_inv hw V d h'" "ev_flash V h' = ev_flash V h"
    using update_read_part [OF ui off, of uok len] unfolding n_def by blast
  let ?bs = "take (unat len) (drop (unat off) (flash_bytes V h))"
  have len: "length ?bs = n" by (simp add: n_def min.commute)
  have bs: "?bs ! k = ev_flash V h (unat off + k)" if "k < n" for k
  proof -
    have "k < unat len" "unat off + k < 0xE0000" using that unfolding n_def by linarith+
    then show ?thesis using off by (simp add: flash_bytes_nth)
  qed
  have same: "flash_bytes V h' = flash_bytes V h" by (simp add: flash_bytes_def rd(4))
  have "unat off + n \<le> 0xE0000" using off by (simp add: n_def)
  then show ?thesis
    using inv rd len bs same by (auto simp: update_file_inv_def update_abs_def Let_def)
qed

lemma write_refines:
  assumes inv: "update_file_inv hw V d (off, buf, h)" and small: "length bs < 2 ^ 63"
  shows "\<exists>r x. update_call hw d (U_Write bs n) (off, buf, h) = Some (r, x) \<and> update_file_inv hw V d x \<and>
    flash_call (U_Write bs n) (update_abs V (off, buf, h)) = (r, update_abs V x)"
proof -
  have sz: "unat (cd_iosize d) = 0xE0000" and off: "unat off \<le> 0xE0000" and bl: "length (buf_data buf) = 0xE0000"
    using inv by (simp_all add: update_file_inv_def update_inv_def unat_flash_size)
  have l: "unat (of_nat (length bs) :: u64) = length bs" using small by (simp add: unat_of_nat)
  have sum: "unat (off + of_nat (length bs)) = unat off + length bs" using off small by (simp add: unat_word_ariths l)
  have s: "sint (of_nat (length bs) :: u64) = int (length bs)" if "length bs \<le> 0xE0000" using that l by (simp add: sint_small)
  consider (big) "0xE0000 < unat off + length bs" | (fault) "unat off + length bs \<le> 0xE0000" "min n (length bs) \<noteq> 0"
    | (ok) "unat off + length bs \<le> 0xE0000" "min n (length bs) = 0" by linarith
  then show ?thesis
  proof cases
    case big
    then show ?thesis using inv sum sz bl by (simp add: ccat_update_write_def word_less_nat_alt update_abs_def)
  next
    case fault
    then show ?thesis using inv sum sz bl l
      by (simp add: ccat_update_write_def copy_from_user_def word_less_nat_alt update_abs_def update_file_inv_def Let_def)
  next
    case ok
    then show ?thesis using inv sum sz bl l s
      by (simp add: ccat_update_write_def copy_from_user_def word_less_nat_alt update_abs_def update_file_inv_def Let_def)
  qed
qed

interpretation update_calls: simulation "update_call hw d" flash_call "update_abs V" "update_file_inv hw V d" update_call_ok for hw d V
proof
  fix x c
  assume inv: "update_file_inv hw V d x" and ok: "update_call_ok c"
  obtain off buf h where x: "x = (off, buf, h)" by (cases x)
  show "\<exists>r x'. update_call hw d c x = Some (r, x') \<and> update_file_inv hw V d x' \<and> flash_call c (update_abs V x) = (r, update_abs V x')"
  proof (cases c)
    case (U_Read len uok)
    show ?thesis unfolding x U_Read by (rule read_refines [OF inv [unfolded x]])
  next
    case (U_Write bs n)
    then have "length bs < 2 ^ 63" using ok by (simp add: update_call_ok_def)
    then show ?thesis unfolding x U_Write by (rule write_refines [OF inv [unfolded x]])
  qed
qed

lemma close_refines:
  assumes "update_file_inv hw V d (off, buf, h)"
  shows "\<exists>h'. ccat_update_release hw d buf h = Some (0, d\<lparr>cd_in_use := cd_in_use d + 1\<rparr>, h') \<and> update_inv hw V d h' \<and>
    flash_bytes V h' = flash_close (update_abs V (off, buf, h))"
proof (cases "0 < buf_size buf")
  case True
  have ui: "update_inv hw V d h" and b: "length (buf_data buf) = 0xE0000" "unat (buf_size buf) \<le> 0xE0000"
    using assms by (simp_all add: update_file_inv_def)
  have law: "epcs_law hw V (cd_ioaddr d)" and idle: "ev_work V h = 0" using ui by (simp_all add: update_inv_def)
  obtain h' where r: "ccat_update_release hw d buf h = Some (fst (ccat_cdev_release d), snd (ccat_cdev_release d), h')"
    and fl: "ev_flash V h' = programmed (\<lambda>_. 0xff) 0 (take (unat (buf_size buf)) (buf_data buf))" "ev_work V h' = 0"
    using release_returns [OF law True b(2) _ idle] b by auto
  have "flash_bytes V h' = flash_close (update_abs V (off, buf, h))"
    using True b by (simp add: flash_bytes_def fl(1) mem_read_programmed unat_flash_size flash_close_def update_abs_def word_less_nat_alt)
  then show ?thesis using r fl(2) ui by (simp add: update_inv_def ccat_cdev_release_def)
next
  case False
  then show ?thesis using assms
    by (simp add: ccat_update_release_def ccat_cdev_release_def update_file_inv_def flash_close_def update_abs_def word_less_nat_alt)
qed

section \<open>Properties\<close>

text \<open>C7: a session on the configuration flash. Whatever sequence of \<open>read\<close> and \<open>write\<close> calls a process makes on the newly
  opened file, with any lengths and whenever its memory cannot be accessed, every call returns, closing the file
  returns and frees the device, the results and the bytes it receives are those of an abstract flash, and afterwards
  the flash holds what the abstract one holds.\<close>

theorem update_session_refines:
  assumes "update_inv hw V d h" and "length (buf_data buf) = unat CCAT_FLASH_SIZE" and "buf_size buf = 0"
    and "\<forall>c \<in> set cs. update_call_ok c"
  shows "\<exists>rs off' buf' h1 h2 f. run_calls (update_call hw d) cs (0, buf, h) = Some (rs, off', buf', h1) \<and>
    ccat_update_release hw d buf' h1 = Some (0, d\<lparr>cd_in_use := cd_in_use d + 1\<rparr>, h2) \<and> update_inv hw V d h2 \<and>
    spec_calls flash_call cs \<lparr>ff_flash = flash_bytes V h, ff_stage = buf_data buf, ff_size = 0, ff_pos = 0\<rparr> = (rs, f) \<and>
    flash_bytes V h2 = flash_close f"
proof -
  have "update_file_inv hw V d (0, buf, h)" using assms(1-3) by (simp add: update_file_inv_def unat_flash_size)
  from update_calls.run_refines [OF this assms(4)] obtain rs off' buf' h1 where
    run: "run_calls (update_call hw d) cs (0, buf, h) = Some (rs, off', buf', h1)" "update_file_inv hw V d (off', buf', h1)"
      "spec_calls flash_call cs (update_abs V (0, buf, h)) = (rs, update_abs V (off', buf', h1))" by auto
  from close_refines [OF run(2)] obtain h2 where "ccat_update_release hw d buf' h1 = Some (0, d\<lparr>cd_in_use := cd_in_use d + 1\<rparr>, h2)"
    "update_inv hw V d h2" "flash_bytes V h2 = flash_close (update_abs V (off', buf', h1))" by blast
  moreover have "update_abs V (0, buf, h) = \<lparr>ff_flash = flash_bytes V h, ff_stage = buf_data buf, ff_size = 0, ff_pos = 0\<rparr>"
    using assms(3) by (simp add: update_abs_def)
  ultimately show ?thesis using run by auto
qed

text \<open>Reads and writes share the position: a process that reads \<open>n\<close> bytes of the flash before it writes a
  configuration gets the configuration flashed at offset \<open>n\<close>, behind \<open>n\<close> zero bytes.\<close>

theorem update_read_shifts_write:
  assumes "update_inv hw V d h" and "unat n + length bs \<le> unat CCAT_FLASH_SIZE" and "0 < length bs"
  defines "buf \<equiv> \<lparr>buf_size = 0, buf_data = replicate (unat CCAT_FLASH_SIZE) 0\<rparr>"
  shows "\<exists>rs off' buf' h1 d' h2. run_calls (update_call hw d) [U_Read n (\<lambda>_. True), U_Write bs 0] (0, buf, h) = Some (rs, off', buf', h1) \<and>
    ccat_update_release hw d buf' h1 = Some (0, d', h2) \<and>
    flash_bytes V h2 = replicate (unat n) 0 @ bs @ replicate (unat CCAT_FLASH_SIZE - unat n - length bs) 0xff"
proof -
  let ?cs = "[U_Read n (\<lambda>_. True), U_Write bs 0]"
  have fit: "unat n + length bs \<le> 0xE0000" using assms(2) by (simp add: unat_flash_size)
  have "update_file_inv hw V d (0, buf, h)" using assms(1) by (simp add: update_file_inv_def buf_def unat_flash_size)
  moreover have "\<forall>c \<in> set ?cs. update_call_ok c" using fit by (simp add: update_call_ok_def)
  ultimately obtain rs off' buf' h1 where
    run: "run_calls (update_call hw d) ?cs (0, buf, h) = Some (rs, off', buf', h1)" "update_file_inv hw V d (off', buf', h1)"
      "spec_calls flash_call ?cs (update_abs V (0, buf, h)) = (rs, update_abs V (off', buf', h1))"
    using update_calls.run_refines [of hw V d "(0, buf, h)" ?cs] by auto
  obtain h2 where rel: "ccat_update_release hw d buf' h1 = Some (0, d\<lparr>cd_in_use := cd_in_use d + 1\<rparr>, h2)"
    and fl: "flash_bytes V h2 = flash_close (update_abs V (off', buf', h1))" using close_refines [OF run(2)] by blast
  have "update_abs V (off', buf', h1) = snd (spec_calls flash_call ?cs (update_abs V (0, buf, h)))" using run(3) by simp
  then have "flash_close (update_abs V (off', buf', h1)) = replicate (unat n) 0 @ bs @ replicate (unat CCAT_FLASH_SIZE - unat n - length bs) 0xff"
    using fit assms(3) by (simp add: update_abs_def buf_def unat_flash_size flash_close_def min_def Let_def)
  then show ?thesis using run(1) rel fl by auto
qed

theorem update_session_refines_witness:
  "\<exists>rs off' buf' h1 d' h2. run_calls (update_call (epcs_bus 0x100) update0) [U_Read 2 (\<lambda>_. True), U_Write [7, 8] 0] (0, update_buf0, epcs0) =
      Some (rs, off', buf', h1) \<and>
    ccat_update_release (epcs_bus 0x100) update0 buf' h1 = Some (0, d', h2) \<and> map fst rs = [2, 2] \<and>
    flash_bytes epcs_views h2 = replicate 2 0 @ [7, 8] @ replicate (0xE0000 - 4) 0xff"
proof -
  have "length (buf_data update_buf0) = unat CCAT_FLASH_SIZE" "buf_size update_buf0 = 0" by (simp_all add: update_buf0_def)
  moreover have "\<forall>c \<in> set [U_Read 2 (\<lambda>_. True), U_Write [7, 8] 0]. update_call_ok c" by (simp add: update_call_ok_def)
  moreover have "flash_close (snd (spec_calls flash_call [U_Read 2 (\<lambda>_. True), U_Write [7, 8] 0]
      \<lparr>ff_flash = flash_bytes epcs_views epcs0, ff_stage = buf_data update_buf0, ff_size = 0, ff_pos = 0\<rparr>)) =
      replicate 2 0 @ [7, 8] @ replicate (0xE0000 - 4) 0xff"
    by (simp add: flash_close_def update_buf0_def unat_flash_size min_def Let_def)
  moreover have "map fst (fst (spec_calls flash_call [U_Read 2 (\<lambda>_. True), U_Write [7, 8] 0]
      \<lparr>ff_flash = flash_bytes epcs_views epcs0, ff_stage = buf_data update_buf0, ff_size = 0, ff_pos = 0\<rparr>)) = [2, 2]"
    by (simp add: update_buf0_def unat_flash_size min_def Let_def)
  ultimately show ?thesis using update_session_refines [OF update0_inv, of update_buf0 "[U_Read 2 (\<lambda>_. True), U_Write [7, 8] 0]"]
    by (metis fst_conv snd_conv)
qed

end
