(* ===== verification/Ccat_Unittest.thy ===== *)
theory Ccat_Unittest
  imports Ccat_Netdev
begin

text \<open>
  The test programs of \<^verbatim>\<open>src/unittest\<close>. \<^verbatim>\<open>main.c\<close> is an EtherCAT application that exercises the network driver:
  it configures digital terminals, and on every tick of a timer receives the process data, compares
  a terminal's inputs with the outputs it wrote, counts persistent differences, and writes the next
  outputs. \<^verbatim>\<open>forward_frames.c\<close> and \<^verbatim>\<open>udp_burst.c\<close> inject one frame through libpcap, once and 1000 times.

  The EtherCAT master library (\<^verbatim>\<open>ecrt.h\<close>) and libpcap are not part of the repository: their functions
  are the fields of the parameters \<open>ecrt\<close> and \<open>pcap\<close>, on a state of their own. A pointer the library
  returns is an address, 0 the null pointer.
\<close>

section \<open>Configuration tables\<close>

datatype ec_direction = EC_DIR_INVALID | EC_DIR_OUTPUT | EC_DIR_INPUT

record ec_pdo_entry_info =
  pe_index :: u16
  pe_subindex :: u8
  pe_bits :: u8

text \<open>The array a PDO or a sync manager points into, from the element pointed to on.\<close>

record ec_pdo_info =
  pdo_index :: u16
  pdo_n :: nat
  pdo_entries :: "ec_pdo_entry_info list"

record ec_sync_info =
  sm_index :: u8
  sm_dir :: ec_direction
  sm_n :: nat
  sm_pdos :: "ec_pdo_info list"

definition channel :: "u16 \<Rightarrow> ec_pdo_entry_info" where
  "channel i = \<lparr>pe_index = i, pe_subindex = 1, pe_bits = 1\<rparr>"

definition el1004_channels :: "ec_pdo_entry_info list" where
  "el1004_channels = map channel [0x6000, 0x6010, 0x6020, 0x6030]"

definition el1004_pdos :: "ec_pdo_info list" where
  "el1004_pdos =
     [\<lparr>pdo_index = 0x1a00, pdo_n = 1, pdo_entries = drop 0 el1004_channels\<rparr>,
      \<lparr>pdo_index = 0x1a01, pdo_n = 1, pdo_entries = drop 1 el1004_channels\<rparr>,
      \<lparr>pdo_index = 0x1a02, pdo_n = 1, pdo_entries = drop 2 el1004_channels\<rparr>,
      \<lparr>pdo_index = 0x1a03, pdo_n = 1, pdo_entries = drop 3 el1004_channels\<rparr>]"

definition sync_end :: ec_sync_info where
  "sync_end = \<lparr>sm_index = 0xff, sm_dir = EC_DIR_INVALID, sm_n = 0, sm_pdos = []\<rparr>"

definition el1004_syncs :: "ec_sync_info list" where
  "el1004_syncs =
     [\<lparr>sm_index = 2, sm_dir = EC_DIR_OUTPUT, sm_n = 0, sm_pdos = []\<rparr>,
      \<lparr>sm_index = 3, sm_dir = EC_DIR_INPUT, sm_n = 4, sm_pdos = el1004_pdos\<rparr>, sync_end]"

definition el1008_channels :: "ec_pdo_entry_info list" where
  "el1008_channels = map channel [0x6000, 0x6010, 0x6020, 0x6030, 0x6040, 0x6050, 0x6060, 0x6070]"

definition el1008_pdos :: "ec_pdo_info list" where
  "el1008_pdos =
     [\<lparr>pdo_index = 0x1a00, pdo_n = 1, pdo_entries = drop 0 el1008_channels\<rparr>,
      \<lparr>pdo_index = 0x1a01, pdo_n = 1, pdo_entries = drop 1 el1008_channels\<rparr>,
      \<lparr>pdo_index = 0x1a02, pdo_n = 1, pdo_entries = drop 2 el1008_channels\<rparr>,
      \<lparr>pdo_index = 0x1a03, pdo_n = 1, pdo_entries = drop 3 el1008_channels\<rparr>,
      \<lparr>pdo_index = 0x1a04, pdo_n = 1, pdo_entries = drop 4 el1008_channels\<rparr>,
      \<lparr>pdo_index = 0x1a05, pdo_n = 1, pdo_entries = drop 5 el1008_channels\<rparr>,
      \<lparr>pdo_index = 0x1a06, pdo_n = 1, pdo_entries = drop 6 el1008_channels\<rparr>,
      \<lparr>pdo_index = 0x1a07, pdo_n = 1, pdo_entries = drop 7 el1008_channels\<rparr>]"

definition el1008_syncs :: "ec_sync_info list" where
  "el1008_syncs =
     [\<lparr>sm_index = 2, sm_dir = EC_DIR_OUTPUT, sm_n = 0, sm_pdos = []\<rparr>,
      \<lparr>sm_index = 3, sm_dir = EC_DIR_INPUT, sm_n = 8, sm_pdos = el1008_pdos\<rparr>, sync_end]"

definition el2004_channels :: "ec_pdo_entry_info list" where
  "el2004_channels = map channel [0x7000, 0x7010, 0x7020, 0x7030]"

definition el2004_pdos :: "ec_pdo_info list" where
  "el2004_pdos =
     [\<lparr>pdo_index = 0x1600, pdo_n = 1, pdo_entries = drop 0 el2004_channels\<rparr>,
      \<lparr>pdo_index = 0x1601, pdo_n = 1, pdo_entries = drop 1 el2004_channels\<rparr>,
      \<lparr>pdo_index = 0x1602, pdo_n = 1, pdo_entries = drop 2 el2004_channels\<rparr>,
      \<lparr>pdo_index = 0x1603, pdo_n = 1, pdo_entries = drop 3 el2004_channels\<rparr>]"

definition el2004_syncs :: "ec_sync_info list" where
  "el2004_syncs =
     [\<lparr>sm_index = 0, sm_dir = EC_DIR_OUTPUT, sm_n = 4, sm_pdos = el2004_pdos\<rparr>,
      \<lparr>sm_index = 1, sm_dir = EC_DIR_INPUT, sm_n = 0, sm_pdos = []\<rparr>, sync_end]"

definition el2008_channels :: "ec_pdo_entry_info list" where
  "el2008_channels = map channel [0x7000, 0x7010, 0x7020, 0x7030, 0x7040, 0x7050, 0x7060, 0x7070]"

definition el2008_pdos :: "ec_pdo_info list" where
  "el2008_pdos =
     [\<lparr>pdo_index = 0x1600, pdo_n = 1, pdo_entries = drop 0 el2008_channels\<rparr>,
      \<lparr>pdo_index = 0x1601, pdo_n = 1, pdo_entries = drop 1 el2008_channels\<rparr>,
      \<lparr>pdo_index = 0x1602, pdo_n = 1, pdo_entries = drop 2 el2008_channels\<rparr>,
      \<lparr>pdo_index = 0x1603, pdo_n = 1, pdo_entries = drop 3 el2008_channels\<rparr>,
      \<lparr>pdo_index = 0x1604, pdo_n = 1, pdo_entries = drop 4 el2008_channels\<rparr>,
      \<lparr>pdo_index = 0x1605, pdo_n = 1, pdo_entries = drop 5 el2008_channels\<rparr>,
      \<lparr>pdo_index = 0x1606, pdo_n = 1, pdo_entries = drop 6 el2008_channels\<rparr>,
      \<lparr>pdo_index = 0x1607, pdo_n = 1, pdo_entries = drop 7 el2008_channels\<rparr>]"

definition el2008_syncs :: "ec_sync_info list" where
  "el2008_syncs =
     [\<lparr>sm_index = 0, sm_dir = EC_DIR_OUTPUT, sm_n = 8, sm_pdos = el2008_pdos\<rparr>,
      \<lparr>sm_index = 1, sm_dir = EC_DIR_INPUT, sm_n = 0, sm_pdos = []\<rparr>, sync_end]"

text \<open>Index, vendor and product of the terminals \<open>main\<close> configures, and the bus coupler.\<close>

definition Beckhoff_EL1004 :: "u16 \<times> u32 \<times> u32" where "Beckhoff_EL1004 = (0x6000, 2, 0x03ec3052)"
definition Beckhoff_EL2004 :: "u16 \<times> u32 \<times> u32" where "Beckhoff_EL2004 = (0x7000, 2, 0x07d43052)"
definition Beckhoff_EK1100 :: "u32 \<times> u32" where "Beckhoff_EK1100 = (2, 0x04562c52)"
definition BusCouplerPos :: "u16 \<times> u16" where "BusCouplerPos = (0, 4)"

section \<open>The EtherCAT library\<close>

record ec_domain_state =
  working_counter :: u32
  wc_state :: nat

record ec_master_state =
  slaves_responding :: u32
  al_states :: u8
  link_up :: bool

record ec_slave_config_state =
  sc_al_state :: u8
  sc_online :: bool
  sc_operational :: bool

record 'm ecrt =
  ecrt_request_master :: "nat \<Rightarrow> 'm \<Rightarrow> addr \<times> 'm"
  ecrt_master_create_domain :: "addr \<Rightarrow> 'm \<Rightarrow> addr \<times> 'm"
  ecrt_master_slave_config :: "addr \<Rightarrow> u16 \<Rightarrow> u16 \<Rightarrow> u32 \<Rightarrow> u32 \<Rightarrow> 'm \<Rightarrow> addr \<times> 'm"
  ecrt_slave_config_pdos :: "addr \<Rightarrow> ec_sync_info list \<Rightarrow> 'm \<Rightarrow> int \<times> 'm"
  ecrt_slave_config_reg_pdo_entry :: "addr \<Rightarrow> u16 \<Rightarrow> u8 \<Rightarrow> addr \<Rightarrow> 'm \<Rightarrow> int \<times> 'm"
  ecrt_master_activate :: "addr \<Rightarrow> 'm \<Rightarrow> int \<times> 'm"
  ecrt_domain_data :: "addr \<Rightarrow> 'm \<Rightarrow> addr \<times> 'm"
  ecrt_master_receive :: "addr \<Rightarrow> 'm \<Rightarrow> 'm"
  ecrt_domain_process :: "addr \<Rightarrow> 'm \<Rightarrow> 'm"
  ecrt_domain_state :: "addr \<Rightarrow> 'm \<Rightarrow> ec_domain_state"
  ecrt_master_state :: "addr \<Rightarrow> 'm \<Rightarrow> ec_master_state"
  ecrt_slave_config_state :: "addr \<Rightarrow> 'm \<Rightarrow> ec_slave_config_state"
  ecrt_domain_queue :: "addr \<Rightarrow> 'm \<Rightarrow> 'm"
  ecrt_master_send :: "addr \<Rightarrow> 'm \<Rightarrow> 'm"
  EC_READ_U8 :: "addr \<Rightarrow> 'm \<Rightarrow> u8"
  EC_WRITE_U8 :: "addr \<Rightarrow> u8 \<Rightarrow> 'm \<Rightarrow> 'm"

section \<open>The application\<close>

datatype message =
    Domain_WC u32 | Domain_State nat | Slaves u32 | AL_States u8 | Link bool
  | AnaIn_State u8 | AnaIn_Online bool | AnaIn_Operational bool
  | No_Slave_Config | No_Pdos | No_Pdo_Entry | Slave_Configured u16

text \<open>The static variables, those of \<open>cyclic_task\<close> included, and the messages printed so far.\<close>

record app =
  master :: addr
  domain1 :: addr
  domain1_pd :: addr
  domain1_state :: ec_domain_state
  master_state :: ec_master_state
  sc_ana_in :: addr
  sc_ana_in_state :: ec_slave_config_state
  off_dig_in :: "u32 list"
  off_dig_out :: "u32 list"
  counter :: u32
  outputValue :: u8
  numAsyncCycles :: int
  error :: u8
  printed :: "message list"

definition app_init :: app where
  "app_init = \<lparr>master = 0, domain1 = 0, domain1_pd = 0,
     domain1_state = \<lparr>working_counter = 0, wc_state = 0\<rparr>,
     master_state = \<lparr>slaves_responding = 0, al_states = 0, link_up = False\<rparr>,
     sc_ana_in = 0, sc_ana_in_state = \<lparr>sc_al_state = 0, sc_online = False, sc_operational = False\<rparr>,
     off_dig_in = [0, 0], off_dig_out = [0, 0],
     counter = 10, outputValue = 0, numAsyncCycles = 0, error = 0, printed = []\<rparr>"

definition print :: "bool \<Rightarrow> message \<Rightarrow> app \<Rightarrow> app" where
  "print b msg s = (if b then s\<lparr>printed := printed s @ [msg]\<rparr> else s)"

definition check_domain1_state :: "'m ecrt \<Rightarrow> 'm \<Rightarrow> app \<Rightarrow> app" where
  "check_domain1_state ec m s =
     (let ds = ecrt_domain_state ec (domain1 s) m;
          s = print (working_counter ds \<noteq> working_counter (domain1_state s)) (Domain_WC (working_counter ds)) s;
          s = print (wc_state ds \<noteq> wc_state (domain1_state s)) (Domain_State (wc_state ds)) s
      in s\<lparr>domain1_state := ds\<rparr>)"

definition check_master_state :: "'m ecrt \<Rightarrow> 'm \<Rightarrow> app \<Rightarrow> app" where
  "check_master_state ec m s =
     (let ms = ecrt_master_state ec (master s) m;
          s = print (slaves_responding ms \<noteq> slaves_responding (master_state s)) (Slaves (slaves_responding ms)) s;
          s = print (al_states ms \<noteq> al_states (master_state s)) (AL_States (al_states ms)) s;
          s = print (link_up ms \<noteq> link_up (master_state s)) (Link (link_up ms)) s
      in s\<lparr>master_state := ms\<rparr>)"

text \<open>No caller is left: the call in \<open>cyclic_task\<close> is commented out.\<close>

definition check_slave_config_states :: "'m ecrt \<Rightarrow> 'm \<Rightarrow> app \<Rightarrow> app" where
  "check_slave_config_states ec m s =
     (let st = ecrt_slave_config_state ec (sc_ana_in s) m;
          s = print (sc_al_state st \<noteq> sc_al_state (sc_ana_in_state s)) (AnaIn_State (sc_al_state st)) s;
          s = print (sc_online st \<noteq> sc_online (sc_ana_in_state s)) (AnaIn_Online (sc_online st)) s;
          s = print (sc_operational st \<noteq> sc_operational (sc_ana_in_state s)) (AnaIn_Operational (sc_operational st)) s
      in s\<lparr>sc_ana_in_state := st\<rparr>)"

text \<open>
  \<open>numAsyncCycles\<close> is an \<open>int\<close>: incrementing its largest value is undefined.
\<close>

definition count_async :: "u8 \<Rightarrow> app \<Rightarrow> app exec" where
  "count_async inputValue s =
     (if inputValue \<noteq> outputValue s then
        (if numAsyncCycles s = 2 ^ 31 - 1 then Inl SignedOverflow
         else Inr (s\<lparr>numAsyncCycles := numAsyncCycles s + 1\<rparr>))
      else Inr (s\<lparr>numAsyncCycles := 0\<rparr>))"

definition cyclic_task :: "'m ecrt \<Rightarrow> app \<times> 'm \<Rightarrow> (app \<times> 'm) exec" where
  "cyclic_task ec sm =
     (let (s, m) = sm;
          m = ecrt_master_receive ec (master s) m;
          m = ecrt_domain_process ec (domain1 s) m;
          s = check_domain1_state ec m s;
          inputValue = EC_READ_U8 ec (domain1_pd s + unat (off_dig_in s ! 1)) m AND 0x0F
      in case count_async inputValue s of
           Inl e \<Rightarrow> Inl e
         | Inr s \<Rightarrow>
             let s = (if numAsyncCycles s > 2 \<and> error s \<noteq> 0xff then s\<lparr>error := error s + 1\<rparr> else s);
                 s = (if counter s \<noteq> 0 then s\<lparr>counter := counter s - 1\<rparr>
                      else check_master_state ec m (s\<lparr>counter := 5, outputValue := (outputValue s + 1) AND 0x0F\<rparr>));
                 m = EC_WRITE_U8 ec (domain1_pd s + unat (off_dig_out s ! 0)) (outputValue s) m;
                 m = EC_WRITE_U8 ec (domain1_pd s + unat (off_dig_out s ! 1)) (error s) m;
                 m = ecrt_domain_queue ec (domain1 s) m;
                 m = ecrt_master_send ec (master s) m
             in Inr (s, m))"

section \<open>Configuration and main loop\<close>

text \<open>\<open>*off\<close> keeps its value when the configuration fails before the entry is registered; a negative
  status of the registration is stored.\<close>

definition Init_EL100x ::
  "'m ecrt \<Rightarrow> u32 \<Rightarrow> u16 \<Rightarrow> u16 \<times> u32 \<times> u32 \<Rightarrow> ec_sync_info list \<Rightarrow> app \<times> 'm \<Rightarrow> int \<times> u32 \<times> app \<times> 'm" where
  "Init_EL100x ec off position ids syncs sm =
     (let (s, m) = sm; (index, vendor_id, product_code) = ids;
          (sc, m) = ecrt_master_slave_config ec (master s) 0 position vendor_id product_code m
      in if sc = 0 then (-1, off, print True No_Slave_Config s, m)
      else
        let (r, m) = ecrt_slave_config_pdos ec sc syncs m
        in if r \<noteq> 0 then (-1, off, print True No_Pdos s, m)
        else
          let (r, m) = ecrt_slave_config_reg_pdo_entry ec sc index 1 (domain1 s) m; off = of_int r
          in if r < 0 then (-1, off, print True No_Pdo_Entry s, m)
             else (0, off, print True (Slave_Configured position) s, m))"

text \<open>\<open>main\<close> up to the installation of the timer: the exit status if it gives up.\<close>

definition main_init :: "'m ecrt \<Rightarrow> 'm \<Rightarrow> (int + app \<times> 'm)" where
  "main_init ec m =
     (let s = app_init; (p, m) = ecrt_request_master ec 0 m; s = s\<lparr>master := p\<rparr>
      in if p = 0 then Inl (-1)
      else
        let (p, m) = ecrt_master_create_domain ec (master s) m; s = s\<lparr>domain1 := p\<rparr>
        in if p = 0 then Inl (-1)
        else
          let (r, o0, s, m) = Init_EL100x ec (off_dig_in s ! 0) 0 Beckhoff_EL1004 el1004_syncs (s, m);
              s = s\<lparr>off_dig_in := (off_dig_in s)[0 := o0]\<rparr>;
              (r, o1, s, m) = Init_EL100x ec (off_dig_in s ! 1) 1 Beckhoff_EL1004 el1004_syncs (s, m);
              s = s\<lparr>off_dig_in := (off_dig_in s)[1 := o1]\<rparr>;
              (r, o2, s, m) = Init_EL100x ec (off_dig_out s ! 0) 2 Beckhoff_EL2004 el2004_syncs (s, m);
              s = s\<lparr>off_dig_out := (off_dig_out s)[0 := o2]\<rparr>;
              (r, o3, s, m) = Init_EL100x ec (off_dig_out s ! 1) 3 Beckhoff_EL2004 el2004_syncs (s, m);
              s = s\<lparr>off_dig_out := (off_dig_out s)[1 := o3]\<rparr>;
              (sc, m) = ecrt_master_slave_config ec (master s) (fst BusCouplerPos) (snd BusCouplerPos)
                (fst Beckhoff_EK1100) (snd Beckhoff_EK1100) m
          in if sc = 0 then Inl (-1)
          else
            let (r, m) = ecrt_master_activate ec (master s) m
            in if r \<noteq> 0 then Inl (-1)
            else
              let (pd, m) = ecrt_domain_data ec (domain1 s) m; s = s\<lparr>domain1_pd := pd\<rparr>
              in if pd = 0 then Inl (-1) else Inr (s, m))"

section \<open>Signals\<close>

text \<open>
  The main loop and the signal handler as steps. The program is about to call \<open>pause\<close>, inside it,
  testing the inner loop's condition, or in the inner loop's body. A signal that arrives during
  \<open>pause\<close> ends it after the handler has run; at any other time it only runs the handler. The counts
  of the signals and the tasks so far are kept beside the program's two 32-bit counters, and the
  EtherCAT library may change its state at any time.
\<close>

datatype main_pc = About_To_Pause | Paused | Testing | In_Body

record 'm main_sys =
  mpc :: main_pc
  sig_alarms :: u32
  user_alarms :: u32
  app_state :: "app \<times> 'm"
  n_signals :: nat
  n_tasks :: nat

definition signal_handler :: "'m main_sys \<Rightarrow> 'm main_sys" where
  "signal_handler x = x\<lparr>sig_alarms := sig_alarms x + 1, n_signals := Suc (n_signals x)\<rparr>"

inductive main_step :: "'m ecrt \<Rightarrow> 'm main_sys \<Rightarrow> 'm main_sys \<Rightarrow> bool" for ec where
  Call_Pause: "mpc x = About_To_Pause \<Longrightarrow> main_step ec x (x\<lparr>mpc := Paused\<rparr>)"
| Wake: "mpc x = Paused \<Longrightarrow> main_step ec x ((signal_handler x)\<lparr>mpc := Testing\<rparr>)"
| Signal: "mpc x \<noteq> Paused \<Longrightarrow> main_step ec x (signal_handler x)"
| More: "mpc x = Testing \<Longrightarrow> sig_alarms x \<noteq> user_alarms x \<Longrightarrow> main_step ec x (x\<lparr>mpc := In_Body\<rparr>)"
| Done: "mpc x = Testing \<Longrightarrow> sig_alarms x = user_alarms x \<Longrightarrow> main_step ec x (x\<lparr>mpc := About_To_Pause\<rparr>)"
| Task: "mpc x = In_Body \<Longrightarrow> cyclic_task ec (app_state x) = Inr s \<Longrightarrow>
    main_step ec x (x\<lparr>mpc := Testing, app_state := s, user_alarms := user_alarms x + 1, n_tasks := Suc (n_tasks x)\<rparr>)"
| Library: "main_step ec x (x\<lparr>app_state := (fst (app_state x), m)\<rparr>)"

definition main_start :: "app \<times> 'm \<Rightarrow> 'm main_sys" where
  "main_start s = \<lparr>mpc = About_To_Pause, sig_alarms = 0, user_alarms = 0, app_state = s, n_signals = 0, n_tasks = 0\<rparr>"

text \<open>
  The rest of \<open>main\<close> before its loop; \<open>sigact\<close> is the status of installing the handler and \<open>setit\<close> that of
  starting the timer with the given interval and first expiry in microseconds.
\<close>

definition FREQUENCY :: nat where "FREQUENCY = 100"

definition main_prepare :: "'m ecrt \<Rightarrow> int \<Rightarrow> (nat \<Rightarrow> nat \<Rightarrow> int) \<Rightarrow> 'm \<Rightarrow> (int + 'm main_sys)" where
  "main_prepare ec sigact setit m =
     (case main_init ec m of
        Inl r \<Rightarrow> Inl r
      | Inr sm \<Rightarrow>
          if sigact \<noteq> 0 then Inl (-1)
          else if setit (1000000 div FREQUENCY) 1000 \<noteq> 0 then Inl 1
          else Inr (main_start sm))"

section \<open>The frame injectors\<close>

record 'p pcap =
  pcap_open_live :: "string \<Rightarrow> nat \<Rightarrow> 'p \<Rightarrow> addr \<times> string \<times> 'p"
  pcap_inject :: "addr \<Rightarrow> u8 list \<Rightarrow> 'p \<Rightarrow> int \<times> 'p"
  pcap_close :: "addr \<Rightarrow> 'p \<Rightarrow> 'p"

definition forward_frame :: "u8 list" where
  "forward_frame =
     [0x01, 0x01, 0x05, 0x01, 0x00, 0x00,
      0x00, 0x1b, 0x21, 0x36, 0x1b, 0xce,
      0x88, 0xa4, 0x0e, 0x10,
      0x08,
      0x00,
      0x00, 0x00,
      0x00, 0x01,
      0x02, 0x00,
      0x00, 0x00,
      0x00, 0x00,
      0x00, 0x00]"

definition burst_frame :: "u8 list" where
  "burst_frame =
     [0x01, 0x01, 0x05, 0x01, 0x00, 0x00,
      0x00, 0x1b, 0x21, 0x36, 0x1b, 0xce,
      0x88, 0xa4, 0x0e, 0x10,
      0x08,
      0x00,
      0x00, 0x00,
      0x00, 0x01,
      0x02, 0x00,
      0x00, 0x00,
      0x00, 0x00,
      0x00, 0x00]"

text \<open>The loop with \<open>n\<close> rounds left; \<open>failed\<close> counts the calls of \<open>pcap_perror\<close>.\<close>

fun inject_loop :: "'p pcap \<Rightarrow> addr \<Rightarrow> nat \<Rightarrow> nat \<Rightarrow> 'p \<Rightarrow> nat \<times> 'p" where
  "inject_loop lib h 0 failed p = (failed, p)"
| "inject_loop lib h (Suc n) failed p =
     (let (r, p) = pcap_inject lib h burst_frame p
      in inject_loop lib h n (if r = -1 then Suc failed else failed) p)"

definition forward_frames_main :: "'p pcap \<Rightarrow> 'p \<Rightarrow> int \<times> nat \<times> 'p" where
  "forward_frames_main lib p =
     (let (h, errbuf, p) = pcap_open_live lib ''eth2'' 96 p
      in if h = 0 then (1, 0, p)
         else let (r, p) = pcap_inject lib h forward_frame p
              in (0, if r = -1 then 1 else 0, pcap_close lib h p))"

definition udp_burst_main :: "'p pcap \<Rightarrow> 'p \<Rightarrow> int \<times> nat \<times> 'p" where
  "udp_burst_main lib p =
     (let (h, errbuf, p) = pcap_open_live lib ''eth2'' 96 p
      in if h = 0 then (1, 0, p)
         else let (failed, p) = inject_loop lib h 1000 0 p in (0, failed, pcap_close lib h p))"

section \<open>Tasks in sequence\<close>

text \<open>
  Cyclic tasks one after the other; before each the library state changes by the next function of
  the list. The first component says for each task, the latest first, whether the inputs differed
  from the outputs.
\<close>

definition task_input :: "'m ecrt \<Rightarrow> app \<times> 'm \<Rightarrow> u8" where
  "task_input ec sm =
     (let (s, m) = sm
      in EC_READ_U8 ec (domain1_pd s + unat (off_dig_in s ! 1))
           (ecrt_domain_process ec (domain1 s) (ecrt_master_receive ec (master s) m)) AND 0x0F)"

fun run_tasks :: "'m ecrt \<Rightarrow> ('m \<Rightarrow> 'm) list \<Rightarrow> bool list \<times> app \<times> 'm \<Rightarrow> (bool list \<times> app \<times> 'm) exec" where
  "run_tasks ec [] x = Inr x"
| "run_tasks ec (f # fs) x =
     (let (bs, s, m) = x; m = f m; b = task_input ec (s, m) \<noteq> outputValue s
      in case cyclic_task ec (s, m) of
           Inl e \<Rightarrow> Inl e
         | Inr sm \<Rightarrow> run_tasks ec fs (b # bs, sm))"

text \<open>How many of the tasks were at least the third in a row with a difference.\<close>

fun late_cycles :: "bool list \<Rightarrow> nat" where
  "late_cycles [] = 0"
| "late_cycles (b # bs) = late_cycles bs + (if 2 < length (takeWhile (\<lambda>x. x) (b # bs)) then 1 else 0)"

text \<open>The output after \<open>n\<close> tasks: the first change after 11 of them, then one every 6.\<close>

definition scheduled_output :: "nat \<Rightarrow> nat" where
  "scheduled_output n = (n - 5) div 6 mod 16"

definition scheduled_counter :: "nat \<Rightarrow> nat" where
  "scheduled_counter n = (if n < 11 then 10 - n else 5 - (n - 11) mod 6)"

definition app_inv :: "bool list \<Rightarrow> app \<Rightarrow> bool" where
  "app_inv bs s \<longleftrightarrow> numAsyncCycles s = int (length (takeWhile (\<lambda>x. x) bs)) \<and>
     unat (error s) = min 255 (late_cycles bs) \<and>
     unat (outputValue s) = scheduled_output (length bs) \<and> unat (counter s) = scheduled_counter (length bs)"


lemma scheduled_step:
  "scheduled_counter n = 0 \<Longrightarrow> scheduled_counter (Suc n) = 5 \<and> scheduled_output (Suc n) = (scheduled_output n + 1) mod 16"
  "scheduled_counter n \<noteq> 0 \<Longrightarrow>
    Suc (scheduled_counter (Suc n)) = scheduled_counter n \<and> scheduled_output (Suc n) = scheduled_output n"
proof -
  have "(scheduled_counter n = 0 \<longrightarrow> scheduled_counter (Suc n) = 5 \<and> scheduled_output (Suc n) = (scheduled_output n + 1) mod 16) \<and>
    (scheduled_counter n \<noteq> 0 \<longrightarrow> Suc (scheduled_counter (Suc n)) = scheduled_counter n \<and> scheduled_output (Suc n) = scheduled_output n)"
  proof (cases "n < 11")
    case True
    then have "n \<in> {0, 1, 2, 3, 4, 5, 6, 7, 8, 9, 10}" by (auto simp: less_Suc_eq numeral_eq_Suc)
    then show ?thesis by (auto simp: scheduled_counter_def scheduled_output_def)
  next
    case False
    define q r where "q = (n - 11) div 6" and "r = (n - 11) mod 6"
    have r: "r < 6" by (simp add: r_def)
    have n: "n = 11 + 6 * q + r" using False by (simp add: q_def r_def)
    have d: "(n - 5) div 6 = q + 1" by (rule div_nat_eqI) (use r n in auto)
    then have o0: "scheduled_output n = (q + 1) mod 16" by (simp only: scheduled_output_def)
    have c0: "scheduled_counter n = 5 - r" using r by (simp add: scheduled_counter_def n)
    show ?thesis
    proof (cases "r = 5")
      case True
      then have "Suc n = 11 + 6 * (q + 1) + 0" using n by simp
      then have "(Suc n - 5) div 6 = q + 2" by (intro div_nat_eqI) auto
      then have "scheduled_output (Suc n) = (q + 2) mod 16" by (simp only: scheduled_output_def)
      moreover have "scheduled_counter (Suc n) = 5" using \<open>Suc n = 11 + 6 * (q + 1) + 0\<close> by (simp add: scheduled_counter_def)
      ultimately have "scheduled_output (Suc n) = (q + 2) mod 16" "scheduled_counter (Suc n) = 5" by simp_all
      then show ?thesis using o0 c0 True by (simp add: mod_Suc_eq)
    next
      case False
      then have "(Suc n - 5) div 6 = q + 1" using r n by (intro div_nat_eqI) auto
      then have "scheduled_output (Suc n) = (q + 1) mod 16" by (simp only: scheduled_output_def)
      moreover have "scheduled_counter (Suc n) = 5 - Suc r" using r False by (simp add: n scheduled_counter_def mod_Suc)
      ultimately have "scheduled_output (Suc n) = (q + 1) mod 16" "scheduled_counter (Suc n) = 5 - Suc r" by simp_all
      then show ?thesis using o0 c0 False r by simp
    qed
  qed
  then show "scheduled_counter n = 0 \<Longrightarrow> scheduled_counter (Suc n) = 5 \<and> scheduled_output (Suc n) = (scheduled_output n + 1) mod 16"
    "scheduled_counter n \<noteq> 0 \<Longrightarrow>
      Suc (scheduled_counter (Suc n)) = scheduled_counter n \<and> scheduled_output (Suc n) = scheduled_output n" by blast+
qed

lemma check_states_frame [simp]:
  "numAsyncCycles (check_domain1_state ec m s) = numAsyncCycles s" "error (check_domain1_state ec m s) = error s"
  "counter (check_domain1_state ec m s) = counter s" "outputValue (check_domain1_state ec m s) = outputValue s"
  "domain1_pd (check_domain1_state ec m s) = domain1_pd s" "off_dig_in (check_domain1_state ec m s) = off_dig_in s"
  "numAsyncCycles (check_master_state ec m s) = numAsyncCycles s" "error (check_master_state ec m s) = error s"
  "counter (check_master_state ec m s) = counter s" "outputValue (check_master_state ec m s) = outputValue s"
  by (simp_all add: check_domain1_state_def check_master_state_def print_def Let_def)

lemma next_output: "unat ((v + 1 :: u8) AND 0x0F) = (unat v + 1) mod 16"
proof -
  have "(v + 1) AND 0x0F = take_bit 4 (v + 1)" by (simp add: take_bit_eq_mask mask_eq_exp_minus_1)
  then have "unat ((v + 1) AND 0x0F) = unat (v + 1) mod 16" by (simp add: take_bit_eq_mod unat_mod)
  also have "\<dots> = (unat v + 1) mod 16" by (simp add: unat_word_ariths mod_mod_cancel)
  finally show ?thesis .
qed

text \<open>One task: no overflow before 2^31 tasks, and the counters follow the history.\<close>

lemma cyclic_task_inv:
  assumes inv: "app_inv bs s" and len: "length bs < 2 ^ 31 - 1"
  shows "\<exists>s' m'. cyclic_task ec (s, m) = Inr (s', m') \<and> app_inv ((task_input ec (s, m) \<noteq> outputValue s) # bs) s'"
proof -
  let ?b = "task_input ec (s, m) \<noteq> outputValue s" and ?m = "ecrt_domain_process ec (domain1 s) (ecrt_master_receive ec (master s) m)"
  let ?s0 = "check_domain1_state ec ?m s"
  have "length (takeWhile (\<lambda>x. x) bs) \<le> length bs" by (rule length_takeWhile_le)
  then have small: "numAsyncCycles s \<noteq> 2 ^ 31 - 1" using inv len by (simp add: app_inv_def)
  define s1 where "s1 = ?s0\<lparr>numAsyncCycles := if ?b then numAsyncCycles s + 1 else 0\<rparr>"
  have c: "count_async (task_input ec (s, m)) ?s0 = Inr s1" using small by (auto simp: count_async_def s1_def)
  define s2 where "s2 = (if numAsyncCycles s1 > 2 \<and> error s1 \<noteq> 0xff then s1\<lparr>error := error s1 + 1\<rparr> else s1)"
  define s3 where "s3 = (if counter s2 \<noteq> 0 then s2\<lparr>counter := counter s2 - 1\<rparr>
      else check_master_state ec ?m (s2\<lparr>counter := 5, outputValue := (outputValue s2 + 1) AND 0x0F\<rparr>))"
  have run: "\<exists>m'. cyclic_task ec (s, m) = Inr (s3, m')"
    using c by (simp add: cyclic_task_def task_input_def Let_def s3_def s2_def)
  have async: "numAsyncCycles s3 = int (length (takeWhile (\<lambda>x. x) (?b # bs)))"
    using inv by (simp add: s3_def s2_def s1_def app_inv_def)
  have err1: "error s1 = error s" by (simp add: s1_def)
  have "unat (error s3) = (if 2 < length (takeWhile (\<lambda>x. x) (?b # bs)) \<and> unat (error s) \<noteq> 255 then unat (error s) + 1 else unat (error s))"
  proof -
    have e: "e = 0xff \<longleftrightarrow> unat e = 255" for e :: u8 by (simp add: word_unat_eq_iff)
    have "unat (e + 1) = unat e + 1" if "unat e \<noteq> 255" for e :: u8
      using that unat_u8_less [of e] by (simp add: unat_word_ariths)
    then show ?thesis using inv unfolding s3_def s2_def s1_def app_inv_def e by simp
  qed
  then have err: "unat (error s3) = min 255 (late_cycles (?b # bs))" using inv by (auto simp: app_inv_def)
  have cnt: "counter s2 = counter s" "outputValue s2 = outputValue s" by (simp_all add: s2_def s1_def)
  have "unat (outputValue s3) = scheduled_output (Suc (length bs)) \<and> unat (counter s3) = scheduled_counter (Suc (length bs))"
  proof (cases "counter s = 0")
    case True
    then have "scheduled_counter (length bs) = 0" using inv by (simp add: app_inv_def)
    then show ?thesis using True cnt inv scheduled_step(1) [of "length bs"] by (simp add: s3_def app_inv_def next_output)
  next
    case False
    then have "unat (counter s) \<noteq> 0" by (simp only: unsigned_eq_0_iff not_False_eq_True)
    then have nz: "scheduled_counter (length bs) \<noteq> 0" using inv unfolding app_inv_def by simp
    have "unat (counter s - 1) = unat (counter s) - 1" using False by (simp add: unat_minus_one)
    moreover have "scheduled_counter (Suc (length bs)) = scheduled_counter (length bs) - 1"
      using scheduled_step(2) [OF nz] by linarith
    ultimately show ?thesis using False cnt inv scheduled_step(2) [OF nz] by (simp add: s3_def app_inv_def)
  qed
  then show ?thesis using run async err by (auto simp: app_inv_def)
qed

lemma run_tasks_inv:
  assumes "app_inv bs s" and "length bs + length fs < 2 ^ 31"
  shows "\<exists>bs' s' m'. run_tasks ec fs (bs, s, m) = Inr (bs', s', m') \<and> length bs' = length bs + length fs \<and> app_inv bs' s'"
  using assms
proof (induction fs arbitrary: bs s m)
  case (Cons f fs)
  have "length bs < 2 ^ 31 - 1" using Cons.prems(2) by simp
  from cyclic_task_inv [OF Cons.prems(1) this, of ec "f m"] obtain s1 m1 where
    t: "cyclic_task ec (s, f m) = Inr (s1, m1)" "app_inv ((task_input ec (s, f m) \<noteq> outputValue s) # bs) s1" by blast
  from Cons.IH [OF t(2), of m1] Cons.prems(2) t(1) show ?case by (simp add: Let_def)
qed simp

lemma init_frame:
  assumes "Init_EL100x ec off pos ids syncs (s, m) = (r, off', s', m')"
  shows "app_inv [] s' = app_inv [] s"
  using assms by (auto simp: Init_EL100x_def print_def app_inv_def Let_def split: prod.splits if_splits)

lemma app_inv_offsets [simp]:
  "app_inv bs (s\<lparr>off_dig_in := xs\<rparr>) = app_inv bs s" "app_inv bs (s\<lparr>off_dig_out := xs\<rparr>) = app_inv bs s"
  "app_inv bs (s\<lparr>domain1_pd := p\<rparr>) = app_inv bs s"
  by (simp_all add: app_inv_def)

lemma main_init_inv:
  assumes "main_init ec m = Inr (s, m')"
  shows "app_inv [] s"
proof -
  have start: "app_inv [] (app_init\<lparr>master := p, domain1 := q\<rparr>)" for p q
    by (simp add: app_inv_def app_init_def scheduled_output_def scheduled_counter_def)
  show ?thesis
    using assms unfolding main_init_def Let_def
    by (auto simp: start dest!: init_frame split: prod.splits if_splits)
qed

section \<open>Alarms\<close>

definition alarms_inv :: "'m main_sys \<Rightarrow> bool" where
  "alarms_inv x \<longleftrightarrow> sig_alarms x = of_nat (n_signals x) \<and> user_alarms x = of_nat (n_tasks x) \<and>
     (n_signals x < 2 ^ 32 \<longrightarrow> n_tasks x + (if mpc x = In_Body then 1 else 0) \<le> n_signals x)"

inductive_cases main_step_cases: "main_step ec x y"

lemma of_nat_u32_eq:
  assumes "a < 2 ^ 32" and "b < 2 ^ 32"
  shows "(of_nat a :: u32) = of_nat b \<longleftrightarrow> a = b"
proof
  assume "(of_nat a :: u32) = of_nat b"
  then have "unat (of_nat a :: u32) = unat (of_nat b :: u32)" by simp
  moreover have "unat (of_nat a :: u32) = a" "unat (of_nat b :: u32) = b"
    using assms by (simp_all add: unat_of_nat_small)
  ultimately show "a = b" by simp
qed simp

lemma main_step_alarms: "main_step ec x y \<Longrightarrow> alarms_inv x \<Longrightarrow> alarms_inv y"
proof (induction rule: main_step.induct)
  case (More x)
  have "n_tasks x < n_signals x" if "n_signals x < 2 ^ 32"
  proof -
    have "n_tasks x \<le> n_signals x" using More that by (simp add: alarms_inv_def)
    moreover have "n_tasks x \<noteq> n_signals x" using More by (auto simp: alarms_inv_def)
    ultimately show ?thesis by simp
  qed
  then show ?case using More by (auto simp: alarms_inv_def)
qed (auto simp: alarms_inv_def signal_handler_def)

lemma main_reach_alarms: "(main_step ec)\<^sup>*\<^sup>* (main_start s) x \<Longrightarrow> alarms_inv x"
proof (induction rule: rtranclp_induct)
  case base
  show ?case by (simp add: alarms_inv_def main_start_def)
next
  case (step y z)
  then show ?case using main_step_alarms by blast
qed

section \<open>Properties\<close>

text \<open>C30: started by \<open>main\<close>, the cyclic task runs fewer than 2^31 times without overflow whatever the
  bus delivers. The error byte is the number of tasks that saw the inputs differ from the outputs
  for at least the third time in a row, saturated at 255; the output nibble changes after 11 tasks
  and then every 6, counting modulo 16.\<close>

theorem cyclic_tasks_count:
  assumes "main_init ec m0 = Inr (s0, m)" and "length fs < 2 ^ 31"
  shows "\<exists>bs s m'. run_tasks ec fs ([], s0, m) = Inr (bs, s, m') \<and> length bs = length fs \<and>
    unat (error s) = min 255 (late_cycles bs) \<and> unat (outputValue s) = (length fs - 5) div 6 mod 16"
proof -
  obtain bs s m' where "run_tasks ec fs ([], s0, m) = Inr (bs, s, m')" "length bs = length fs" "app_inv bs s"
    using run_tasks_inv [OF main_init_inv [OF assms(1)], of fs ec m] assms(2) by auto
  then show ?thesis by (auto simp: app_inv_def scheduled_output_def)
qed

text \<open>C34: as long as fewer than 2^32 signals have arrived, no more tasks ran than signals arrived, and
  the inner loop is left only when there were as many tasks as signals.\<close>

theorem alarms_served:
  assumes "main_prepare ec sigact setit m0 = Inr x0" and "(main_step ec)\<^sup>*\<^sup>* x0 x" and "n_signals x < 2 ^ 32"
  shows "n_tasks x \<le> n_signals x \<and>
    (\<forall>y. main_step ec x y \<and> mpc x = Testing \<and> mpc y = About_To_Pause \<longrightarrow> n_tasks x = n_signals x)"
proof -
  obtain s where "x0 = main_start s" using assms(1) by (auto simp: main_prepare_def split: sum.splits if_splits)
  then have inv: "alarms_inv x" using main_reach_alarms assms(2) by blast
  then have le: "n_tasks x \<le> n_signals x" using assms(3) by (auto simp: alarms_inv_def split: if_splits)
  have "n_tasks x = n_signals x" if "main_step ec x y" "mpc x = Testing" "mpc y = About_To_Pause" for y
  proof -
    have eq: "sig_alarms x = user_alarms x" using that by (auto elim!: main_step_cases simp: signal_handler_def)
    have "(of_nat (n_signals x) :: u32) = of_nat (n_tasks x)" using inv unfolding alarms_inv_def eq by metis
    then show ?thesis using of_nat_u32_eq [of "n_signals x" "n_tasks x"] le assms(3) by simp
  qed
  then show ?thesis using le by blast
qed

text \<open>a signal that arrives between the test of the inner loop and the call of \<open>pause\<close> is not served:
  the program can be suspended with a task due, until the next signal.\<close>

theorem pause_misses_signal:
  "\<exists>x. (main_step ec)\<^sup>*\<^sup>* (main_start s) x \<and> mpc x = Paused \<and> n_tasks x < n_signals x"
proof -
  have "main_step ec (main_start s) (signal_handler (main_start s))" by (rule main_step.Signal) (simp add: main_start_def)
  moreover have "main_step ec (signal_handler (main_start s)) ((signal_handler (main_start s))\<lparr>mpc := Paused\<rparr>)"
    by (rule main_step.Call_Pause) (simp add: main_start_def signal_handler_def)
  ultimately have "(main_step ec)\<^sup>*\<^sup>* (main_start s) ((signal_handler (main_start s))\<lparr>mpc := Paused\<rparr>)"
    by (meson converse_rtranclp_into_rtranclp rtranclp.rtrancl_refl)
  then show ?thesis
    by (intro exI [of _ "(signal_handler (main_start s))\<lparr>mpc := Paused\<rparr>"]) (simp add: main_start_def signal_handler_def)
qed

text \<open>The entries a sync manager table maps, in the order of the process image.\<close>

definition mapped_entries :: "ec_sync_info list \<Rightarrow> ec_pdo_entry_info list" where
  "mapped_entries syncs =
     concat (map (\<lambda>sm. concat (map (\<lambda>p. take (pdo_n p) (pdo_entries p)) (take (sm_n sm) (sm_pdos sm)))) syncs)"

definition syncs_wf :: "ec_sync_info list \<Rightarrow> bool" where
  "syncs_wf syncs \<longleftrightarrow> syncs \<noteq> [] \<and> sm_index (last syncs) = 0xff \<and>
     list_all (\<lambda>sm. sm_index sm \<noteq> 0xff \<and> sm_n sm = length (sm_pdos sm) \<and>
       list_all (\<lambda>p. pdo_n p \<le> length (pdo_entries p)) (sm_pdos sm) \<and> distinct (map pdo_index (sm_pdos sm))) (butlast syncs) \<and>
     distinct (map pe_index (mapped_entries syncs))"

lemmas table_defs = el1004_syncs_def el1004_pdos_def el1004_channels_def el1008_syncs_def el1008_pdos_def el1008_channels_def
  el2004_syncs_def el2004_pdos_def el2004_channels_def el2008_syncs_def el2008_pdos_def el2008_channels_def
  sync_end_def channel_def

text \<open>the sync manager tables are well formed: terminated, their counts match their arrays, no PDO or
  entry is listed twice; each maps one bit per channel of its terminal, in order, and the first
  entry of the two tables \<open>main\<close> uses is the one it registers.\<close>

theorem tables_wf:
  "syncs_wf el1004_syncs \<and> syncs_wf el1008_syncs \<and> syncs_wf el2004_syncs \<and> syncs_wf el2008_syncs \<and>
   mapped_entries el1004_syncs = el1004_channels \<and> mapped_entries el1008_syncs = el1008_channels \<and>
   mapped_entries el2004_syncs = el2004_channels \<and> mapped_entries el2008_syncs = el2008_channels \<and>
   pe_index (hd (mapped_entries el1004_syncs)) = fst Beckhoff_EL1004 \<and>
   pe_index (hd (mapped_entries el2004_syncs)) = fst Beckhoff_EL2004"
  by (simp add: syncs_wf_def mapped_entries_def table_defs Beckhoff_EL1004_def Beckhoff_EL2004_def)

text \<open>\<open>main\<close> ignores a failed terminal configuration: with a library that refuses to register any
  process data entry it still starts, with offsets of 2^32 - 1 into the process data.\<close>

theorem main_ignores_failed_terminals:
  assumes "\<forall>n m. fst (ecrt_request_master ec n m) \<noteq> 0" and "\<forall>a m. fst (ecrt_master_create_domain ec a m) \<noteq> 0"
    and "\<forall>a b c d e m. fst (ecrt_master_slave_config ec a b c d e m) \<noteq> 0" and "\<forall>a y m. fst (ecrt_slave_config_pdos ec a y m) = 0"
    and "\<forall>a b c d m. fst (ecrt_slave_config_reg_pdo_entry ec a b c d m) = -1"
    and "\<forall>a m. fst (ecrt_master_activate ec a m) = 0" and "\<forall>a m. fst (ecrt_domain_data ec a m) \<noteq> 0"
  shows "\<exists>s m'. main_init ec m = Inr (s, m') \<and> off_dig_in s = [0xffffffff, 0xffffffff] \<and>
    off_dig_out s = [0xffffffff, 0xffffffff] \<and> printed s = replicate 4 No_Pdo_Entry"
proof -
  have init: "fst (snd (Init_EL100x ec off pos ids syncs sm)) = 0xffffffff"
    "fst (snd (snd (Init_EL100x ec off pos ids syncs sm))) = print True No_Pdo_Entry (fst sm)" for off pos ids syncs sm
    using assms(3-5) by (simp_all add: Init_EL100x_def Let_def case_prod_beta del: neq0_conv)
  show ?thesis
    using assms
    by (simp add: main_init_def Let_def case_prod_beta init print_def app_init_def numeral_eq_Suc del: neq0_conv)
qed

text \<open>
  The frame of the injectors is the one the driver sends when the link comes up. On a library that
  logs what is injected, the programs add it once and 1000 times if the interface can be opened,
  whether or not single injections fail.
\<close>

lemma frames_eq: "forward_frame = frameForwardEthernetFrames" "burst_frame = frameForwardEthernetFrames"
  by (simp_all add: forward_frame_def burst_frame_def frameForwardEthernetFrames_def)

lemma inject_loop_frames:
  assumes "\<And>h f p. sent (snd (pcap_inject lib h f p)) = sent p @ [f]"
  shows "sent (snd (inject_loop lib h n failed p)) = sent p @ replicate n frameForwardEthernetFrames"
proof (induction n arbitrary: failed p)
  case (Suc n)
  then show ?case using assms [of h burst_frame p] by (simp add: case_prod_beta replicate_append_same frames_eq(2))
qed simp

lemma injectors_frames:
  assumes "\<And>h f p. sent (snd (pcap_inject lib h f p)) = sent p @ [f]"
    and "\<And>h p. sent (pcap_close lib h p) = sent p" and "pcap_open_live lib ''eth2'' 96 p = (h, err, p0)" and "h \<noteq> 0"
  shows "sent (snd (snd (forward_frames_main lib p))) = sent p0 @ [frameForwardEthernetFrames]"
    and "sent (snd (snd (udp_burst_main lib p))) = sent p0 @ replicate 1000 frameForwardEthernetFrames"
proof -
  show "sent (snd (snd (forward_frames_main lib p))) = sent p0 @ [frameForwardEthernetFrames]"
    using assms by (simp add: forward_frames_main_def case_prod_beta frames_eq(1))
  have "sent (snd (snd (udp_burst_main lib p))) = sent (snd (inject_loop lib h 1000 0 p0))"
    using assms(2-4) by (simp add: udp_burst_main_def case_prod_beta)
  also have "\<dots> = sent p0 @ replicate 1000 frameForwardEthernetFrames" by (rule inject_loop_frames [OF assms(1)])
  finally show "sent (snd (snd (udp_burst_main lib p))) = sent p0 @ replicate 1000 frameForwardEthernetFrames" .
qed

section \<open>Examples\<close>

text \<open>A library whose state is the process data and which registers every entry at offset \<open>r\<close>.\<close>

definition ecrt0 :: "int \<Rightarrow> memory ecrt" where
  "ecrt0 r = \<lparr>ecrt_request_master = (\<lambda>_ m. (1, m)), ecrt_master_create_domain = (\<lambda>_ m. (1, m)),
     ecrt_master_slave_config = (\<lambda>_ _ _ _ _ m. (1, m)), ecrt_slave_config_pdos = (\<lambda>_ _ m. (0, m)),
     ecrt_slave_config_reg_pdo_entry = (\<lambda>_ _ _ _ m. (r, m)), ecrt_master_activate = (\<lambda>_ m. (0, m)),
     ecrt_domain_data = (\<lambda>_ m. (0x1000, m)), ecrt_master_receive = (\<lambda>_ m. m), ecrt_domain_process = (\<lambda>_ m. m),
     ecrt_domain_state = (\<lambda>_ m. \<lparr>working_counter = 0, wc_state = 0\<rparr>),
     ecrt_master_state = (\<lambda>_ m. \<lparr>slaves_responding = 4, al_states = 8, link_up = True\<rparr>),
     ecrt_slave_config_state = (\<lambda>_ m. \<lparr>sc_al_state = 0, sc_online = False, sc_operational = False\<rparr>),
     ecrt_domain_queue = (\<lambda>_ m. m), ecrt_master_send = (\<lambda>_ m. m),
     EC_READ_U8 = (\<lambda>a m. m a), EC_WRITE_U8 = (\<lambda>a v m. m(a := v))\<rparr>"

lemma main_init0: "\<exists>s m. main_init (ecrt0 0) (\<lambda>_. 0) = Inr (s, m)"
  by (simp add: main_init_def ecrt0_def Init_EL100x_def Beckhoff_EL1004_def Beckhoff_EL2004_def Let_def)

theorem cyclic_tasks_count_witness:
  "\<exists>s0 m bs s m'. main_init (ecrt0 0) (\<lambda>_. 0) = Inr (s0, m) \<and>
     run_tasks (ecrt0 0) (replicate 20 id) ([], s0, m) = Inr (bs, s, m') \<and> unat (error s) = min 255 (late_cycles bs) \<and>
     unat (outputValue s) = 2"
proof -
  obtain s0 m where init: "main_init (ecrt0 0) (\<lambda>_. 0) = Inr (s0, m)" using main_init0 by blast
  have "length (replicate 20 (id :: memory \<Rightarrow> memory)) < 2 ^ 31" by simp
  from cyclic_tasks_count [OF init this] init show ?thesis by auto
qed

theorem alarms_served_witness:
  "\<exists>x0 x. main_prepare (ecrt0 0) 0 (\<lambda>_ _. 0) (\<lambda>_. 0) = Inr x0 \<and> (main_step (ecrt0 0))\<^sup>*\<^sup>* x0 x \<and> n_signals x = 1 \<and> n_tasks x \<le> 1"
proof -
  obtain s m where "main_init (ecrt0 0) (\<lambda>_. 0) = Inr (s, m)" using main_init0 by blast
  then have prep: "main_prepare (ecrt0 0) 0 (\<lambda>_ _. 0) (\<lambda>_. 0) = Inr (main_start (s, m))" by (simp add: main_prepare_def)
  let ?x = "main_start (s, m)"
  have "main_step (ecrt0 0) ?x (signal_handler ?x)" by (rule main_step.Signal) (simp add: main_start_def)
  then have reach: "(main_step (ecrt0 0))\<^sup>*\<^sup>* ?x (signal_handler ?x)" by blast
  have one: "n_signals (signal_handler ?x) = 1" by (simp add: signal_handler_def main_start_def)
  from alarms_served [OF prep reach] one reach prep show ?thesis by auto
qed

theorem main_ignores_failed_terminals_witness:
  "\<exists>s m'. main_init (ecrt0 (-1)) (\<lambda>_. 0) = Inr (s, m') \<and> off_dig_in s = [0xffffffff, 0xffffffff] \<and>
     off_dig_out s = [0xffffffff, 0xffffffff] \<and> printed s = replicate 4 No_Pdo_Entry"
  by (rule main_ignores_failed_terminals) (simp_all add: ecrt0_def)

end
