(* ===== verification/Spec2Isabelle.thy ===== *)
theory Spec2Isabelle
  imports Ccat_Race Ccat_Rx_Race Ccat_Eim Ccat_Flash Ccat_Gpio_Lock Ccat_Fpga Ccat_Iface Ccat_Reopen Ccat_Sram_File
    Ccat_Update_File Ccat_Unittest
begin

text \<open>
  Verification of the Linux driver for the Beckhoff CCAT FPGA (EtherCAT master controller of the
  CX embedded PCs).

  \<^bold>\<open>The program.\<close> The FPGA presents a table of functions. \<^verbatim>\<open>src/module.c\<close> probes the FPGA on PCI or on
  the EIM bus, reads the table and creates one platform device per function; a driver for each type
  of function binds to it. \<^verbatim>\<open>src/netdev.c\<close> is the network driver: a ring of frames for each direction,
  in DMA memory or in the FPGA's own memory (EIM), served by a timer that polls the link, the receive
  ring and the transmit ring. \<^verbatim>\<open>src/update.c\<close> and \<^verbatim>\<open>src/sram.c\<close> are character devices for the
  configuration flash and the battery-backed memory; both use the device-class layer of
  \<^verbatim>\<open>src/module.c\<close>. \<^verbatim>\<open>src/gpio.c\<close> is a GPIO chip, \<^verbatim>\<open>src/systemtime.c\<close> a clock source. The programs of
  \<^verbatim>\<open>src/unittest\<close> exercise the driver from user space.

  \<^bold>\<open>The theories.\<close> They follow the source files; definitions carry the names of the functions they
  model.
  \<^item> \<open>Ccat_Prelude\<close>: machine integers, codecs, byte memory and the interface to memory-mapped I/O,
    a record of access functions on an abstract device state, the parameter of every operation that
    touches the FPGA.
  \<^item> \<open>Ccat_Types\<close>: \<^verbatim>\<open>src/module.h\<close>, the information block and its views, devices and functions.
  \<^item> \<open>Ccat_Replug\<close>: what probe and remove of a driver promise (locale \<open>hotplug\<close>), and that plugging and
    unplugging then leaks nothing; interpreted by \<open>Ccat_Cdev\<close>, \<open>Ccat_Eth_Probe\<close> and \<open>Ccat_Module\<close>. The
    stronger \<open>stackable\<close>, for several devices at once, is interpreted by \<open>Ccat_System\<close>, and \<open>Ccat_Fpga\<close> gives
    \<open>hotplug\<close> for the whole FPGA.
  \<^item> \<open>Ccat_Cdev\<close>: \<^verbatim>\<open>src/module.c\<close> lines 48 to 206. Class reference counts, the slot table, probe,
    remove, open, release, llseek; the kernel's registries are state, its answers a parameter.
    Invariant of a class, first-free allocation, probe/remove round trip, exclusive open under every
    interleaving of the atomic counter operations, error paths.
  \<^item> \<open>Ccat_Reopen\<close>: device files that stay open while their device is removed and its slot given to another
    (\<open>slot_step\<close>): when the exclusive open survives that, and what goes wrong otherwise.
  \<^item> \<open>Ccat_File\<close>: what a file that is read in blocks promises (locale \<open>readable_file\<close>), and when one
    implementation of a file does what another one does (locale \<open>simulation\<close>).
  \<^item> \<open>Ccat_Sram\<close>, \<open>Ccat_Update\<close>, \<open>Ccat_Flash\<close>: \<^verbatim>\<open>src/sram.c\<close> and \<^verbatim>\<open>src/update.c\<close>. Both interpret
    \<open>readable_file\<close>. \<open>Ccat_Flash\<close> states the protocol of the flash device (\<open>epcs_law\<close>), proves that
    every command sequence then returns and what the flash holds afterwards, and shows with a
    reference device that the protocol can be met.
  \<^item> \<open>Ccat_Sram_File\<close>, \<open>Ccat_Update_File\<close>: every sequence of system calls on the SRAM's file refines an abstract
    file, and every session on the Update file an abstract flash (interpretations of \<open>simulation\<close>).
  \<^item> \<open>Ccat_Fifo\<close>: the frame rings of \<^verbatim>\<open>src/netdev.c\<close>, their operations on DMA and EIM, and the locales
    \<open>cyclic_cursor\<close>, \<open>rx_fifo\<close> and \<open>tx_fifo\<close> interpreted on both.
  \<^item> \<open>Ccat_Netdev\<close>: transmit, receive, link and timer, each function on its own. Receive order and
    conservation, refinement of a queue of frames, what link and timer do to the queue, statistics.
  \<^item> \<open>Ccat_Race\<close>: \<open>ccat_eth_start_xmit\<close> access by access and the timer's callback in its parts, with the device
    and the opening and stopping of the interface (\<open>tx_interleave\<close>), on one processor and on several:
    equivalence with the functions, wire order, what a link that comes up discards, when a full ring
    can meet an awake queue.
  \<^item> \<open>Ccat_Rx_Race\<close>: \<open>poll_rx\<close> on the DMA ring access by access while frames arrive (\<open>rx_interleave\<close>):
    equivalence with the function, and that every frame is taken once, in order of arrival.
  \<^item> \<open>Ccat_Eim\<close>: the same threads on the EIM variant (\<open>eim_interleave\<close>), on one processor: when an awake queue can
    meet a fifo that is not empty.
  \<^item> \<open>Ccat_Eth_Probe\<close>: DMA windows, register addresses, probe and remove of the network device.
  \<^item> \<open>Ccat_Iface\<close>: opening, stopping and removing an interface while the timer's callback, the stack and
    the device go on (\<open>iface_step\<close>): nothing is used after it was freed and nothing leaks.
  \<^item> \<open>Ccat_Gpio\<close>, \<open>Ccat_Systemtime\<close>: \<^verbatim>\<open>src/gpio.c\<close> and \<^verbatim>\<open>src/systemtime.c\<close>.
  \<^item> \<open>Ccat_Mutex\<close>, \<open>Ccat_Gpio_Lock\<close>: threads that execute programs of lock, unlock and access instructions
    (\<open>lock_step\<close>) and what makes them an object with whole operations (locale \<open>locked_object\<close>), interpreted on
    the functions of the GPIO chip written as such programs (\<open>gpio_code\<close>).
  \<^item> \<open>Ccat_Module\<close>: the rest of \<^verbatim>\<open>src/module.c\<close>: the function table, PCI and EIM probe and remove.
  \<^item> \<open>Ccat_System\<close>: the driver tables at the end of the source files, how a cell finds its driver, and
    all drivers in one kernel: the whole FPGA comes and goes without a leak.
  \<^item> \<open>Ccat_Fpga\<close>: PCI or EIM bus driver, function table and all drivers together (locale \<open>fpga_bus\<close>): the
    whole FPGA is plugged and unplugged any number of times, whatever the bus driver is refused, and all
    that stays are the records of functions that \<open>ccat_functions_init\<close> leaks (\<open>mk_live\<close>).
  \<^item> \<open>Ccat_Unittest\<close>: the EtherCAT application and the frame injectors of \<^verbatim>\<open>src/unittest\<close>.
  \<^item> This theory: properties that span components, the lives of an Update, an SRAM and a network device.

  \<^bold>\<open>Conventions.\<close> The machine is LP64 and little-endian. C integers are words of their width; a
  reference count is an unbounded integer, as \<open>atomic_t\<close> never nears its limit here. A pointer is a
  natural number, 0 the null pointer. Undefined behaviour and kernel faults are \<open>Inl\<close> of a fault, a
  call that does not return is \<open>None\<close>: the polling loops of the flash have no bound in the source, so
  they are partial functions, and that they return is proved from the protocol (and characterised
  without it by \<open>wait_until_busy_reset_iff\<close>). Every other loop is a terminating recursion; no fuel is
  used. Kernel calls and the device are parameters; what is assumed of them is a named predicate
  (\<open>kenv_grants\<close>, \<open>region_law\<close>, \<open>io_storage\<close>, \<open>reg32_law\<close>, \<open>counter_law\<close>, \<open>table_law\<close>, \<open>mac_valid\<close>, \<open>seek_law\<close>, \<open>epcs_law\<close>,
  \<open>eim_level_law\<close> and the invariants of the fifos), met by the example devices on which the closed instances are evaluated.

  \<^bold>\<open>Not modelled.\<close> Messages to the kernel log; memory barriers (the device sees accesses in program
  order); an interruption of the timer's link poll, which is a single step (the transmit path and the
  receive poll are split), and a link that comes up while a transmission of the stack is under way: the
  timer then resets the ring and transmits beside it, and the statements on interleavings exclude that
  by the rule \<open>Link_Up\<close> of \<open>tx_interleave\<close>; calls for GPIO pins from 64 on in the interleavings, as there the
  bit operation leaves its word (\<open>gpio_high_pins\<close>); a device that is removed while its information table is still being
  read; module parameters and information of the kernel (\<^verbatim>\<open>MODULE_*\<close>); the
  shell scripts, build files, patches for the EtherLab master and tools of the repository, which are
  not part of the driver.
\<close>


section \<open>The life of a configuration flash\<close>

lemma update_probe_slot:
  assumes "class_inv c k" and "kenv_grants env" and "first_free 0 (cls_devices c) = Some i" and "info_rev (func_info func) = 0"
  shows "\<exists>c' k' dev. ccat_update_probe env func c k = Inr (0, Some i, c', k') \<and>
    cls_devices c' ! i = \<lparr>cd_in_use = 1, cd_ioaddr = func_base func, cd_iosize = CCAT_FLASH_SIZE, cd_dev = dev, cd_class = True\<rparr>"
  using probe_claims_slot [OF assms(1-3), of func CCAT_FLASH_SIZE] assms(4) by (auto simp: ccat_update_probe_def)

text \<open>C2: the life of a configuration flash, across the driver's parts. On a kernel that grants its
  requests and a flash device that obeys its protocol, probing a revision 0 Update function claims
  the first free slot; opening it succeeds; every write returns its length; closing the file
  returns, flashes the data and leaves the slot as it was before the open; and reading afterwards
  yields the data followed by 0xff bytes up to the size of the flash.\<close>

theorem update_device_life:
  fixes cs :: "u8 list list"
  assumes "class_inv c k" and "kenv_grants env" and "first_free 0 (cls_devices c) = Some i" and "info_rev (func_info func) = 0"
    and "epcs_law hw V (func_base func)" and "ev_work V h = 0" and "kz (16 + CCAT_FLASH_SIZE)"
    and "0 < length (concat cs)" and "length (concat cs) \<le> unat CCAT_FLASH_SIZE"
    and "unat CCAT_FLASH_SIZE \<le> sum_list (map unat ns)"
  shows "\<exists>c' k' d1 buf off buf' h' off'' h''.
    ccat_update_probe env func c k = Inr (0, Some i, c', k') \<and>
    ccat_cdev_open kz (cls_devices c' ! i) = (0, d1, Some buf) \<and>
    write_chunks (\<lambda>_. 0) d1 cs 0 buf = (map (int \<circ> length) cs, off, buf') \<and>
    ccat_update_release hw d1 buf' h = Some (0, cls_devices c' ! i, h') \<and>
    read_blocks (update_file_read hw d1) ns 0 h' =
      Some (concat cs @ replicate (unat CCAT_FLASH_SIZE - length (concat cs)) 0xff, off'', h'')"
proof -
  obtain c' k' dev where p: "ccat_update_probe env func c k = Inr (0, Some i, c', k')"
    and slot: "cls_devices c' ! i =
      \<lparr>cd_in_use = 1, cd_ioaddr = func_base func, cd_iosize = CCAT_FLASH_SIZE, cd_dev = dev, cd_class = True\<rparr>"
    using update_probe_slot [OF assms(1-4)] by blast
  let ?d = "(cls_devices c' ! i)\<lparr>cd_in_use := 0\<rparr>"
  let ?buf = "\<lparr>buf_size = 0, buf_data = replicate (unat CCAT_FLASH_SIZE) 0\<rparr>"
  have open_ok: "ccat_cdev_open kz (cls_devices c' ! i) = (0, ?d, Some ?buf)"
    using assms(7) by (simp add: ccat_cdev_open_def slot)
  have closed: "?d\<lparr>cd_in_use := cd_in_use ?d + 1\<rparr> = cls_devices c' ! i" by (simp add: slot)
  have inv: "update_inv hw V ?d h" using assms(5,6) by (simp add: update_inv_def slot)
  have len: "length (buf_data ?buf) = unat CCAT_FLASH_SIZE" by simp
  show ?thesis using flash_roundtrip [OF inv len assms(8-10)] p open_ok unfolding closed by blast
qed

section \<open>The life of an SRAM\<close>

lemma sram_iosize_small:
  assumes "unat (sram_size (func_info func)) < 31"
  shows "sram_iosize (func_info func) = Inr (2 ^ unat (sram_size (func_info func)))"
    and "unat (2 ^ unat (sram_size (func_info func)) :: u64) = 2 ^ unat (sram_size (func_info func))"
proof -
  let ?n = "unat (sram_size (func_info func))"
  have lt: "(2 :: nat) ^ ?n < 2 ^ 31" using assms by (intro power_strict_increasing) simp_all
  then show "unat (2 ^ ?n :: u64) = 2 ^ ?n" using unat_of_nat [where 'a = 64, of "2 ^ ?n"] by simp
  have "(scast (2 ^ ?n :: u32) :: u64) = 2 ^ ?n"
    using assms by (intro bit_eqI) (auto simp: bit_signed_iff bit_exp_iff min_def split: if_splits)
  then show "sram_iosize (func_info func) = Inr (2 ^ ?n)" using assms by (simp add: sram_iosize_def)
qed

text \<open>C4: the life of a battery-backed memory, across the driver's parts. Probing an SRAM function of at
  most 1 GiB claims the first free slot; its file can be opened, any number of writes inside the
  device return their lengths, and closing the file leaves the slot as it was. Whoever opens the
  file next, with a fresh buffer, reads the old contents of the memory with exactly the written
  bytes replaced, in the order of the writes and however the reads are cut.\<close>

theorem sram_device_life:
  fixes cells :: "'h \<Rightarrow> memory"
  assumes "class_inv c k" and "kenv_grants env" and "first_free 0 (cls_devices c) = Some i"
    and "sram_width (func_info func) AND 0x3 \<noteq> 0" and size: "unat (sram_size (func_info func)) < 31"
  defines "n \<equiv> 2 ^ unat (sram_size (func_info func))"
  assumes "io_storage hw cells (func_base func) n" and "kz (16 + of_nat n)"
    and "\<forall>(off, bs) \<in> set ws. unat off + length bs \<le> n" and "n \<le> sum_list (map unat ns)"
  shows "\<exists>c' k' d1 buf buf' h' off s.
    ccat_sram_probe env func c k = Inr (0, Some i, c', k') \<and>
    ccat_cdev_open kz (cls_devices c' ! i) = (0, d1, Some buf) \<and>
    sram_writes hw d1 ws (buf, h) = (map (int \<circ> length \<circ> snd) ws, buf', h') \<and>
    ccat_cdev_release d1 = (0, cls_devices c' ! i) \<and>
    read_blocks (\<lambda>len off s. Some (ccat_sram_read hw (\<lambda>_. 0) d1 len off s)) ns 0 (buf, h') =
      Some (fold patch ws (mem_read (cells h) (func_base func) n), off, s)"
proof -
  note sz = sram_iosize_small [OF size, folded n_def]
  have io: "sram_iosize (func_info func) = Inr (of_nat n)" "unat (of_nat n :: u64) = n" using sz by (simp_all add: n_def)
  obtain c' k' dev where p: "ccat_sram_probe env func c k = Inr (0, Some i, c', k')"
    and slot: "cls_devices c' ! i = \<lparr>cd_in_use = 1, cd_ioaddr = func_base func, cd_iosize = of_nat n, cd_dev = dev, cd_class = True\<rparr>"
    using probe_claims_slot [OF assms(1-3), of func "of_nat n"] assms(4) io(1) by (auto simp: ccat_sram_probe_def)
  let ?d = "(cls_devices c' ! i)\<lparr>cd_in_use := 0\<rparr>"
  let ?buf = "\<lparr>buf_size = 0, buf_data = replicate n 0\<rparr>"
  have open_ok: "ccat_cdev_open kz (cls_devices c' ! i) = (0, ?d, Some ?buf)"
    using assms(8) io(2) by (simp add: ccat_cdev_open_def slot)
  have closed: "ccat_cdev_release ?d = (0, cls_devices c' ! i)" by (simp add: ccat_cdev_release_def slot)
  have small: "n < 2 ^ 31" unfolding n_def using size by (intro power_strict_increasing) simp_all
  have inv: "sram_inv hw cells ?d (?buf, x)" for x using assms(7) small io(2) by (simp add: sram_inv_def slot)
  obtain rs buf' h' where w: "sram_writes hw ?d ws (?buf, h) = (rs, buf', h')" by (metis prod.collapse)
  have "\<forall>(off, bs) \<in> set ws. unat off + length bs \<le> unat (cd_iosize ?d)" using assms(9) io(2) by (simp add: slot)
  note c = sram_writes_contents [OF inv this w]
  have cont: "sram_contents cells ?d (?buf, h') = fold patch ws (mem_read (cells h) (func_base func) n)"
    using c by (simp add: sram_contents_def slot io(2))
  have "length (sram_contents cells ?d (?buf, h')) \<le> sum_list (map unat ns)" using assms(10) by (simp add: sram_contents_def slot io(2))
  from sram_file.blocks_all [OF inv this] obtain off s where
    "read_blocks (\<lambda>len off s. Some (ccat_sram_read hw (\<lambda>_. 0) ?d len off s)) ns 0 (?buf, h') =
      Some (fold patch ws (mem_read (cells h) (func_base func) n), off, s)"
    unfolding cont by blast
  then show ?thesis using p open_ok closed w c by blast
qed

section \<open>The life of a network device\<close>

text \<open>C1: the life of a network device on one processor, across the driver's parts. After a successful DMA
  probe, however the accesses of the stack's transmissions, the timer's callbacks, the device and the
  opening and stopping of the interface interleave, as long as the link comes up only while no
  transmission of the stack is under way: no transmission is refused as busy, and the frames with
  which the driver was asked to transmit (those that fit a slot) are, in their order, the frames that
  left the ring, the frames in flight and the frame of the call under way. Those that left were sent,
  apart from at most one ring of frames each time the link came up.\<close>

theorem eth_device_life:
  assumes "ccat_eth_dma_probe env hw pdev func k mi = (0, Some p0, k', m0)"
    and "ee_dma env (ek_dma_calls k) = (base0, phys0)" and "ee_dma env (Suc (ek_dma_calls k)) = (base1, phys1)"
    and "unat phys0 + (2 * CCAT_ALIGNMENT - 1) \<le> 2 ^ 64" and "unat phys1 + (2 * CCAT_ALIGNMENT - 1) \<le> 2 ^ 64"
    and "base0 + (2 * CCAT_ALIGNMENT - 1) \<le> base1 \<or> base1 + (2 * CCAT_ALIGNMENT - 1) \<le> base0"
    and "(tx_interleave False hw skb_ok)\<^sup>*\<^sup>* (tx_threads0 p0 m0) s" and "ts_xmit s = (pc, p, m)"
  shows "pc \<noteq> X_Return NETDEV_TX_BUSY \<and>
    ts_asked s = map snd (ts_out s) @ inflight (settled pc (p_tx_fifo p)) m @ pending_frame pc \<and>
    length (filter (\<lambda>x. fst x = Discarded) (ts_out s)) \<le> ts_ups s * FIFO_LENGTH"
proof -
  note probe = dma_probe_inv [OF assms(1-6)]
  then have "eth_inv p0 m0" by simp
  note reach = reach_one_processor [OF assms(7) threads0_inv [OF this]]
  have "pc \<noteq> X_Return NETDEV_TX_BUSY" using reach assms(8) by (auto simp: awake_inv_def)
  then show ?thesis using reach assms(8) probe by (simp add: order_inv_def asked_inv_def ring_frames_def)
qed

section \<open>Examples\<close>

definition update_func0 :: ccat_function where
  "update_func0 = \<lparr>func_ccat = \<lparr>bar_0 = 0x10000, bar_2 = 0\<rparr>,
     func_info = \<lparr>info_type = 0x0F, info_rev = 0, info_config = 0, info_addr = 0x400, info_size = 0\<rparr>\<rparr>"

lemma update_class_inv: "class_inv update_class kernel0"
  by (simp add: update_class_def static_class_inv CCAT_UPDATE_DEVICES_MAX_def kernel0_def)

theorem update_device_life_witness:
  "\<exists>c' k' d1 buf off buf' h' off'' h''.
    ccat_update_probe kenv0 update_func0 update_class kernel0 = Inr (0, Some 0, c', k') \<and>
    ccat_cdev_open (\<lambda>_. True) (cls_devices c' ! 0) = (0, d1, Some buf) \<and>
    write_chunks (\<lambda>_. 0) d1 [[7, 8], [9]] 0 buf = (map (int \<circ> length) [[7, 8], [9 :: u8]], off, buf') \<and>
    ccat_update_release (epcs_bus (func_base update_func0)) d1 buf' epcs0 = Some (0, cls_devices c' ! 0, h') \<and>
    read_blocks (update_file_read (epcs_bus (func_base update_func0)) d1) [CCAT_FLASH_SIZE] 0 h' =
      Some (concat [[7, 8], [9]] @ replicate (unat CCAT_FLASH_SIZE - length (concat [[7, 8], [9 :: u8]])) 0xff, off'', h'')"
proof (rule update_device_life [OF update_class_inv kenv0_grants _ _ epcs_bus_law])
  show "first_free 0 (cls_devices update_class) = Some 0"
    by (simp add: update_class_def static_class_def CCAT_UPDATE_DEVICES_MAX_def eval_nat_numeral)
qed (simp_all add: update_func0_def epcs0_def epcs_views_def CCAT_FLASH_SIZE_def)

theorem eth_device_life_witness:
  "\<exists>p k' m s. ccat_eth_dma_probe probe_env0 rom_bus 1 eth_func0 probe_kernel0 machine1 = (0, Some p, k', m) \<and>
    (tx_interleave False rom_bus (\<lambda>_ _. True))\<^sup>*\<^sup>* (tx_threads0 p m) s \<and>
    fst (ts_xmit s) = X_Return NETDEV_TX_OK \<and> ring_frames (ts_xmit s) = [[1, 2, 3]]"
proof -
  have e: "ee_dma probe_env0 (ek_dma_calls probe_kernel0) = (0x100000, 0x7654321)"
    "ee_dma probe_env0 (Suc (ek_dma_calls probe_kernel0)) = (0x200000, 0x123456789)"
    by (simp_all add: probe_env0_def probe_kernel0_def)
  obtain p k' m where run: "ccat_eth_dma_probe probe_env0 rom_bus 1 eth_func0 probe_kernel0 machine1 = (0, Some p, k', m)"
    using probe0_succeeds by blast
  obtain r p' m' where x: "ccat_eth_start_xmit rom_bus skb0 p m = (r, p', m')" by (metis prod.collapse)
  let ?s0 = "tx_threads0 p m"
  obtain acc where s: "(tx_interleave False rom_bus (\<lambda>_ _. True))\<^sup>*\<^sup>* ?s0
      (?s0\<lparr>ts_asked := ts_asked ?s0 @ [[1, 2, 3]], ts_xmit := (X_Return r, p', m'), ts_acc := acc\<rparr>)"
    using call_reach [OF _ _ dma_probe_awake [OF run] x, of False ?s0 "\<lambda>_ _. True"] skb0_fits
    by (auto simp: tx_threads0_def) (auto simp: skb0_def)
  have "ts_asked ?s0 = []" using dma_probe_inv [OF run e] by (simp add: tx_threads0_def CCAT_ALIGNMENT_def)
  with eth_device_life [OF run e _ _ _ s, of "X_Return r" p' m'] have "r \<noteq> NETDEV_TX_BUSY" "inflight (p_tx_fifo p') m' = [[1, 2, 3]]"
    by (simp_all add: CCAT_ALIGNMENT_def tx_threads0_def)
  then show ?thesis using run s by (cases r) (auto simp: ring_frames_def)
qed

definition sram_func0 :: ccat_function where
  "sram_func0 = \<lparr>func_ccat = \<lparr>bar_0 = 0x10000, bar_2 = 0\<rparr>,
     func_info = \<lparr>info_type = 0x16, info_rev = 0, info_config = 0x401, info_addr = 0x40, info_size = 0\<rparr>\<rparr>"

theorem sram_device_life_witness:
  "\<exists>c' k' d1 buf buf' h' off s.
    ccat_sram_probe kenv0 sram_func0 sram_class kernel0 = Inr (0, Some 0, c', k') \<and>
    ccat_cdev_open (\<lambda>_. True) (cls_devices c' ! 0) = (0, d1, Some buf) \<and>
    sram_writes ram_bus d1 [(3, [7, 8]), (4, [9])] (buf, \<lambda>_. 0) = ([2, 1], buf', h') \<and>
    ccat_cdev_release d1 = (0, cls_devices c' ! 0) \<and>
    read_blocks (\<lambda>len off s. Some (ccat_sram_read ram_bus (\<lambda>_. 0) d1 len off s)) [5, 20] 0 (buf, h') =
      Some (fold patch [(3, [7, 8]), (4, [9])] (replicate 16 0), off, s)"
proof -
  have inv: "class_inv sram_class kernel0"
    by (simp add: sram_class_def static_class_inv CCAT_SRAM_DEVICES_MAX_def kernel0_def)
  have free: "first_free 0 (cls_devices sram_class) = Some 0"
    by (simp add: sram_class_def static_class_def CCAT_SRAM_DEVICES_MAX_def eval_nat_numeral)
  have w: "sram_width (func_info sram_func0) AND 0x3 \<noteq> 0" "unat (sram_size (func_info sram_func0)) < 31"
    "(2 :: nat) ^ unat (sram_size (func_info sram_func0)) = 16"
    by (simp_all add: sram_func0_def sram_width_def sram_size_def)
  have "mem_read (\<lambda>_. 0) (func_base sram_func0) 16 = replicate 16 0" by (simp add: mem_read_def map_replicate_const)
  then show ?thesis
    using sram_device_life [OF inv kenv0_grants free w(1,2), of ram_bus "\<lambda>h. h" "\<lambda>_. True" "[(3, [7, 8]), (4, [9])]" "[5, 20]" "\<lambda>_. 0"]
    by (simp only: w(3)) (simp add: ram_bus_storage)
qed

end
